(* ===== verification/Prelude.thy ===== *)
theory Prelude
  imports Main "HOL-Library.Word"
begin

text \<open>
  What every component of the development shares: the names of the machine types, the
  collections of facts the proofs use, the byte-order conversions of the C code
  (\<open>memcpy\<close> of a \<open>uint32_t\<close> on a little-endian target, \<open>util_sys_short\<close> for the
  network order of a packet's header length), the view of a word as a list of bits, and
  the interface of a component that is fed a byte stream in fragments.
\<close>

unbundle bit_operations_syntax

type_synonym u8 = "8 word"
type_synonym u16 = "16 word"
type_synonym u32 = "32 word"
type_synonym bytes = "8 word list"

named_theorems wf_intros \<open>preservation of the components' well-formedness predicates\<close>
named_theorems codec_simps \<open>round trips and lengths of byte encodings\<close>

text \<open>
  A fault of the C code: what the language leaves undefined and the model therefore makes
  a value. \<open>OverRead\<close> is a read past the end of an allocated block, \<open>BadFree\<close> the release
  of a block that another owner still holds, \<open>UseAfterFree\<close> the use of a block after its release.
\<close>

datatype c_fault = OverRead | BadFree | UseAfterFree

section \<open>Words as lists of bits\<close>

text \<open>The low \<open>n\<close> bits of a word, most significant first.\<close>

definition bits_of :: "nat \<Rightarrow> 'a::len word \<Rightarrow> bool list" where
  "bits_of n w = map (bit w) (rev [0..<n])"

lemma length_bits_of [simp]: "length (bits_of n w) = n"
  by (simp add: bits_of_def)

lemma bits_of_0 [simp]: "bits_of 0 w = []"
  by (simp add: bits_of_def)

lemma nth_bits_of: "i < n \<Longrightarrow> bits_of n w ! i = bit w (n - 1 - i)"
  by (simp add: bits_of_def rev_nth)

lemma bits_of_zero [simp]: "bits_of n 0 = replicate n False"
  by (rule nth_equalityI) (auto simp: nth_bits_of)

lemma bits_of_eqI:
  assumes "\<And>i. i < n \<Longrightarrow> bit v i = bit w i"
  shows "bits_of n v = bits_of n w"
  using assms by (simp add: bits_of_def)

lemma bits_of_split:
  assumes "m \<le> n" and "n \<le> LENGTH('a)"
  shows "bits_of n (w :: 'a::len word) = bits_of (n - m) (drop_bit m w) @ bits_of m w"
proof (rule nth_equalityI)
  show "length (bits_of n w) = length (bits_of (n - m) (drop_bit m w) @ bits_of m w)"
    using assms by simp
next
  fix i assume i: "i < length (bits_of n w)"
  show "bits_of n w ! i = (bits_of (n - m) (drop_bit m w) @ bits_of m w) ! i"
  proof (cases "i < n - m")
    case True
    then have "m + (n - m - 1 - i) = n - 1 - i" using assms by simp
    with True i show ?thesis by (simp add: nth_append nth_bits_of bit_simps)
  next
    case False
    then have "m - 1 - (i - (n - m)) = n - 1 - i" using i assms by simp
    with False i assms show ?thesis by (simp add: nth_append nth_bits_of)
  qed
qed

lemma bits_of_inject:
  fixes v w :: "'a::len word"
  assumes "bits_of LENGTH('a) v = bits_of LENGTH('a) w"
  shows "v = w"
proof (rule bit_word_eqI)
  fix n assume n: "n < LENGTH('a)"
  let ?i = "LENGTH('a) - 1 - n"
  have "bits_of LENGTH('a) v ! ?i = bits_of LENGTH('a) w ! ?i" using assms by simp
  with n show "bit v n = bit w n" by (simp add: nth_bits_of)
qed

text \<open>The word whose bits are listed, most significant first.\<close>

definition word_of_bits :: "bool list \<Rightarrow> 'a::len word" where
  "word_of_bits bs = horner_sum of_bool 2 (rev bs)"

lemma bit_word_of_bits:
  "bit (word_of_bits bs :: 'a::len word) n \<longleftrightarrow>
     n < LENGTH('a) \<and> n < length bs \<and> bs ! (length bs - 1 - n)"
  by (auto simp: word_of_bits_def bit_horner_sum_bit_iff rev_nth)

lemma bits_of_word_of_bits:
  "length bs = n \<Longrightarrow> n \<le> LENGTH('a) \<Longrightarrow> bits_of n (word_of_bits bs :: 'a::len word) = bs"
  by (rule nth_equalityI) (auto simp: nth_bits_of bit_word_of_bits)

lemma word_of_bits_of: "word_of_bits (bits_of n w) = take_bit n w"
  by (rule bit_word_eqI) (auto simp: bit_word_of_bits nth_bits_of bit_simps)

lemma bits_of_push_or:
  fixes a b :: "'a::len word"
  assumes "n + m \<le> LENGTH('a)" and "take_bit m b = b"
  shows "bits_of (n + m) (push_bit m a OR b) = bits_of n a @ bits_of m b"
proof -
  have high: "\<not> bit b k" if "m \<le> k" for k
    using that assms(2) by (metis bit_take_bit_iff not_le)
  have "bits_of (n + m) (push_bit m a OR b) =
      bits_of n (drop_bit m (push_bit m a OR b)) @ bits_of m (push_bit m a OR b)"
    using bits_of_split [of m "n + m" "push_bit m a OR b"] assms(1) by simp
  also have "bits_of n (drop_bit m (push_bit m a OR b)) = bits_of n a"
    using assms(1) by (intro bits_of_eqI) (auto simp: bit_simps high)
  also have "bits_of m (push_bit m a OR b) = bits_of m b"
    using assms(1) by (intro bits_of_eqI) (auto simp: bit_simps)
  finally show ?thesis .
qed

section \<open>Byte order\<close>

text \<open>The four bytes of a \<open>uint32_t\<close> in memory on a little-endian target, and back.\<close>

definition le32 :: "u32 \<Rightarrow> bytes" where
  "le32 w = [ucast w, ucast (drop_bit 8 w), ucast (drop_bit 16 w), ucast (drop_bit 24 w)]"

fun of_le32 :: "bytes \<Rightarrow> u32" where
  "of_le32 (a # b # c # d # _) =
     ucast a OR push_bit 8 (ucast b) OR push_bit 16 (ucast c) OR push_bit 24 (ucast d)"
| "of_le32 _ = 0"

lemma length_le32 [simp, codec_simps]: "length (le32 w) = 4"
  by (simp add: le32_def)

lemma of_le32_le32 [simp, codec_simps]: "of_le32 (le32 w @ rest) = w"
proof (rule bit_word_eqI)
  fix n assume "n < LENGTH(32)"
  then have "n < 8 \<or> (8 \<le> n \<and> n < 16) \<or> (16 \<le> n \<and> n < 24) \<or> (24 \<le> n \<and> n < 32)"
    by auto
  then show "bit (of_le32 (le32 w @ rest)) n = bit w n"
    by (auto simp: le32_def bit_simps)
qed

text \<open>A \<open>uint16_t\<close> in network order, as \<open>util_sys_short\<close> stores it.\<close>

definition be16 :: "u16 \<Rightarrow> bytes" where
  "be16 w = [ucast (drop_bit 8 w), ucast w]"

fun of_be16 :: "bytes \<Rightarrow> u16" where
  "of_be16 (a # b # _) = push_bit 8 (ucast a) OR ucast b"
| "of_be16 _ = 0"

lemma length_be16 [simp, codec_simps]: "length (be16 w) = 2"
  by (simp add: be16_def)

lemma of_be16_be16 [simp, codec_simps]: "of_be16 (be16 w @ rest) = w"
proof (rule bit_word_eqI)
  fix n assume "n < LENGTH(16)"
  then have "n < 8 \<or> (8 \<le> n \<and> n < 16)"
    by auto
  then show "bit (of_be16 (be16 w @ rest)) n = bit w n"
    by (auto simp: be16_def bit_simps)
qed

lemma be16_of_be16:
  "be16 (of_be16 (a # b # rest)) = [a, b]"
proof -
  have "ucast (drop_bit 8 (push_bit 8 (ucast a) OR ucast b :: u16)) = a"
    by (rule bit_word_eqI) (auto simp: bit_simps dest: bit_imp_le_length)
  moreover have "ucast (push_bit 8 (ucast a) OR ucast b :: u16) = b"
    by (rule bit_word_eqI) (auto simp: bit_simps)
  ultimately show ?thesis by (simp add: be16_def)
qed

section \<open>Components fed a byte stream in fragments\<close>

text \<open>
  A transport hands over whatever bytes have arrived; how a stream is cut into fragments is
  the network's choice. \<open>feed\<close> consumes a fragment, \<open>inv\<close> is the invariant of the states it
  works on, and \<open>joinable s\<close> says that the stream may be cut at the state \<open>s\<close> without changing
  the outcome.
\<close>

locale byte_sink =
  fixes feed :: "'s \<Rightarrow> bytes \<Rightarrow> 's"
    and inv :: "'s \<Rightarrow> bool"
    and joinable :: "'s \<Rightarrow> bool"
  assumes feed_inv: "inv s \<Longrightarrow> inv (feed s a)"
    and feed_Nil: "inv s \<Longrightarrow> feed s [] = s"
    and feed_append: "inv s \<Longrightarrow> joinable (feed s a) \<Longrightarrow> feed s (a @ b) = feed (feed s a) b"
begin

text \<open>Every cut of the stream is at a joinable state.\<close>

fun cuts_ok :: "'s \<Rightarrow> bytes list \<Rightarrow> bool" where
  "cuts_ok s [] = True"
| "cuts_ok s [f] = True"
| "cuts_ok s (f # fs) = (joinable (feed s f) \<and> cuts_ok (feed s f) fs)"

lemma feed_fragments: "inv s \<Longrightarrow> cuts_ok s fs \<Longrightarrow> foldl feed s fs = feed s (concat fs)"
proof (induction s fs rule: cuts_ok.induct)
  case (3 s f g fs)
  then show ?case by (simp add: feed_append feed_inv)
qed (simp_all add: feed_Nil)

lemma foldl_feed_inv: "inv s \<Longrightarrow> inv (foldl feed s fs)"
  by (induction fs arbitrary: s) (simp_all add: feed_inv)

end

text \<open>A sink that can be cut anywhere: the fragmentation never matters.\<close>

locale total_byte_sink =
  fixes feed :: "'s \<Rightarrow> bytes \<Rightarrow> 's"
    and inv :: "'s \<Rightarrow> bool"
  assumes total_inv: "inv s \<Longrightarrow> inv (feed s a)"
    and total_Nil: "inv s \<Longrightarrow> feed s [] = s"
    and total_append: "inv s \<Longrightarrow> feed s (a @ b) = feed (feed s a) b"

sublocale total_byte_sink \<subseteq> byte_sink feed inv "\<lambda>_. True"
  by unfold_locales (auto simp: total_Nil total_append total_inv)

context total_byte_sink
begin

lemma cuts_ok_total: "cuts_ok s fs"
  by (induction s fs rule: cuts_ok.induct) auto

lemma feed_concat: "inv s \<Longrightarrow> foldl feed s fs = feed s (concat fs)"
  by (simp add: feed_fragments cuts_ok_total)

end

section \<open>First in, first out\<close>

text \<open>
  The queues of the program differ in how they mark what was taken; \<open>items\<close> are the elements
  still to come, in order.
\<close>

locale fifo =
  fixes enq :: "'q \<Rightarrow> 'a \<Rightarrow> 'q"
    and deq :: "'q \<Rightarrow> 'a option \<times> 'q"
    and items :: "'q \<Rightarrow> 'a list"
  assumes items_enq: "items (enq q x) = items q @ [x]"
    and deq_Nil: "items q = [] \<Longrightarrow> fst (deq q) = None \<and> items (snd (deq q)) = []"
    and deq_Cons: "items q = x # xs \<Longrightarrow> fst (deq q) = Some x \<and> items (snd (deq q)) = xs"
begin

lemma items_enqs: "items (foldl enq q xs) = items q @ xs"
  by (induction xs arbitrary: q) (simp_all add: items_enq)

text \<open>Take up to \<open>n\<close> elements.\<close>

fun drain :: "nat \<Rightarrow> 'q \<Rightarrow> 'a list \<times> 'q" where
  "drain 0 q = ([], q)"
| "drain (Suc n) q =
     (case deq q of
        (None, q') \<Rightarrow> ([], q')
      | (Some x, q') \<Rightarrow> (let (xs, q'') = drain n q' in (x # xs, q'')))"

lemma drain_items: "fst (drain n q) = take n (items q) \<and> items (snd (drain n q)) = drop n (items q)"
proof (induction n arbitrary: q)
  case (Suc n)
  show ?case
  proof (cases "items q")
    case Nil
    then show ?thesis using deq_Nil [of q] by (auto simp: case_prod_unfold split: option.split)
  next
    case (Cons x xs)
    then show ?thesis
      using deq_Cons [of q x xs] Suc.IH [of "snd (deq q)"] by (auto simp: case_prod_unfold)
  qed
qed simp

lemma drain_all: "length (items q) \<le> n \<Longrightarrow> fst (drain n q) = items q"
  by (simp add: drain_items)

end

section \<open>Runs of an event-driven component\<close>

text \<open>The states an event loop leads through, one handler after the other.\<close>

inductive runs :: "('s \<Rightarrow> 'e \<Rightarrow> 's \<Rightarrow> bool) \<Rightarrow> 's \<Rightarrow> 'e list \<Rightarrow> 's \<Rightarrow> bool" for step where
  runs_Nil [intro!]: "runs step s [] s"
| runs_Cons [intro]: "step s e s1 \<Longrightarrow> runs step s1 es s2 \<Longrightarrow> runs step s (e # es) s2"

text \<open>An invariant of the handlers for the events that are \<open>allowed\<close> holds over whole runs.\<close>

locale event_invariant =
  fixes step :: "'s \<Rightarrow> 'e \<Rightarrow> 's \<Rightarrow> bool"
    and allowed :: "'e \<Rightarrow> bool"
    and inv :: "'s \<Rightarrow> bool"
  assumes step_inv: "step s e s' \<Longrightarrow> allowed e \<Longrightarrow> inv s \<Longrightarrow> inv s'"
begin

lemma runs_inv: "runs step s es s' \<Longrightarrow> list_all allowed es \<Longrightarrow> inv s \<Longrightarrow> inv s'"
  by (induction rule: runs.induct) (auto intro: step_inv)

end

section \<open>Operations that implement an abstract data type\<close>

text \<open>
  Every call \<open>c\<close> on a state that satisfies the invariant does to the abstract value what the
  specification says; then so does every sequence of calls.
\<close>

locale refines_calls =
  fixes step :: "'s \<Rightarrow> 'c \<Rightarrow> 's"
    and spec :: "'a \<Rightarrow> 'c \<Rightarrow> 'a"
    and allowed :: "'c \<Rightarrow> bool"
    and inv :: "'s \<Rightarrow> bool"
    and abs :: "'s \<Rightarrow> 'a"
  assumes call_inv: "inv s \<Longrightarrow> allowed c \<Longrightarrow> inv (step s c)"
    and call_abs: "inv s \<Longrightarrow> allowed c \<Longrightarrow> abs (step s c) = spec (abs s) c"
begin

lemma calls_inv: "inv s \<Longrightarrow> list_all allowed cs \<Longrightarrow> inv (foldl step s cs)"
  by (induction cs arbitrary: s) (simp_all add: call_inv)

lemma calls_abs: "inv s \<Longrightarrow> list_all allowed cs \<Longrightarrow> abs (foldl step s cs) = foldl spec (abs s) cs"
  by (induction cs arbitrary: s) (simp_all add: call_inv call_abs)

end

end
