(* ===== verification/Base32.thy ===== *)
theory Base32
  imports Prelude
begin

text \<open>
  The base32 codec of \<open>src/lib/base32.c\<close>. A C string is the list of its bytes without the
  terminating NUL; the caller's result buffer is the list of the bytes written to it, and
  \<open>bufSize\<close> its capacity. The shift register \<open>buffer\<close> is a C \<open>int\<close>, modelled at its 32 bits
  (the left shift of the code drops what leaves the register). Pointers are not NULL.

  The lemmas relate both loops to the stream of bits they move: the encoder cuts the bits of
  the input into digits of five, the decoder cuts the bits of the digits into bytes.
\<close>

section \<open>The encoder\<close>

definition alphabet :: bytes where
  "alphabet = map of_char ''abcdefghijklmnopqrstuvwxyz234567''"

text \<open>
  The loop of \<open>base32_encode\<close>; \<open>room\<close> is \<open>bufSize - count\<close> and \<open>rest\<close> are the bytes from
  \<open>data[next]\<close> on. Each round refills the register (or pads it) and emits one digit.
\<close>

fun base32_encode_loop :: "nat \<Rightarrow> u32 \<Rightarrow> nat \<Rightarrow> bytes \<Rightarrow> bytes" where
  "base32_encode_loop 0 buffer bitsLeft rest = []"
| "base32_encode_loop (Suc room) buffer bitsLeft rest =
     (if bitsLeft > 0 \<or> rest \<noteq> [] then
        let (buffer, bitsLeft, rest) =
          (if bitsLeft < 5 then
             (case rest of
                x # xs \<Rightarrow> (push_bit 8 buffer OR ucast x, bitsLeft + 8, xs)
              | [] \<Rightarrow> (push_bit (5 - bitsLeft) buffer, bitsLeft + (5 - bitsLeft), []))
           else (buffer, bitsLeft, rest));
          index = 31 AND signed_drop_bit (bitsLeft - 5) buffer
        in alphabet ! unat index # base32_encode_loop room buffer (bitsLeft - 5) rest
      else [])"

definition base32_encode :: "bytes \<Rightarrow> nat \<Rightarrow> bytes" where
  "base32_encode data bufSize =
     (case data of
        [] \<Rightarrow> []
      | x # xs \<Rightarrow> base32_encode_loop bufSize (ucast x) 8 xs)"

definition base32_encode_length :: "nat \<Rightarrow> nat" where
  "base32_encode_length rawLength =
     (rawLength * 8) div 5 + (if rawLength mod 5 \<noteq> 0 then 1 else 0) + 1"

section \<open>The decoder\<close>

text \<open>The characters skipped, the mistyped ones repaired, and the value of a digit.\<close>

definition b32_skip :: "u8 \<Rightarrow> bool" where
  "b32_skip ch \<longleftrightarrow> ch = 32 \<or> ch = 9 \<or> ch = 13 \<or> ch = 10 \<or> ch = 45"

definition b32_fix :: "u8 \<Rightarrow> u8" where
  "b32_fix ch = (if ch = 48 then 79 else if ch = 49 then 76 else if ch = 56 then 66 else ch)"

definition b32_digit :: "u8 \<Rightarrow> u8 option" where
  "b32_digit ch =
     (if (65 \<le> ch \<and> ch \<le> 90) \<or> (97 \<le> ch \<and> ch \<le> 122) then Some ((ch AND 31) - 1)
      else if 50 \<le> ch \<and> ch \<le> 55 then Some (ch - (50 - 26))
      else None)"

text \<open>
  The loop of \<open>base32_decode\<close>; \<open>room\<close> is \<open>bufSize - count\<close>. The result is what the function
  returns (\<open>None\<close> for the early \<open>return 0\<close> on an invalid character) with the bytes stored.
\<close>

fun base32_decode_loop :: "bytes \<Rightarrow> nat \<Rightarrow> u32 \<Rightarrow> nat \<Rightarrow> bytes \<Rightarrow> bytes option \<times> bytes" where
  "base32_decode_loop [] room buffer bitsLeft out = (Some out, out)"
| "base32_decode_loop (ch # cs) room buffer bitsLeft out =
     (if room = 0 then (Some out, out)
      else if b32_skip ch then base32_decode_loop cs room buffer bitsLeft out
      else
        let buffer = push_bit 5 buffer in
        case b32_digit (b32_fix ch) of
          None \<Rightarrow> (None, out)
        | Some d \<Rightarrow>
            let buffer = buffer OR ucast d; bitsLeft = bitsLeft + 5 in
            if bitsLeft \<ge> 8 then
              base32_decode_loop cs (room - 1) buffer (bitsLeft - 8)
                (out @ [ucast (signed_drop_bit (bitsLeft - 8) buffer)])
            else base32_decode_loop cs room buffer bitsLeft out)"

text \<open>The count returned, and the bytes in \<open>result\<close>; an invalid character returns 0.\<close>

definition base32_decode :: "bytes \<Rightarrow> nat \<Rightarrow> nat \<times> bytes" where
  "base32_decode encoded bufSize =
     (if bufSize = 0 then (0, [])
      else case base32_decode_loop encoded bufSize 0 0 [] of
             (None, out) \<Rightarrow> (0, out)
           | (Some _, out) \<Rightarrow> (length out, out))"

definition base32_decode_floor :: "nat \<Rightarrow> nat" where
  "base32_decode_floor base32Length = (base32Length * 5) div 8"

section \<open>Digits\<close>

lemma alphabet_eval:
  "alphabet = [97, 98, 99, 100, 101, 102, 103, 104, 105, 106, 107, 108, 109, 110, 111, 112,
     113, 114, 115, 116, 117, 118, 119, 120, 121, 122, 50, 51, 52, 53, 54, 55]"
  by (simp add: alphabet_def)

lemma length_alphabet [simp]: "length alphabet = 32"
  by (simp add: alphabet_eval)

text \<open>Every letter of the alphabet is read back as its own index.\<close>

lemma alphabet_digits:
  "list_all (\<lambda>i. let c = alphabet ! i in
     \<not> b32_skip c \<and> b32_fix c = c \<and> b32_digit c = Some (of_nat i)) [0..<32]"
  by code_simp

lemma alphabet_digit:
  assumes "i < 32"
  shows "\<not> b32_skip (alphabet ! i)"
    and "b32_digit (b32_fix (alphabet ! i)) = Some (of_nat i)"
  using alphabet_digits assms by (auto simp: list_all_iff Let_def)

section \<open>The loops and the stream of bits\<close>

text \<open>Cut into digits of five, the last one padded with zeros; and into whole bytes.\<close>

fun quintets :: "bool list \<Rightarrow> bool list list" where
  "quintets [] = []"
| "quintets (b # bs) = take 5 (b # bs @ replicate 4 False) # quintets (drop 4 bs)"

function octets :: "bool list \<Rightarrow> bytes" where
  "octets bs = (if length bs < 8 then [] else word_of_bits (take 8 bs) # octets (drop 8 bs))"
  by pat_completeness auto
termination
  by (relation "measure length") auto

declare octets.simps [simp del]

definition byte_bits :: "bytes \<Rightarrow> bool list" where
  "byte_bits bs = concat (map (bits_of 8) bs)"

definition b32_letter :: "bool list \<Rightarrow> u8" where
  "b32_letter q = alphabet ! unat (word_of_bits q :: u32)"

lemma byte_bits_simps [simp]:
  "byte_bits [] = []" "byte_bits (x # xs) = bits_of 8 x @ byte_bits xs"
  by (simp_all add: byte_bits_def)

lemma length_byte_bits [simp]: "length (byte_bits bs) = 8 * length bs"
  by (induction bs) auto

lemma quintets_step:
  "xs \<noteq> [] \<Longrightarrow> quintets xs = take 5 (xs @ replicate 4 False) # quintets (drop 5 xs)"
  by (cases xs) auto

lemma length_quintet: "q \<in> set (quintets bs) \<Longrightarrow> length q = 5"
  by (induction bs rule: quintets.induct) auto

lemma length_quintets: "length (quintets bs) = (length bs + 4) div 5"
proof (induction bs rule: quintets.induct)
  case (2 b bs)
  then show ?case by (cases "length bs < 4") auto
qed simp

lemma concat_quintets:
  "\<exists>k < 5. concat (quintets bs) = bs @ replicate k False"
proof (induction bs rule: quintets.induct)
  case 1
  then show ?case by (intro exI [of _ 0]) simp
next
  case (2 b bs)
  then obtain k where k: "k < 5" "concat (quintets (drop 4 bs)) = drop 4 bs @ replicate k False"
    by blast
  show ?case
  proof (cases "length bs < 4")
    case True
    then have "k = 0 \<or> drop 4 bs = []" by simp
    with True k show ?thesis
      by (intro exI [of _ "4 - length bs"])
        (auto simp: take_Cons' min_def)
  next
    case False
    then have "take 4 (bs @ replicate 4 False) = take 4 bs" by simp
    with k show ?thesis
      by (intro exI [of _ k]) (simp add: append_assoc [symmetric] del: append_assoc)
  qed
qed

lemma octets_byte_bits:
  "length pad < 8 \<Longrightarrow> octets (byte_bits data @ pad) = data"
proof (induction data)
  case Nil
  then show ?case by (simp add: octets.simps)
next
  case (Cons x xs)
  then show ?case
    by (subst octets.simps) (simp add: word_of_bits_of take_bit_word_eq_self)
qed

lemma bits_of_ucast8 [simp]: "bits_of 8 (ucast (x :: u8) :: u32) = bits_of 8 x"
  by (intro bits_of_eqI) (simp add: bit_simps)

lemma take_bit8_ucast [simp]: "take_bit 8 (ucast (x :: u8) :: u32) = ucast x"
  by (rule bit_word_eqI) (auto simp: bit_simps dest: bit_imp_le_length)

lemma encode_index:
  assumes "k \<le> 27"
  shows "31 AND signed_drop_bit k (buffer :: u32) = word_of_bits (bits_of 5 (drop_bit k buffer))"
proof -
  have "31 AND signed_drop_bit k buffer = take_bit 5 (signed_drop_bit k buffer)"
    by (simp add: take_bit_eq_mask mask_eq_exp_minus_1 and.commute)
  also have "\<dots> = take_bit 5 (drop_bit k buffer)"
    using assms by (intro bit_word_eqI) (auto simp: bit_simps)
  finally show ?thesis by (simp add: word_of_bits_of)
qed

lemma encode_digit:
  assumes "5 \<le> n" and "n \<le> 32"
  shows "quintets (bits_of n (buffer :: u32) @ s) =
    bits_of 5 (drop_bit (n - 5) buffer) # quintets (bits_of (n - 5) buffer @ s)"
proof -
  have "bits_of n buffer = bits_of 5 (drop_bit (n - 5) buffer) @ bits_of (n - 5) buffer"
    using bits_of_split [of "n - 5" n buffer] assms by simp
  moreover have "bits_of n buffer @ s \<noteq> []"
    using assms by (metis length_bits_of append_is_Nil_conv list.size(3) not_numeral_le_zero)
  ultimately show ?thesis by (simp add: quintets_step)
qed

lemma quintets_pad:
  "xs \<noteq> [] \<Longrightarrow> length xs \<le> 5 \<Longrightarrow> quintets (xs @ replicate (5 - length xs) False) = quintets xs"
  by (cases xs) (auto simp: quintets_step take_Cons')

text \<open>
  The encoder: the digits are those of the register's live bits followed by the bytes not yet
  read, cut off where the result buffer is full.
\<close>

lemma base32_encode_loop_bits:
  "n \<le> 8 \<Longrightarrow> base32_encode_loop room buffer n rest =
     take room (map b32_letter (quintets (bits_of n buffer @ byte_bits rest)))"
proof (induction room buffer n rest rule: base32_encode_loop.induct)
  case (1 buffer n rest)
  then show ?case by simp
next
  case (2 room buffer n rest)
  have emit: "base32_encode_loop room b (m - 5) r =
      take room (map b32_letter (quintets (bits_of (m - 5) b @ byte_bits r))) \<Longrightarrow> 5 \<le> m \<Longrightarrow> m \<le> 12 \<Longrightarrow>
    alphabet ! unat (31 AND signed_drop_bit (m - 5) b) # base32_encode_loop room b (m - 5) r =
      take (Suc room) (map b32_letter (quintets (bits_of m b @ byte_bits r)))" for b m r
    by (simp add: encode_digit encode_index b32_letter_def)
  consider (stop) "n = 0" "rest = []" | (full) "5 \<le> n"
    | (refill) x xs where "n < 5" "rest = x # xs" | (pad) "n < 5" "0 < n" "rest = []"
    by (cases rest) force+
  then show ?case
  proof cases
    case stop
    then show ?thesis by simp
  next
    case full
    with 2 show ?thesis using emit [of buffer n rest] by (simp add: Let_def)
  next
    case refill
    have stream: "bits_of (n + 8) (push_bit 8 buffer OR ucast x) = bits_of n buffer @ bits_of 8 x"
      using refill(1) by (subst bits_of_push_or) simp_all
    show ?thesis
      using 2 refill emit [of "push_bit 8 buffer OR ucast x" "n + 8" xs]
      by (simp add: stream Let_def)
  next
    case pad
    have "bits_of 5 (push_bit (5 - n) buffer) = bits_of n buffer @ replicate (5 - n) False"
      using pad(1) bits_of_push_or [of n "5 - n" 0 buffer]
      by simp
    then have stream: "quintets (bits_of 5 (push_bit (5 - n) buffer)) = quintets (bits_of n buffer)"
      using pad quintets_pad [of "bits_of n buffer"]
      by (metis length_bits_of less_imp_le list.size(3) neq0_conv)
    show ?thesis
      using 2 pad emit [of "push_bit (5 - n) buffer" 5 "[]"]
      by (simp add: stream Let_def)
  qed
qed

text \<open>The decoder, on letters of the alphabet: the whole bytes of the bits the letters stand for.\<close>

lemma b32_letter_digit:
  assumes "length q = 5"
  shows "\<not> b32_skip (b32_letter q)"
    and "\<exists>d. b32_digit (b32_fix (b32_letter q)) = Some d \<and> (ucast d :: u32) = word_of_bits q"
proof -
  let ?w = "word_of_bits q :: u32"
  have "take_bit 5 ?w = ?w"
    using assms by (intro bit_word_eqI) (auto simp: bit_simps bit_word_of_bits)
  then have "unat ?w = take_bit 5 (unat ?w)" by (metis unsigned_take_bit_eq)
  then have "unat ?w < 2 ^ 5" by (metis take_bit_nat_less_exp)
  then have lt: "unat ?w < 32" by simp
  then show "\<not> b32_skip (b32_letter q)"
    by (simp add: b32_letter_def alphabet_digit)
  have "take_bit 8 ?w = ?w"
    using assms by (intro bit_word_eqI) (auto simp: bit_simps bit_word_of_bits)
  then have "ucast (of_nat (unat ?w) :: u8) = ?w"
    using lt by (simp add: unsigned_ucast_eq word_eq_iff_unsigned)
  with lt show "\<exists>d. b32_digit (b32_fix (b32_letter q)) = Some d \<and> (ucast d :: u32) = word_of_bits q"
    by (simp add: b32_letter_def alphabet_digit)
qed

lemma decode_byte:
  assumes "n < 8" and "8 \<le> n + 5"
  shows "octets (bits_of (n + 5) (buffer :: u32) @ s) =
    ucast (signed_drop_bit (n - 3) buffer) # octets (bits_of (n - 3) buffer @ s)"
proof -
  have split: "bits_of (n + 5) buffer = bits_of 8 (drop_bit (n - 3) buffer) @ bits_of (n - 3) buffer"
    using bits_of_split [of "n - 3" "n + 5" buffer] assms by simp
  have "(word_of_bits (bits_of 8 (drop_bit (n - 3) buffer)) :: u8) = ucast (signed_drop_bit (n - 3) buffer)"
    using assms by (intro bit_word_eqI) (auto simp: bit_word_of_bits nth_bits_of bit_simps)
  then show ?thesis by (subst octets.simps) (simp add: split)
qed

lemma base32_decode_loop_bits:
  assumes "n < 8" and "list_all (\<lambda>q. length q = 5) qs"
  shows "base32_decode_loop (map b32_letter qs) room buffer n out =
    (let r = out @ take room (octets (bits_of n buffer @ concat qs)) in (Some r, r))"
  using assms
proof (induction qs arbitrary: room buffer n out)
  case Nil
  then show ?case by (simp add: octets.simps)
next
  case (Cons q qs)
  have q: "length q = 5" and qs: "list_all (\<lambda>q. length q = 5) qs" using Cons.prems by auto
  obtain d where d: "b32_digit (b32_fix (b32_letter q)) = Some d"
    and w: "(ucast d :: u32) = word_of_bits q"
    using b32_letter_digit(2) [OF q] by blast
  let ?b = "push_bit 5 buffer OR ucast d"
  have "take_bit 5 (word_of_bits q :: u32) = word_of_bits q"
    using q by (intro bit_word_eqI) (auto simp: bit_simps bit_word_of_bits)
  then have stream: "bits_of (n + 5) ?b = bits_of n buffer @ q"
    using Cons.prems(1) q by (simp add: w bits_of_push_or bits_of_word_of_bits)
  show ?case
  proof (cases "room = 0 \<or> n + 5 < 8")
    case True
    then show ?thesis
      using Cons.IH [OF _ qs, of "n + 5"] stream d b32_letter_digit(1) [OF q] by (auto simp: Let_def)
  next
    case False
    then obtain r where r: "room = Suc r" by (cases room) auto
    have "octets (bits_of n buffer @ q @ concat qs) =
        ucast (signed_drop_bit (n - 3) ?b) # octets (bits_of (n - 3) ?b @ concat qs)"
      using decode_byte [of n ?b "concat qs"] False Cons.prems(1) stream by simp
    then show ?thesis
      using Cons.IH [OF _ qs, of "n - 3"] False r d b32_letter_digit(1) [OF q] Cons.prems(1)
      by (simp add: Let_def)
  qed
qed

section \<open>The codec\<close>

text \<open>The digits of a whole input, and the output of the encoder as a prefix of them.\<close>

definition b32_text :: "bytes \<Rightarrow> bytes" where
  "b32_text data = map b32_letter (quintets (byte_bits data))"

lemma length_b32_text: "length (b32_text data) = base32_encode_length (length data) - 1"
proof -
  have "(8 * n + 4) div 5 = n * 8 div 5 + (if n mod 5 \<noteq> 0 then 1 else (0::nat))" for n
    by presburger
  then show ?thesis
    by (simp add: b32_text_def length_quintets base32_encode_length_def)
qed

lemma base32_encode_text: "base32_encode data bufSize = take bufSize (b32_text data)"
  by (cases data) (simp_all add: base32_encode_def b32_text_def base32_encode_loop_bits)

lemma base32_decode_text:
  "base32_decode (b32_text data) bufSize = (min bufSize (length data), take bufSize data)"
proof -
  obtain k where "k < 5" "concat (quintets (byte_bits data)) = byte_bits data @ replicate k False"
    using concat_quintets by blast
  then have "octets (concat (quintets (byte_bits data))) = data"
    by (simp add: octets_byte_bits)
  moreover have "list_all (\<lambda>q. length q = 5) (quintets (byte_bits data))"
    by (simp add: list_all_iff length_quintet)
  ultimately show ?thesis
    by (simp add: base32_decode_def b32_text_def base32_decode_loop_bits Let_def min.commute)
qed

text \<open>
  C39. Decoding what the encoder produced gives the input back, byte for byte, when the two
  result buffers have the sizes the length functions of the library announce.
\<close>

theorem base32_roundtrip:
  assumes "base32_encode_length (length data) \<le> bufSize + 1"
    and "length data \<le> outSize"
  shows "base32_decode (base32_encode data bufSize) outSize = (length data, data)"
proof -
  have "base32_encode data bufSize = b32_text data"
    using assms(1) by (simp add: base32_encode_text length_b32_text)
  then show ?thesis using assms(2) by (simp add: base32_decode_text)
qed

theorem base32_roundtrip_witness:
  "base32_decode (base32_encode [0xde, 0xad, 0xbe] 5) 3 = (3, [0xde, 0xad, 0xbe])"
  using base32_roundtrip [of "[0xde, 0xad, 0xbe]" 5 3] by (simp add: base32_encode_length_def)

section \<open>What the decoder accepts\<close>

text \<open>
  The text without its separators, the mistyped digits repaired and the letters in lower case:
  the decoder reads every spelling of a text as it reads this one.
\<close>

definition b32_canon :: "u8 \<Rightarrow> u8" where
  "b32_canon ch = (let c = b32_fix ch in if 65 \<le> c \<and> c \<le> 90 then c + 32 else c)"

definition b32_clean :: "bytes \<Rightarrow> bytes" where
  "b32_clean s = map b32_canon (filter (\<lambda>c. \<not> b32_skip c) s)"

lemma lower_case_digit:
  assumes "65 \<le> (c :: u8)" and "c \<le> 90"
  shows "97 \<le> c + 32" and "c + 32 \<le> 122" and "(c + 32) AND 31 = c AND 31"
proof -
  have "unat (c + 32) = unat c + 32"
    using assms by (simp add: unat_word_ariths word_le_nat_alt)
  with assms show "97 \<le> c + 32" and "c + 32 \<le> 122"
    by (simp_all add: word_le_nat_alt)
  have "take_bit 5 (c + 32) = take_bit 5 c"
    by (simp only: word_unat_eq_iff unsigned_take_bit_eq \<open>unat (c + 32) = unat c + 32\<close>)
      (simp add: take_bit_eq_mod)
  then show "(c + 32) AND 31 = c AND 31"
    by (simp add: take_bit_eq_mask mask_eq_exp_minus_1)
qed

lemma lower_case_letter:
  assumes "97 \<le> (d :: u8)"
  shows "\<not> b32_skip d" and "b32_fix d = d"
  using assms by (auto simp: b32_skip_def b32_fix_def)

lemma b32_canon_digit:
  assumes "\<not> b32_skip ch"
  shows "\<not> b32_skip (b32_canon ch)"
    and "b32_digit (b32_fix (b32_canon ch)) = b32_digit (b32_fix ch)"
proof -
  define c where "c = b32_fix ch"
  have canon: "b32_fix c = c" by (simp add: c_def b32_fix_def)
  have skip: "\<not> b32_skip c" using assms by (auto simp: c_def b32_fix_def b32_skip_def)
  show "\<not> b32_skip (b32_canon ch)"
    using skip lower_case_digit(1) [of c] lower_case_letter [of "c + 32"]
    by (auto simp: b32_canon_def c_def [symmetric] Let_def)
  show "b32_digit (b32_fix (b32_canon ch)) = b32_digit (b32_fix ch)"
  proof (cases "65 \<le> c \<and> c \<le> 90")
    case True
    then have "b32_fix (c + 32) = c + 32"
      using lower_case_digit(1) [of c] by (intro lower_case_letter) auto
    with True show ?thesis
      using lower_case_digit [of c]
      by (simp add: b32_canon_def c_def [symmetric] b32_digit_def)
  next
    case False
    then show ?thesis by (auto simp: b32_canon_def c_def [symmetric] Let_def canon)
  qed
qed

lemma base32_decode_loop_full: "base32_decode_loop s 0 buffer n out = (Some out, out)"
  by (cases s) simp_all

lemma base32_decode_loop_clean:
  "base32_decode_loop (b32_clean s) room buffer n out = base32_decode_loop s room buffer n out"
proof (induction s arbitrary: room buffer n out)
  case Nil
  then show ?case by (simp add: b32_clean_def)
next
  case (Cons ch s)
  show ?case
  proof (cases "room = 0 \<or> b32_skip ch")
    case True
    then show ?thesis using Cons by (auto simp: base32_decode_loop_full b32_clean_def)
  next
    case False
    then show ?thesis
      using Cons by (simp add: b32_clean_def b32_canon_digit Let_def split: option.split)
  qed
qed

lemma base32_decode_clean: "base32_decode (b32_clean s) bufSize = base32_decode s bufSize"
  by (simp add: base32_decode_def base32_decode_loop_clean)

text \<open>
  Separators (blank, tab, line ends, hyphen), upper or lower case, and the digits 0, 1 and
  8 mistyped for the letters O, L and B make no difference to what is decoded.
\<close>

theorem base32_decode_spelling:
  "b32_clean s = b32_clean t \<Longrightarrow> base32_decode s bufSize = base32_decode t bufSize"
  by (metis base32_decode_clean)

theorem base32_decode_spelling_witness:
  "base32_decode (map of_char ''MZ-XW 1'') 4 = base32_decode (map of_char ''mzxwL'') 4"
  by (rule base32_decode_spelling) code_simp

lemma base32_decode_loop_bad:
  assumes "\<forall>c \<in> set p. b32_skip c \<or> b32_digit (b32_fix c) \<noteq> None"
    and "\<not> b32_skip ch" and "b32_digit (b32_fix ch) = None"
    and "n < 8" and "n + 5 * length (filter (\<lambda>c. \<not> b32_skip c) p) < 8 * room"
  shows "fst (base32_decode_loop (p @ ch # t) room buffer n out) = None"
  using assms
proof (induction p arbitrary: room buffer n out)
  case Nil
  then show ?case by (simp add: Let_def)
next
  case (Cons c p)
  have room: "room \<noteq> 0" using Cons.prems by auto
  show ?case
  proof (cases "b32_skip c")
    case True
    then show ?thesis using Cons room by simp
  next
    case False
    then obtain d where d: "b32_digit (b32_fix c) = Some d" using Cons.prems(1) by auto
    show ?thesis
    proof (cases "n + 5 < 8")
      case True
      then show ?thesis using False d room Cons.prems Cons.IH by (simp add: Let_def)
    next
      case big: False
      then show ?thesis using False d room Cons.prems Cons.IH [of "n - 3" "room - 1"]
        by (simp add: Let_def diff_mult_distrib2)
    qed
  qed
qed

text \<open>
  A character that is no digit makes the decoder return 0, whatever came before it, unless
  the result buffer was already full.
\<close>

theorem base32_decode_invalid:
  assumes "\<forall>c \<in> set p. b32_skip c \<or> b32_digit (b32_fix c) \<noteq> None"
    and "\<not> b32_skip ch" and "b32_digit (b32_fix ch) = None"
    and "base32_decode_floor (length (filter (\<lambda>c. \<not> b32_skip c) p)) < bufSize"
  shows "fst (base32_decode (p @ ch # t) bufSize) = 0"
proof -
  have "5 * length (filter (\<lambda>c. \<not> b32_skip c) p) < 8 * bufSize"
    using assms(4) by (simp add: base32_decode_floor_def)
  then have "fst (base32_decode_loop (p @ ch # t) bufSize 0 0 []) = None"
    using base32_decode_loop_bad [of p ch 0 bufSize] assms by simp
  then show ?thesis
    by (simp add: base32_decode_def case_prod_unfold)
qed

theorem base32_decode_invalid_witness:
  "fst (base32_decode (map of_char ''mzx!w'') 4) = 0"
proof -
  have "base32_decode (map of_char ''mzx'' @ of_char (CHR ''!'') # map of_char ''w'') 4 =
      base32_decode (map of_char ''mzx!w'') 4"
    by simp
  moreover have "fst (base32_decode (map of_char ''mzx'' @ of_char (CHR ''!'') # map of_char ''w'') 4) = 0"
    by (rule base32_decode_invalid) (code_simp+)
  ultimately show ?thesis by simp
qed

end
