(* ===== verification/Hashname.thy ===== *)
theory Hashname
  imports Base32
begin

text \<open>
  Hashnames (\<open>src/lib/hashname.c\<close>): the 32 bytes that name an endpoint, their 52-letter text
  and the short form of five bytes or eight letters. A hashname is the list of its 32 bytes;
  a NULL pointer is \<open>None\<close>. The functions of the C code that return the static scratch
  hashname \<open>hn_vtmp\<close> or the static text \<open>hn_ctmp\<close> return its contents here.
  The functions that compute a hashname from keys are in \<open>HashKeys\<close>.
\<close>

type_synonym hashname = bytes

definition hashname_ok :: "hashname \<Rightarrow> bool" where
  "hashname_ok hn \<longleftrightarrow> length hn = 32"

text \<open>The sign of \<open>memcmp\<close> on the first \<open>n\<close> bytes.\<close>

fun memcmp :: "bytes \<Rightarrow> bytes \<Rightarrow> nat \<Rightarrow> int" where
  "memcmp (x # xs) (y # ys) (Suc n) =
     (if x = y then memcmp xs ys n else if x < y then -1 else 1)"
| "memcmp _ _ _ = 0"

lemma memcmp_eq_0_iff:
  "n \<le> length xs \<Longrightarrow> n \<le> length ys \<Longrightarrow> memcmp xs ys n = 0 \<longleftrightarrow> take n xs = take n ys"
  by (induction xs ys n rule: memcmp.induct) auto

definition hashname_dup :: "hashname option \<Rightarrow> hashname" where
  "hashname_dup src = (case src of None \<Rightarrow> replicate 32 0 | Some h \<Rightarrow> take 32 h)"

text \<open>
  \<open>hashname_vchar\<close>: \<open>str\<close> without its NUL. The decoder is given 52 characters to read, so on a
  shorter string it reads the terminator.
\<close>

definition hashname_vchar :: "bytes option \<Rightarrow> hashname option" where
  "hashname_vchar str =
     (case str of
        None \<Rightarrow> None
      | Some s \<Rightarrow>
          (let (count, bin) = base32_decode (take 52 (s @ [0])) 32
           in if count \<noteq> 32 then None else Some bin))"

definition hashname_vbin :: "bytes option \<Rightarrow> hashname option" where
  "hashname_vbin bin = map_option (take 32) bin"

definition hashname_bin :: "hashname option \<Rightarrow> bytes option" where
  "hashname_bin hn = hn"

definition hashname_char :: "hashname option \<Rightarrow> bytes option" where
  "hashname_char hn = map_option (\<lambda>h. base32_encode h 53) hn"

definition hashname_cmp :: "hashname option \<Rightarrow> hashname option \<Rightarrow> int" where
  "hashname_cmp a b =
     (case (a, b) of (Some x, Some y) \<Rightarrow> memcmp x y 32 | _ \<Rightarrow> -1)"

text \<open>
  \<open>hashname_short\<close> toggles between the two halves of its static text, at 0 and at 26; both
  have room for the eight letters and the NUL.
\<close>

definition hashname_short :: "bool \<Rightarrow> hashname option \<Rightarrow> bytes option" where
  "hashname_short tog hn =
     (let at = (if tog then 0 else 26) in
      map_option (\<lambda>h. base32_encode (take 5 h) (53 - at)) hn)"

definition hashname_scmp :: "hashname option \<Rightarrow> hashname option \<Rightarrow> int" where
  "hashname_scmp a b =
     (case (a, b) of (Some x, Some y) \<Rightarrow> memcmp x y 5 | _ \<Rightarrow> -1)"

definition hashname_schar :: "bytes option \<Rightarrow> hashname option" where
  "hashname_schar str =
     (case str of
        None \<Rightarrow> None
      | Some s \<Rightarrow>
          (let (count, bin) = base32_decode (take 8 (s @ [0])) 5
           in if count \<noteq> 5 then None else Some (bin @ replicate 27 0)))"

definition hashname_sbin :: "bytes option \<Rightarrow> hashname option" where
  "hashname_sbin bin = map_option (\<lambda>b. take 5 b @ replicate 27 0) bin"

definition hashname_isshort :: "hashname option \<Rightarrow> hashname option" where
  "hashname_isshort hn =
     (case hn of
        None \<Rightarrow> None
      | Some h \<Rightarrow> if list_all (\<lambda>i. h ! i = 0) [5..<32] then Some h else None)"

section \<open>Texts of hashnames\<close>

lemma b32_text_append5:
  assumes "length xs = 5"
  shows "b32_text (xs @ ys) = b32_text xs @ b32_text ys"
proof -
  have "length (byte_bits xs) = 5 * 8" using assms by simp
  moreover have "quintets (as @ bs) = quintets as @ quintets bs" if "length as = 5 * k" for as bs k
    using that
  proof (induction k arbitrary: as)
    case (Suc k)
    then have "as \<noteq> []" and "length (drop 5 as) = 5 * k" and "5 \<le> length as" by auto
    then show ?case
      using Suc.IH [of "drop 5 as"] by (simp add: quintets_step [of "as @ bs"] quintets_step [of as])
  qed simp
  moreover have "byte_bits (xs @ ys) = byte_bits xs @ byte_bits ys" by (simp add: byte_bits_def)
  ultimately show ?thesis by (simp add: b32_text_def)
qed

lemma hashname_text:
  assumes "hashname_ok h"
  shows "hashname_char (Some h) = Some (b32_text h)" and "length (b32_text h) = 52"
    and "hashname_short tog (Some h) = Some (take 8 (b32_text h))"
    and "length (b32_text (take 5 h)) = 8"
proof -
  have h: "length h = 32" using assms by (simp add: hashname_ok_def)
  show len: "length (b32_text h) = 52"
    by (simp add: length_b32_text base32_encode_length_def h)
  then show "hashname_char (Some h) = Some (b32_text h)"
    by (simp add: hashname_char_def base32_encode_text)
  show len5: "length (b32_text (take 5 h)) = 8"
    by (simp add: length_b32_text base32_encode_length_def h)
  have "b32_text h = b32_text (take 5 h) @ b32_text (drop 5 h)"
    using b32_text_append5 [of "take 5 h" "drop 5 h"] h by simp
  then show "hashname_short tog (Some h) = Some (take 8 (b32_text h))"
    using len5 by (simp add: hashname_short_def base32_encode_text)
qed

lemma hashname_vchar_ok: "hashname_vchar s = Some h \<Longrightarrow> hashname_ok h"
  by (auto simp: hashname_vchar_def base32_decode_def hashname_ok_def
      split: option.splits prod.splits if_splits)

text \<open>
  The text of a hashname reads back as the same hashname, also when more text follows it.
\<close>

theorem hashname_char_roundtrip:
  "hashname_ok h \<Longrightarrow> hashname_vchar (map_option (\<lambda>t. t @ rest) (hashname_char (Some h))) = Some h"
  using base32_decode_text [of h 32]
  by (simp add: hashname_text hashname_vchar_def hashname_ok_def)

theorem hashname_char_roundtrip_witness:
  "hashname_vchar (map_option (\<lambda>t. t @ []) (hashname_char (Some (replicate 32 7)))) =
     Some (replicate 32 7)"
  by (rule hashname_char_roundtrip) (simp add: hashname_ok_def)

text \<open>
  The short text is the first eight letters of the full one, it reads back as the first five
  bytes followed by zeros, and two hashnames have the same short text exactly when the short
  comparison finds them equal.
\<close>

theorem hashname_short_text:
  assumes "hashname_ok h" and "hashname_ok g"
  shows "hashname_short tog (Some h) = map_option (take 8) (hashname_char (Some h)) \<and>
    hashname_schar (hashname_short tog (Some h)) = hashname_sbin (Some h) \<and>
    (hashname_short tog (Some h) = hashname_short tog' (Some g) \<longleftrightarrow>
       hashname_scmp (Some h) (Some g) = 0)"
proof (intro conjI)
  have len: "length h = 32" "length g = 32" using assms by (simp_all add: hashname_ok_def)
  have short: "take 8 (b32_text x) = b32_text (take 5 x)" if "hashname_ok x" for x
    using b32_text_append5 [of "take 5 x" "drop 5 x"] hashname_text(4) [OF that] that
    by (simp add: hashname_ok_def)
  show "hashname_short tog (Some h) = map_option (take 8) (hashname_char (Some h))"
    using assms by (simp add: hashname_text)
  show "hashname_schar (hashname_short tog (Some h)) = hashname_sbin (Some h)"
    using assms len base32_decode_text [of "take 5 h" 5]
    by (simp add: hashname_text short hashname_schar_def hashname_sbin_def)
  have "b32_text (take 5 h) = b32_text (take 5 g) \<longleftrightarrow> take 5 h = take 5 g"
    using base32_decode_text [of "take 5 h" 5] base32_decode_text [of "take 5 g" 5]
    by (metis Pair_inject take_all_iff length_take min.cobounded2)
  then show "hashname_short tog (Some h) = hashname_short tog' (Some g) \<longleftrightarrow>
      hashname_scmp (Some h) (Some g) = 0"
    using assms len by (simp add: hashname_text short hashname_scmp_def memcmp_eq_0_iff)
qed

theorem hashname_short_text_witness:
  "hashname_short True (Some (replicate 32 7)) =
     hashname_short False (Some (replicate 6 7 @ replicate 26 9))"
proof -
  have "hashname_ok (replicate 32 7)" "hashname_ok (replicate 6 7 @ replicate 26 9)"
    by (simp_all add: hashname_ok_def)
  from hashname_short_text [OF this, THEN conjunct2, THEN conjunct2] show ?thesis
    by (simp add: hashname_scmp_def memcmp_eq_0_iff)
qed

end
