(* ===== verification/Js0n.thy ===== *)
theory Js0n
  imports Prelude
begin

text \<open>
  The JSON scanner of \<open>src/lib/js0n.c\<close>, a single pass driven by jump tables. A table is the
  value \<open>js_go\<close>, a label reached by \<open>goto\<close> is an equation, a pointer into the text is its
  offset from \<open>json\<close>, and a return is the pair of the value's offset (\<open>None\<close> for 0) and what
  \<open>vlen\<close> is set to. A key is the list of its bytes.
\<close>

datatype js_table = GoStruct | GoBare | GoString | GoUtf8 | GoEsc

datatype js_label =
    LBad | LLoop | LUp | LDown | LQup | LQdown | LEsc | LUnesc | LBare | LUnbare
  | LUtf8_2 | LUtf8_3 | LUtf8_4 | LUtfContinue

record js_state =
  js_go :: js_table
  js_depth :: int
  js_index :: nat
  js_klen :: nat
  js_val :: "nat option"
  js_start :: "nat option"
  js_utf8 :: int

text \<open>The five jump tables.\<close>

definition gostruct :: "u8 \<Rightarrow> js_label" where
  "gostruct c =
     (if c = 9 \<or> c = 32 \<or> c = 13 \<or> c = 10 \<or> c = 58 \<or> c = 44 then LLoop
      else if c = 34 then LQup
      else if c = 91 \<or> c = 123 then LUp
      else if c = 93 \<or> c = 125 then LDown
      else if c = 45 \<or> (48 \<le> c \<and> c \<le> 57) \<or> (65 \<le> c \<and> c \<le> 90) \<or> (97 \<le> c \<and> c \<le> 122) then LBare
      else LBad)"

definition gobare :: "u8 \<Rightarrow> js_label" where
  "gobare c =
     (if c = 9 \<or> c = 32 \<or> c = 13 \<or> c = 10 \<or> c = 44 \<or> c = 93 \<or> c = 125 \<or> c = 58 then LUnbare
      else if 32 \<le> c \<and> c \<le> 126 then LLoop
      else LBad)"

definition gostring :: "u8 \<Rightarrow> js_label" where
  "gostring c =
     (if c = 92 then LEsc
      else if c = 34 then LQdown
      else if 32 \<le> c \<and> c \<le> 126 then LLoop
      else if 192 \<le> c \<and> c \<le> 223 then LUtf8_2
      else if 224 \<le> c \<and> c \<le> 239 then LUtf8_3
      else if 240 \<le> c \<and> c \<le> 247 then LUtf8_4
      else LBad)"

definition goutf8_continue :: "u8 \<Rightarrow> js_label" where
  "goutf8_continue c = (if 128 \<le> c \<and> c \<le> 191 then LUtfContinue else LBad)"

definition goesc :: "u8 \<Rightarrow> js_label" where
  "goesc c =
     (if c \<in> set (map of_char [CHR 0x22, CHR 0x5C, CHR ''/'', CHR ''b'', CHR ''f'', CHR ''n'',
           CHR ''r'', CHR ''t'', CHR ''u''])
      then LUnesc else LBad)"

definition js_jump :: "js_table \<Rightarrow> u8 \<Rightarrow> js_label" where
  "js_jump go c =
     (case go of GoStruct \<Rightarrow> gostruct c | GoBare \<Rightarrow> gobare c | GoString \<Rightarrow> gostring c
       | GoUtf8 \<Rightarrow> goutf8_continue c | GoEsc \<Rightarrow> goesc c)"

text \<open>
  The macros \<open>PUSH(i)\<close> and \<open>CAP(i)\<close> at the offset \<open>cur\<close>. \<open>CAP(i)\<close> takes \<open>e = i + 1\<close> (0 or 1)
  and returns from the scanner when the requested value is complete.
\<close>

definition js_push :: "nat \<Rightarrow> nat \<Rightarrow> js_state \<Rightarrow> js_state" where
  "js_push i cur s =
     (if js_depth s = 1 then
        if js_index s = 0 then s\<lparr>js_val := Some (cur + i)\<rparr>
        else if js_klen s \<noteq> 0 \<and> js_index s = 1 then s\<lparr>js_start := Some (cur + i)\<rparr>
        else s\<lparr>js_index := js_index s - 1\<rparr>
      else s)"

datatype js_step = JsReturn "nat option" nat | JsNext js_state

definition js_cap :: "bytes \<Rightarrow> bytes \<Rightarrow> nat \<Rightarrow> nat \<Rightarrow> js_state \<Rightarrow> js_step" where
  "js_cap key json e cur s =
     (if js_depth s = 1 then
        (case js_val s of
           Some v \<Rightarrow>
             if js_index s = 0 then JsReturn (Some v) (cur + e - v)
             else JsNext s
         | None \<Rightarrow> JsNext s)
      else JsNext s)"

text \<open>
  The second half of \<open>CAP\<close>: is the string that ends here the key? The scanned string has no
  NUL in it, so \<open>strncmp\<close> on \<open>klen\<close> bytes is equality of those bytes.
\<close>

definition js_match :: "bytes \<Rightarrow> bytes \<Rightarrow> nat \<Rightarrow> js_state \<Rightarrow> js_state" where
  "js_match key json cur s =
     (case js_start s of
        Some st \<Rightarrow>
          if js_depth s = 1 \<and> js_klen s \<noteq> 0 then
            s\<lparr>js_index := (if js_klen s = cur - st \<and>
                            take (js_klen s) (drop st json) = take (js_klen s) key then 0 else 2),
              js_start := None\<rparr>
          else s
      | None \<Rightarrow> s)"

definition js_CAP :: "bytes \<Rightarrow> bytes \<Rightarrow> nat \<Rightarrow> nat \<Rightarrow> js_state \<Rightarrow> js_step" where
  "js_CAP key json e cur s =
     (case js_cap key json e cur s of
        JsReturn v n \<Rightarrow> JsReturn v n
      | JsNext s' \<Rightarrow> JsNext (js_match key json cur s'))"

text \<open>
  What a label does before it goes back to the loop. \<open>LUnbare\<close> dispatches the same byte again,
  on the table for structure (\<open>gostruct\<close> never leads to \<open>LUnbare\<close>).
\<close>

definition js_label_step :: "bytes \<Rightarrow> bytes \<Rightarrow> nat \<Rightarrow> js_label \<Rightarrow> js_state \<Rightarrow> js_step" where
  "js_label_step key json cur l s =
     (case l of
        LBad \<Rightarrow> JsReturn None cur
      | LLoop \<Rightarrow> JsNext s
      | LUp \<Rightarrow> JsNext ((js_push 0 cur s)\<lparr>js_depth := js_depth s + 1\<rparr>)
      | LDown \<Rightarrow> js_CAP key json 1 cur (s\<lparr>js_depth := js_depth s - 1\<rparr>)
      | LQup \<Rightarrow> JsNext ((js_push 1 cur s)\<lparr>js_go := GoString\<rparr>)
      | LQdown \<Rightarrow>
          (case js_CAP key json 0 cur s of
             JsReturn v n \<Rightarrow> JsReturn v n
           | JsNext s' \<Rightarrow> JsNext (s'\<lparr>js_go := GoStruct\<rparr>))
      | LEsc \<Rightarrow> JsNext (s\<lparr>js_go := GoEsc\<rparr>)
      | LUnesc \<Rightarrow> JsNext (s\<lparr>js_go := GoString\<rparr>)
      | LBare \<Rightarrow> JsNext ((js_push 0 cur s)\<lparr>js_go := GoBare\<rparr>)
      | LUnbare \<Rightarrow> JsNext s
      | LUtf8_2 \<Rightarrow> JsNext (s\<lparr>js_go := GoUtf8, js_utf8 := 1\<rparr>)
      | LUtf8_3 \<Rightarrow> JsNext (s\<lparr>js_go := GoUtf8, js_utf8 := 2\<rparr>)
      | LUtf8_4 \<Rightarrow> JsNext (s\<lparr>js_go := GoUtf8, js_utf8 := 3\<rparr>)
      | LUtfContinue \<Rightarrow>
          (let s' = s\<lparr>js_utf8 := js_utf8 s - 1\<rparr>
           in JsNext (if js_utf8 s' = 0 then s'\<lparr>js_go := GoString\<rparr> else s')))"

definition js_byte :: "bytes \<Rightarrow> bytes \<Rightarrow> nat \<Rightarrow> u8 \<Rightarrow> js_state \<Rightarrow> js_step" where
  "js_byte key json cur c s =
     (case js_jump (js_go s) c of
        LUnbare \<Rightarrow>
          (case js_CAP key json 0 cur s of
             JsReturn v n \<Rightarrow> JsReturn v n
           | JsNext s' \<Rightarrow> js_label_step key json cur (gostruct c) (s'\<lparr>js_go := GoStruct\<rparr>))
      | l \<Rightarrow> js_label_step key json cur l s)"

fun js0n_loop :: "bytes \<Rightarrow> bytes \<Rightarrow> bytes \<Rightarrow> nat \<Rightarrow> js_state \<Rightarrow> nat option \<times> nat" where
  "js0n_loop key json [] cur s = (None, if js_depth s \<noteq> 0 then length json else 0)"
| "js0n_loop key json (c # cs) cur s =
     (case js_byte key json cur c s of
        JsReturn v n \<Rightarrow> (v, n)
      | JsNext s' \<Rightarrow> js0n_loop key json cs (cur + 1) s')"

text \<open>
  The entry point. Without a key, \<open>klen\<close> is the index asked for; a \<open>klen\<close> of 0 stands for the
  length of the key. On an empty text \<open>vlen\<close> keeps the 0 every caller sets it to.
\<close>

definition js0n :: "bytes option \<Rightarrow> nat \<Rightarrow> bytes \<Rightarrow> nat option \<times> nat" where
  "js0n key klen json =
     (if json = [] then (None, 0)
      else
        let s = \<lparr>js_go = GoStruct, js_depth = 0, js_index = 1, js_klen = 0, js_val = None,
                 js_start = Some 0, js_utf8 = 0\<rparr> in
        case key of
          None \<Rightarrow> js0n_loop [] json json 0 (s\<lparr>js_index := klen\<rparr>)
        | Some k \<Rightarrow>
            js0n_loop k json json 0 (s\<lparr>js_klen := (if klen = 0 then length k else klen)\<rparr>))"

section \<open>The value returned lies inside the text\<close>

definition js_val_ok :: "nat \<Rightarrow> js_state \<Rightarrow> bool" where
  "js_val_ok cur s \<longleftrightarrow> (\<forall>v. js_val s = Some v \<longrightarrow> v \<le> cur)"

definition js_step_ok :: "nat \<Rightarrow> js_step \<Rightarrow> bool" where
  "js_step_ok cur r \<longleftrightarrow>
     (case r of
        JsReturn v n \<Rightarrow> (\<forall>x. v = Some x \<longrightarrow> x + n \<le> cur + 1)
      | JsNext s \<Rightarrow> js_val_ok (cur + 1) s)"

lemma js_val_ok_mono [wf_intros]: "js_val_ok cur s \<Longrightarrow> js_val_ok (cur + 1) s"
  by (auto simp: js_val_ok_def)

lemma js_CAP_cases:
  assumes "js_val_ok cur s" and "e \<le> 1"
  shows "js_step_ok cur (js_CAP key json e cur s)"
    and "\<And>s'. js_CAP key json e cur s = JsNext s' \<Longrightarrow> js_val_ok cur s'"
  using assms
  by (auto simp: js_CAP_def js_cap_def js_match_def js_step_ok_def js_val_ok_def
      split: option.splits if_splits js_step.splits)

lemma js_label_step_ok:
  "js_val_ok cur s \<Longrightarrow> js_step_ok cur (js_label_step key json cur l s)"
  using js_CAP_cases [of cur "s\<lparr>js_depth := js_depth s - 1\<rparr>" 1 key json]
    js_CAP_cases [of cur s 0 key json]
  by (auto simp: js_label_step_def js_step_ok_def js_val_ok_def js_push_def Let_def
      split: js_label.split js_step.splits)

lemma js_byte_ok:
  assumes "js_val_ok cur s"
  shows "js_step_ok cur (js_byte key json cur c s)"
proof (cases "js_jump (js_go s) c = LUnbare")
  case True
  show ?thesis
  proof (cases "js_CAP key json 0 cur s")
    case (JsReturn v n)
    then show ?thesis using True js_CAP_cases(1) [OF assms, of 0 key json] by (simp add: js_byte_def)
  next
    case (JsNext s')
    then have "js_val_ok cur (s'\<lparr>js_go := GoStruct\<rparr>)"
      using js_CAP_cases(2) [OF assms, of 0 key json] by (simp add: js_val_ok_def)
    then show ?thesis using True JsNext by (simp add: js_byte_def js_label_step_ok)
  qed
next
  case False
  then show ?thesis
    using js_label_step_ok [OF assms] by (simp add: js_byte_def split: js_label.split)
qed

lemma js0n_loop_bounds:
  "js_val_ok cur s \<Longrightarrow> js0n_loop key json cs cur s = (Some v, n) \<Longrightarrow> v + n \<le> cur + length cs"
proof (induction key json cs cur s rule: js0n_loop.induct)
  case (2 key json c cs cur s)
  have ok: "js_step_ok cur (js_byte key json cur c s)" using "2.prems"(1) by (rule js_byte_ok)
  show ?case
  proof (cases "js_byte key json cur c s")
    case (JsReturn w m)
    then show ?thesis using "2.prems"(2) ok by (simp add: js_step_ok_def)
  next
    case (JsNext s')
    then have "js_val_ok (cur + 1) s'" using ok by (simp add: js_step_ok_def)
    then show ?thesis using "2.IH" [OF JsNext] "2.prems"(2) JsNext by simp
  qed
qed simp

text \<open>
  C40. Whatever the text, well-formed or not, the value the scanner returns lies inside it: its
  offset and length never reach past the end.
\<close>

theorem js0n_in_bounds:
  assumes "js0n key klen json = (Some v, n)"
  shows "v + n \<le> length json"
proof -
  have "js0n_loop k json json 0 s = (Some v, n) \<Longrightarrow> js_val s = None \<Longrightarrow> ?thesis" for k s
    using js0n_loop_bounds [of 0 s k json json v n] by (simp add: js_val_ok_def)
  then show ?thesis
    using assms by (auto simp: js0n_def Let_def split: if_splits option.splits)
qed

theorem js0n_in_bounds_witness:
  "(7::nat) + 3 \<le> length (map of_char ''{  a:  123,b:2}'' :: bytes)"
  by (rule js0n_in_bounds [of "Some (map of_char ''a'')" 0]) code_simp

end
