(* ===== verification/Lob.thy ===== *)
theory Lob
  imports Js0n
begin

text \<open>
  The packet type \<open>lob_t\<close> of \<open>src/lib/lob.c\<close>: one allocated block \<open>raw\<close> that holds the two
  length bytes, the head (JSON, or a short binary header) and the body. The pointers \<open>head\<close>
  and \<open>body\<close> of the struct point into \<open>raw\<close> and are the functions of the same name here.
  Allocation does not fail. A block's contents that \<open>realloc\<close> leaves unspecified read as 0;
  each operation overwrites all of them.
\<close>

record lob =
  raw :: bytes
  head_len :: nat
  body_len :: nat

definition head :: "lob \<Rightarrow> bytes" where
  "head p = take (head_len p) (drop 2 (raw p))"

definition body :: "lob \<Rightarrow> bytes" where
  "body p = take (body_len p) (drop (2 + head_len p) (raw p))"

definition lob_new :: lob where
  "lob_new = \<lparr>raw = [0, 0], head_len = 0, body_len = 0\<rparr>"

definition lob_raw :: "lob option \<Rightarrow> bytes option" where
  "lob_raw p = map_option raw p"

definition lob_len :: "lob option \<Rightarrow> nat" where
  "lob_len p = (case p of None \<Rightarrow> 0 | Some q \<Rightarrow> 2 + head_len q + body_len q)"

text \<open>The head length stored in the first two bytes, in network order.\<close>

definition stored_hlen :: "bytes \<Rightarrow> nat" where
  "stored_hlen buf = unat (of_be16 buf)"

text \<open>
  \<open>lob_direct\<close> takes over a received block. A head of seven bytes or more must scan as JSON:
  the key \<open>"\0"\<close> occurs in no text, so the scanner reports only where it stopped.
\<close>

definition json_ok :: "bytes \<Rightarrow> bool" where
  "json_ok h \<longleftrightarrow> length h < 7 \<or> snd (js0n (Some [0]) 1 h) = 0"

definition lob_direct :: "bytes \<Rightarrow> lob option" where
  "lob_direct buf =
     (if length buf < 2 then None
      else
        let hlen = stored_hlen buf in
        if hlen > length buf - 2 then None
        else if \<not> json_ok (take hlen (drop 2 buf)) then None
        else Some \<lparr>raw = buf, head_len = hlen, body_len = length buf - (2 + hlen)\<rparr>)"

definition lob_parse :: "bytes option \<Rightarrow> lob option" where
  "lob_parse buf =
     (case buf of
        None \<Rightarrow> None
      | Some b \<Rightarrow>
          if length b < 2 then None
          else if stored_hlen b > length b - 2 then None
          else lob_direct b)"

definition lob_copy :: "lob option \<Rightarrow> lob option" where
  "lob_copy p = lob_parse (lob_raw p)"

section \<open>Blocks\<close>

definition c_realloc :: "bytes \<Rightarrow> nat \<Rightarrow> bytes" where
  "c_realloc blk n = take n blk @ replicate (n - length blk) 0"

text \<open>\<open>memcpy\<close> or \<open>memmove\<close> of \<open>src\<close> to the offset \<open>i\<close> of a block that has the room.\<close>

definition c_store :: "bytes \<Rightarrow> nat \<Rightarrow> bytes \<Rightarrow> bytes" where
  "c_store blk i src = take i blk @ src @ drop (i + length src) blk"

lemma length_c_realloc [simp]: "length (c_realloc blk n) = n"
  by (simp add: c_realloc_def)

lemma length_c_store [simp]: "i + length src \<le> length blk \<Longrightarrow> length (c_store blk i src) = length blk"
  by (simp add: c_store_def)

section \<open>Setting the head and the body\<close>

text \<open>
  \<open>lob_head\<close> reallocates the block to its new size first and moves the body afterwards, from its
  old place. Where the new head is shorter, the old place of the body reaches past the end of
  the block that is left: the fault \<open>OverRead\<close>.
\<close>

definition lob_head :: "lob \<Rightarrow> bytes option \<Rightarrow> nat \<Rightarrow> c_fault + lob" where
  "lob_head p hbuf len =
     (let blk = c_realloc (raw p) (2 + len + body_len p) in
      if body_len p > 0 \<and> 2 + head_len p + body_len p > length blk then Inl OverRead
      else
        let blk = c_store blk (2 + len) (take (body_len p) (drop (2 + head_len p) blk));
            blk = c_store blk 2 (case hbuf of Some h \<Rightarrow> take len h | None \<Rightarrow> replicate len 0);
            blk = c_store blk 0 (be16 (of_nat len))
        in Inr (p\<lparr>raw := blk, head_len := len\<rparr>))"

definition lob_body :: "lob \<Rightarrow> bytes option \<Rightarrow> nat \<Rightarrow> lob" where
  "lob_body p bd len =
     (let blk = c_realloc (raw p) (2 + len + head_len p);
          blk = c_store blk (2 + head_len p) (case bd of Some b \<Rightarrow> take len b | None \<Rightarrow> replicate len 0)
      in p\<lparr>raw := blk, body_len := len\<rparr>)"

definition lob_append :: "lob \<Rightarrow> bytes option \<Rightarrow> nat \<Rightarrow> lob option" where
  "lob_append p chunk len =
     (case chunk of
        None \<Rightarrow> None
      | Some c \<Rightarrow>
          if len = 0 then None
          else
            let blk = c_realloc (raw p) (2 + len + body_len p + head_len p);
                blk = c_store blk (2 + head_len p + body_len p) (take len c)
            in Some (p\<lparr>raw := blk, body_len := body_len p + len\<rparr>))"

definition lob_append_str :: "lob \<Rightarrow> bytes option \<Rightarrow> lob option" where
  "lob_append_str p chunk =
     (case chunk of None \<Rightarrow> None | Some c \<Rightarrow> lob_append p (Some c) (length c))"

section \<open>Well-formed packets\<close>

text \<open>
  The block has the size the lengths say and starts with the head length (modulo \<open>2 ^ 16\<close>).
  A packet is \<open>encodable\<close> when its head length fits the two bytes and its head passes the check
  of \<open>lob_direct\<close>.
\<close>

definition lob_ok :: "lob \<Rightarrow> bool" where
  "lob_ok p \<longleftrightarrow> length (raw p) = 2 + head_len p + body_len p \<and> take 2 (raw p) = be16 (of_nat (head_len p))"

definition encodable :: "lob \<Rightarrow> bool" where
  "encodable p \<longleftrightarrow> lob_ok p \<and> head_len p < 65536 \<and> json_ok (head p)"

lemma lob_raw_parts:
  assumes "lob_ok p"
  shows "raw p = be16 (of_nat (head_len p)) @ head p @ body p"
    and "length (head p) = head_len p" and "length (body p) = body_len p"
proof -
  have len: "length (raw p) = 2 + head_len p + body_len p"
    and pre: "take 2 (raw p) = be16 (of_nat (head_len p))"
    using assms by (simp_all add: lob_ok_def)
  have "raw p = take 2 (raw p) @ take (head_len p) (drop 2 (raw p)) @ drop (head_len p) (drop 2 (raw p))"
    by (metis append_take_drop_id)
  then show "raw p = be16 (of_nat (head_len p)) @ head p @ body p"
    using len by (simp add: pre head_def body_def add.commute)
  show "length (head p) = head_len p" "length (body p) = body_len p"
    using len by (simp_all add: head_def body_def)
qed

lemma lob_parts_eqI:
  assumes "raw p = be16 (of_nat (head_len p)) @ h @ b"
    and "length h = head_len p" and "length b = body_len p"
  shows "lob_ok p" and "head p = h" and "body p = b"
  using assms by (simp_all add: lob_ok_def head_def body_def)

lemma lob_len_raw: "lob_ok p \<Longrightarrow> lob_len (Some p) = length (raw p)"
  by (simp add: lob_len_def lob_ok_def)

lemma lob_new_ok [wf_intros, simp]: "lob_ok lob_new"
  by (simp add: lob_ok_def lob_new_def be16_def)

lemma stored_hlen_raw: "lob_ok p \<Longrightarrow> head_len p < 65536 \<Longrightarrow> stored_hlen (raw p) = head_len p"
  using lob_raw_parts(1) [of p] by (simp add: stored_hlen_def unsigned_of_nat take_bit_nat_eq_self)

lemma lob_direct_raw:
  assumes "encodable p"
  shows "lob_direct (raw p) = Some \<lparr>raw = raw p, head_len = head_len p, body_len = body_len p\<rparr>"
proof -
  have "stored_hlen (raw p) = head_len p" and "length (raw p) = 2 + head_len p + body_len p"
    using assms stored_hlen_raw by (auto simp: encodable_def lob_ok_def)
  then show ?thesis
    using assms by (simp add: lob_direct_def encodable_def head_def Let_def)
qed

lemma lob_parse_direct: "lob_parse (Some buf) = lob_direct buf"
  by (simp add: lob_parse_def lob_direct_def Let_def)

lemma take2_be16:
  assumes "2 \<le> length buf"
  shows "take 2 buf = be16 (of_be16 buf)"
proof -
  obtain a b rest where "buf = a # b # rest"
    using assms by (metis One_nat_def Suc_le_length_iff numeral_2_eq_2)
  then show ?thesis by (simp add: be16_of_be16 del: of_be16.simps)
qed

lemma lob_direct_Some:
  assumes "lob_direct buf = Some p"
  shows "encodable p" and "raw p = buf"
proof -
  have len: "2 \<le> length buf" and hl: "stored_hlen buf \<le> length buf - 2"
    and js: "json_ok (take (stored_hlen buf) (drop 2 buf))"
    and p: "p = \<lparr>raw = buf, head_len = stored_hlen buf, body_len = length buf - (2 + stored_hlen buf)\<rparr>"
    using assms by (auto simp: lob_direct_def Let_def split: if_splits)
  have lt: "stored_hlen buf < 65536"
    using unsigned_less [of "of_be16 buf", where ?'a = nat] by (simp add: stored_hlen_def)
  have "lob_ok p"
    using len hl p take2_be16 [OF len] by (simp add: lob_ok_def stored_hlen_def)
  then show "encodable p"
    using lt js p by (simp add: encodable_def head_def)
  show "raw p = buf" by (simp add: p)
qed

text \<open>
  C33. The wire form determines the packet: parsing the block of an encodable packet gives the
  packet back, and every block that parses is the wire form of the encodable packet it parses to.
\<close>

theorem lob_parse_raw:
  "(encodable p \<longrightarrow> lob_parse (lob_raw (Some p)) = Some p) \<and>
   (lob_parse (Some buf) = Some q \<longrightarrow> encodable q \<and> lob_raw (Some q) = Some buf)"
  by (simp add: lob_raw_def lob_parse_direct lob_direct_raw lob_direct_Some)

theorem lob_parse_raw_witness:
  "lob_parse (lob_raw (Some \<lparr>raw = [0, 1, 7, 8, 9], head_len = 1, body_len = 2\<rparr>)) =
     Some \<lparr>raw = [0, 1, 7, 8, 9], head_len = 1, body_len = 2\<rparr>"
  using lob_parse_raw [of "\<lparr>raw = [0, 1, 7, 8, 9], head_len = 1, body_len = 2\<rparr>"]
  by (simp add: encodable_def lob_ok_def be16_def json_ok_def head_def)

section \<open>The setters\<close>

lemma c_store_append:
  "length a = i \<Longrightarrow> length src = length b \<Longrightarrow> c_store (a @ b @ c) i src = a @ src @ c"
  by (simp add: c_store_def)

lemma lob_head_result:
  assumes "lob_ok p" and "head_len p \<le> len \<or> body_len p = 0" and "\<And>h. hbuf = Some h \<Longrightarrow> len \<le> length h"
  shows "\<exists>q. lob_head p hbuf len = Inr q \<and> lob_ok q \<and> head_len q = len \<and>
    head q = (case hbuf of Some h \<Rightarrow> take len h | None \<Rightarrow> replicate len 0) \<and>
    body_len q = body_len p \<and> body q = body p"
proof -
  let ?h = "case hbuf of Some h \<Rightarrow> take len h | None \<Rightarrow> replicate len 0"
  let ?blk = "c_realloc (raw p) (2 + len + body_len p)"
  let ?b = "take (body_len p) (drop (2 + head_len p) ?blk)"
  have len: "length (raw p) = 2 + head_len p + body_len p" using assms(1) by (simp add: lob_ok_def)
  have h: "length ?h = len" using assms(3) by (auto split: option.split)
  have b: "?b = body p"
    using assms(2) len by (auto simp: c_realloc_def body_def)
  have lb: "length (body p) = body_len p" using assms(1) by (rule lob_raw_parts)
  have "c_store (c_store (c_store ?blk (2 + len) (body p)) 2 ?h) 0 (be16 (of_nat len)) =
      be16 (of_nat len) @ ?h @ body p"
    using h lb by (simp add: c_store_def min_def)
  then have "lob_head p hbuf len = Inr (p\<lparr>raw := be16 (of_nat len) @ ?h @ body p, head_len := len\<rparr>)"
    using assms(2) b by (auto simp: lob_head_def Let_def)
  with h lb show ?thesis
    using lob_parts_eqI [of "p\<lparr>raw := be16 (of_nat len) @ ?h @ body p, head_len := len\<rparr>" ?h "body p"]
    by simp
qed

lemma lob_body_result:
  assumes "lob_ok p" and "\<And>b. bd = Some b \<Longrightarrow> len \<le> length b"
  shows "lob_ok (lob_body p bd len)" and "head (lob_body p bd len) = head p"
    and "body (lob_body p bd len) = (case bd of Some b \<Rightarrow> take len b | None \<Rightarrow> replicate len 0)"
proof -
  let ?b = "case bd of Some b \<Rightarrow> take len b | None \<Rightarrow> replicate len 0"
  let ?q = "lob_body p bd len"
  have len: "length (raw p) = 2 + head_len p + body_len p" using assms(1) by (simp add: lob_ok_def)
  have b: "length ?b = len" using assms(2) by (auto split: option.split)
  have "c_store (c_realloc (raw p) (2 + len + head_len p)) (2 + head_len p) ?b =
      be16 (of_nat (head_len p)) @ head p @ ?b"
    using b len lob_raw_parts [OF assms(1)]
    by (simp add: c_store_def c_realloc_def min_def)
  then have "raw ?q = be16 (of_nat (head_len ?q)) @ head p @ ?b"
    by (simp add: lob_body_def Let_def)
  then show "lob_ok ?q" "head ?q = head p" "body ?q = ?b"
    using lob_parts_eqI [of ?q "head p" ?b] b lob_raw_parts(2) [OF assms(1)]
    by (simp_all add: lob_body_def Let_def)
qed

lemma lob_append_result:
  assumes "lob_ok p" and "0 < len" and "len \<le> length c"
  shows "\<exists>q. lob_append p (Some c) len = Some q \<and> lob_ok q \<and> head_len q = head_len p \<and>
    head q = head p \<and> body q = body p @ take len c"
proof -
  let ?q = "p\<lparr>raw := be16 (of_nat (head_len p)) @ head p @ body p @ take len c,
             body_len := body_len p + len\<rparr>"
  have len: "length (raw p) = 2 + head_len p + body_len p" using assms(1) by (simp add: lob_ok_def)
  have "c_store (c_realloc (raw p) (2 + len + body_len p + head_len p)) (2 + head_len p + body_len p)
      (take len c) = raw p @ take len c"
    using assms(3) len by (simp add: c_store_def c_realloc_def)
  then have "lob_append p (Some c) len = Some ?q"
    using assms(2) lob_raw_parts(1) [OF assms(1)] by (simp add: lob_append_def Let_def)
  with assms show ?thesis
    using lob_parts_eqI [of ?q "head p" "body p @ take len c"] lob_raw_parts [OF assms(1)]
    by auto
qed

text \<open>
  Setting the head, where the new head is at least as long as the old one or there is no
  body, stores exactly the given head and keeps the body; setting the body stores exactly the
  given body and keeps the head; appending keeps both and adds the chunk at the end. In every
  case the block stays well formed.
\<close>

theorem lob_setters:
  assumes "lob_ok p"
  shows "(head_len p \<le> length h \<or> body_len p = 0 \<longrightarrow>
      (\<exists>q. lob_head p (Some h) (length h) = Inr q \<and> lob_ok q \<and> head q = h \<and> body q = body p)) \<and>
    lob_ok (lob_body p (Some b) (length b)) \<and> head (lob_body p (Some b) (length b)) = head p \<and>
    body (lob_body p (Some b) (length b)) = b \<and>
    (c \<noteq> [] \<longrightarrow> (\<exists>q. lob_append p (Some c) (length c) = Some q \<and> lob_ok q \<and> head q = head p \<and>
      body q = body p @ c))"
  using lob_head_result [OF assms, of "length h" "Some h"] lob_body_result [OF assms, of "Some b" "length b"]
    lob_append_result [OF assms, of "length c" c]
  by auto

theorem lob_setters_witness:
  "\<exists>q. lob_head lob_new (Some [7]) (length [7 :: u8]) = Inr q \<and> lob_ok q \<and> head q = [7] \<and>
     body q = body lob_new"
  by (rule lob_setters [THEN conjunct1, THEN mp]) (simp_all add: lob_new_def lob_ok_def be16_def)

text \<open>
  Setting a head shorter than the old one on a packet that has a body always reads past the
  end of the block, which was shrunk before the body was moved; in no other case does it.
\<close>

lemma lob_head_overread:
  "lob_head p hbuf len = Inl OverRead \<longleftrightarrow> 0 < body_len p \<and> len < head_len p"
  by (simp add: lob_head_def Let_def)

end
