(* ===== verification/Frames.thy ===== *)
theory Frames
  imports Lob
begin

text \<open>
  The framing of packets for a byte stream, \<open>src/util/frames.c\<close>: a packet goes out as a header
  of eight bytes (the magic number and the packet's length, each a little-endian 32-bit word)
  and then the packet itself.

  The state is the struct \<open>util_frames_s\<close>. \<open>in_buf\<close> are the \<open>inat\<close> bytes of the block \<open>in\<close> that
  have arrived, so \<open>inat\<close> is its length. The queues are lists; an entry whose packet was taken
  is \<open>None\<close>. \<open>out\<close> says what the pointer \<open>out\<close> points to: nothing, a header block of its own,
  or the raw bytes inside the first packet of the outbox. Allocation does not fail, and the
  flags \<open>is_receiving\<close> and \<open>is_sending\<close> are clear between calls: no interrupt comes in the
  middle of one.
\<close>

datatype out_ptr = OutNull | OutHeader bytes | OutRaw bytes

record frames =
  magic :: u32
  max :: u32
  in_buf :: bytes
  inlen :: nat
  out :: out_ptr
  outlen :: nat
  inbox :: "lob option list"
  outbox :: "lob option list"
  is_receiving :: bool
  is_sending :: bool
  inbox_err :: bool

fun qlob_append :: "lob option list \<Rightarrow> lob option \<Rightarrow> lob option list" where
  "qlob_append [] p = [p]"
| "qlob_append (q # qs) p = q # qlob_append qs p"

lemma qlob_append [simp]: "qlob_append q p = q @ [p]"
  by (induction q) auto

definition util_frames_new :: "u32 \<Rightarrow> u32 \<Rightarrow> frames" where
  "util_frames_new mg mx =
     \<lparr>magic = mg, max = mx, in_buf = [], inlen = 0, out = OutNull, outlen = 0, inbox = [],
      outbox = [], is_receiving = False, is_sending = False, inbox_err = False\<rparr>"

definition util_frames_clear :: "frames \<Rightarrow> frames" where
  "util_frames_clear f = f\<lparr>in_buf := [], inlen := 0, inbox_err := False\<rparr>"

definition util_frames_ok :: "frames \<Rightarrow> bool" where
  "util_frames_ok f \<longleftrightarrow> \<not> inbox_err f"

text \<open>The flag says whether the function returned \<open>frames\<close> (and not NULL).\<close>

definition util_frames_send :: "frames \<Rightarrow> lob option \<Rightarrow> frames \<times> bool" where
  "util_frames_send f p =
     (if lob_len p < 8 then (f, False)
      else
        let f = f\<lparr>is_sending := True\<rparr>;
            f = f\<lparr>outbox := qlob_append (outbox f) p\<rparr>
        in (f\<lparr>is_sending := False\<rparr>, True))"

text \<open>Take the first packet still there and leave its entry empty.\<close>

fun qlob_take :: "lob option list \<Rightarrow> lob option \<times> lob option list" where
  "qlob_take [] = (None, [])"
| "qlob_take (Some p # qs) = (Some p, None # qs)"
| "qlob_take (None # qs) = (let (r, qs') = qlob_take qs in (r, None # qs'))"

definition util_frames_receive :: "frames \<Rightarrow> frames \<times> lob option" where
  "util_frames_receive f =
     (let f = f\<lparr>is_receiving := True\<rparr>;
          (ret, q) = qlob_take (inbox f)
      in (f\<lparr>inbox := q, is_receiving := False\<rparr>, ret))"

definition qlob_len :: "lob option list \<Rightarrow> nat" where
  "qlob_len q = sum_list (map lob_len q)"

definition util_frames_inlen :: "frames \<Rightarrow> nat" where
  "util_frames_inlen f = qlob_len (inbox f)"

definition util_frames_outlen :: "frames \<Rightarrow> nat" where
  "util_frames_outlen f = qlob_len (outbox f)"

definition util_frames_pending :: "frames \<Rightarrow> bool" where
  "util_frames_pending f \<longleftrightarrow> util_frames_outlen f \<noteq> 0"

definition util_frames_busy :: "frames \<Rightarrow> bool" where
  "util_frames_busy f \<longleftrightarrow> util_frames_inlen f + util_frames_outlen f > 0"

text \<open>
  Prepare for a header if nothing is expected; the second component is \<open>*len\<close>, the number of
  bytes awaited.
\<close>

definition util_frames_awaiting :: "frames \<Rightarrow> frames \<times> nat" where
  "util_frames_awaiting f =
     (let f = (if inlen f = 0 then f\<lparr>in_buf := [], inlen := 8\<rparr> else f)
      in (f, inlen f - length (in_buf f)))"

text \<open>Free the leading entries that are empty.\<close>

fun qlob_trim :: "bool \<Rightarrow> lob option list \<Rightarrow> lob option list" where
  "qlob_trim busy (None # qs) = (if busy then None # qs else qlob_trim busy qs)"
| "qlob_trim busy qs = qs"

section \<open>Receiving\<close>

text \<open>
  One round of \<open>util_frames_inbox\<close>, up to its recursive call on what is left. \<open>data\<close> are the
  bytes from the pointer \<open>data\<close> to the end of the caller's block. A completed header is read
  from \<open>data\<close>, not from the block \<open>in\<close> into which the header was gathered: four bytes at
  \<open>data\<close> and four at \<open>data + 4\<close>, whatever part of the header had come before. Where fewer than
  eight bytes are there, that reads past the caller's block.
\<close>

datatype inbox_result =
    InFault c_fault \<comment> \<open>undefined behaviour\<close>
  | InDone frames bool \<comment> \<open>return, with whether \<open>frames\<close> is returned\<close>
  | InMore frames bytes \<comment> \<open>recursive call on the rest\<close>

definition inbox_next :: "frames \<Rightarrow> bytes \<Rightarrow> inbox_result" where
  "inbox_next f rest = (if rest = [] then InDone f True else InMore f rest)"

text \<open>The header branch and the packet branch, on the bytes after the completed frame.\<close>

definition inbox_header :: "frames \<Rightarrow> bytes \<Rightarrow> bytes \<Rightarrow> inbox_result" where
  "inbox_header f data rest =
     (if length data < 8 then InFault OverRead
      else
        let inmagic = of_le32 data;
            hlen = of_le32 (drop 4 data);
            f = f\<lparr>in_buf := [], inlen := 0\<rparr> in
        if inmagic \<noteq> magic f \<or> hlen > max f then InDone (f\<lparr>inbox_err := True\<rparr>) False
        else inbox_next (f\<lparr>inbox_err := False, inlen := unat hlen\<rparr>) rest)"

definition inbox_packet :: "frames \<Rightarrow> bytes \<Rightarrow> bytes \<Rightarrow> inbox_result" where
  "inbox_packet f buf rest =
     inbox_next
       (f\<lparr>inbox := qlob_append (qlob_trim (is_receiving f) (inbox f)) (lob_direct buf),
          in_buf := [], inlen := 0\<rparr>) rest"

definition inbox_round :: "frames \<Rightarrow> bytes \<Rightarrow> inbox_result" where
  "inbox_round f data =
     (let f = (if inlen f = 0 then fst (util_frames_awaiting f) else f);
          await = inlen f - length (in_buf f) in
      if length data < await then InDone (f\<lparr>in_buf := in_buf f @ data\<rparr>) True
      else if inlen f = 8 then inbox_header f data (drop await data)
      else inbox_packet f (in_buf f @ take await data) (drop await data))"

text \<open>Every round that recurs has used up at least one byte.\<close>

definition frames_in_ok :: "frames \<Rightarrow> bool" where
  "frames_in_ok f \<longleftrightarrow> length (in_buf f) < inlen f \<or> in_buf f = [] \<and> inlen f = 0"

definition frames_ready :: "frames \<Rightarrow> frames" where
  "frames_ready f = (if inlen f = 0 then fst (util_frames_awaiting f) else f)"

lemma frames_ready:
  assumes "frames_in_ok f"
  shows "length (in_buf (frames_ready f)) < inlen (frames_ready f)"
    and "inbox_round f data = inbox_round (frames_ready f) data"
    and "is_receiving (frames_ready f) = is_receiving f" and "inbox (frames_ready f) = inbox f"
  using assms
  by (auto simp: frames_ready_def util_frames_awaiting_def frames_in_ok_def inbox_round_def)

lemmas inbox_defs = inbox_next_def inbox_header_def inbox_packet_def Let_def

lemma inbox_round_more:
  assumes "inbox_round f data = InMore f' rest" and "frames_in_ok f"
  shows "length rest < length data" and "frames_in_ok f'"
proof -
  let ?g = "frames_ready f"
  have "inbox_round ?g data = InMore f' rest" and g: "length (in_buf ?g) < inlen ?g"
    using assms frames_ready by auto
  then show "length rest < length data" "frames_in_ok f'"
    by (auto simp: inbox_round_def inbox_defs frames_in_ok_def split: if_splits)
qed

text \<open>
  The whole function. The guard \<open>length rest < length data\<close> holds for every state in which the
  gathered part is shorter than what is expected (\<open>inbox_round_more\<close>, \<open>frames_in_ok\<close>).
\<close>

function util_frames_inbox :: "frames \<Rightarrow> bytes \<Rightarrow> c_fault + (frames \<times> bool)" where
  "util_frames_inbox f data =
     (if data = [] then Inr (f, False)
      else
        case inbox_round f data of
          InFault e \<Rightarrow> Inl e
        | InDone f' b \<Rightarrow> Inr (f', b)
        | InMore f' rest \<Rightarrow>
            if length rest < length data then util_frames_inbox f' rest else Inr (f', False))"
  by pat_completeness auto
termination
  by (relation "measure (\<lambda>(f, data). length data)") auto

declare util_frames_inbox.simps [simp del]

section \<open>Sending\<close>

text \<open>The block to send next (\<open>None\<close> for NULL) with its length.\<close>

definition util_frames_outbox :: "frames \<Rightarrow> frames \<times> bytes option" where
  "util_frames_outbox f =
     (let f' = (if outlen f = 0 then f\<lparr>outbox := qlob_trim (is_sending f) (outbox f)\<rparr> else f) in
      if outlen f' = 0 then
        case outbox f' of
          [] \<Rightarrow> (f', None)
        | q # _ \<Rightarrow>
            let h = le32 (magic f') @ le32 (of_nat (lob_len q))
            in (f'\<lparr>out := OutHeader h, outlen := 8\<rparr>, Some h)
      else
        (f', case out f' of OutNull \<Rightarrow> None | OutHeader h \<Rightarrow> Some h | OutRaw r \<Rightarrow> Some r))"

text \<open>
  \<open>util_frames_sent\<close> takes a pending length of 8 for a header and frees \<open>out\<close>; if \<open>out\<close> points
  into the packet at the front of the outbox, that frees the packet's own block.
\<close>

definition util_frames_sent :: "frames \<Rightarrow> c_fault + (frames \<times> bool)" where
  "util_frames_sent f =
     (case outbox f of
        [] \<Rightarrow> Inr (f, False)
      | q # qs \<Rightarrow>
          if outlen f = 0 then Inr (f, False)
          else if outlen f = 8 then
            case out f of
              OutRaw _ \<Rightarrow> Inl BadFree
            | _ \<Rightarrow>
                let f = f\<lparr>out := (case q of None \<Rightarrow> OutNull | Some p \<Rightarrow> OutRaw (raw p)),
                          outlen := lob_len q\<rparr>
                in Inr (f, util_frames_outlen f \<noteq> 0)
          else
            let f = f\<lparr>out := OutNull, outlen := 0, outbox := None # qs\<rparr>
            in Inr (f, util_frames_outlen f \<noteq> 0))"

section \<open>Fragments\<close>

lemma inbox_round_done:
  assumes "inbox_round f data = InDone f' r" and "frames_in_ok f"
  shows "frames_in_ok f'"
proof -
  let ?g = "frames_ready f"
  have "inbox_round ?g data = InDone f' r" and g: "length (in_buf ?g) < inlen ?g"
    using assms frames_ready by auto
  then show ?thesis
    by (auto simp: inbox_round_def inbox_defs frames_in_ok_def split: if_splits)
qed

lemma util_frames_inbox_in_ok [wf_intros]:
  "util_frames_inbox f data = Inr (f', b) \<Longrightarrow> frames_in_ok f \<Longrightarrow> frames_in_ok f'"
proof (induction f data rule: util_frames_inbox.induct)
  case (1 f data)
  show ?case
  proof (cases "data = []")
    case True
    then show ?thesis using "1.prems" by (simp add: util_frames_inbox.simps)
  next
    case False
    then show ?thesis
      using "1.prems" "1.IH" [OF False] inbox_round_done [of f data] inbox_round_more [of f data]
      by (subst (asm) util_frames_inbox.simps) (auto split: inbox_result.splits if_splits)
  qed
qed

text \<open>
  A part of a header has arrived (or of a packet of eight bytes, which the code cannot tell
  from one).
\<close>

definition mid_header :: "frames \<Rightarrow> bool" where
  "mid_header f \<longleftrightarrow> inlen f = 8 \<and> in_buf f \<noteq> []"

lemma of_le32_append: "4 \<le> length a \<Longrightarrow> of_le32 (a @ b) = of_le32 a"
  by (cases a rule: of_le32.cases) auto

text \<open>More bytes after those that complete a frame only lengthen the rest.\<close>

lemma inbox_next_append:
  "inbox_next f a = InMore f' rest \<Longrightarrow> inbox_next f (a @ b) = InMore f' (rest @ b)"
  "inbox_next f a = InDone f' r \<Longrightarrow> b \<noteq> [] \<Longrightarrow> inbox_next f (a @ b) = InMore f' b"
  by (auto simp: inbox_next_def split: if_splits)

lemma inbox_header_append:
  "inbox_header f a rest = InMore f' more' \<Longrightarrow> inbox_header f (a @ b) (rest @ b) = InMore f' (more' @ b)"
  "inbox_header f a rest = InDone f' r \<Longrightarrow> \<not> inbox_err f' \<Longrightarrow> b \<noteq> [] \<Longrightarrow>
     inbox_header f (a @ b) (rest @ b) = InMore f' b"
  using inbox_next_append
  by (auto simp: inbox_header_def Let_def of_le32_append split: if_splits)

lemma inbox_round_append_more:
  assumes "inbox_round f a = InMore f' rest" and "frames_in_ok f"
  shows "inbox_round f (a @ b) = InMore f' (rest @ b)"
proof -
  let ?g = "frames_ready f" let ?k = "inlen ?g - length (in_buf ?g)"
  have "inbox_round ?g a = InMore f' rest" and "0 < inlen ?g"
    using assms frames_ready(1,2) by force+
  then have "inbox_round ?g (a @ b) = InMore f' (rest @ b)"
    using inbox_header_append(1) [of ?g a "drop ?k a" f' rest b]
      inbox_next_append(1) [of _ "drop ?k a" f' rest b]
    by (auto simp: inbox_round_def inbox_packet_def Let_def split: if_splits)
  then show ?thesis using frames_ready(2) [OF assms(2)] by simp
qed

text \<open>
  The round of a packet depends on the gathered bytes and the new ones only through their
  concatenation.
\<close>

lemma inbox_round_packet:
  assumes "length (in_buf f) < inlen f" and "inlen f \<noteq> 8"
  shows "inbox_round f data =
    (let buf = in_buf f @ data in
     if length buf < inlen f then InDone (f\<lparr>in_buf := buf\<rparr>) True
     else inbox_packet f (take (inlen f) buf) (drop (inlen f) buf))"
proof -
  have "length data < inlen f - length (in_buf f) \<longleftrightarrow> length (in_buf f @ data) < inlen f"
    using assms(1) by auto
  then show ?thesis
    using assms by (simp add: inbox_round_def Let_def)
qed

lemma inbox_packet_gathered:
  "inbox_packet (f\<lparr>in_buf := x\<rparr>) buf rest = inbox_packet f buf rest"
  by (simp add: inbox_packet_def)

lemma inbox_round_append_done:
  assumes "inbox_round f a = InDone f' r" and "frames_in_ok f" and "a \<noteq> []" and "b \<noteq> []"
    and "\<not> inbox_err f'" and "\<not> mid_header f'"
  shows "inbox_round f (a @ b) = InMore f' b \<or> inbox_round f (a @ b) = inbox_round f' b"
proof -
  let ?g = "frames_ready f" let ?k = "inlen ?g - length (in_buf ?g)"
  have g: "length (in_buf ?g) < inlen ?g" and round: "inbox_round f d = inbox_round ?g d" for d
    using frames_ready [OF assms(2)] by auto
  have r: "inbox_round ?g a = InDone f' r" using assms(1) by (simp add: round)
  show ?thesis
  proof (cases "length a < ?k")
    case True
    then have f': "f' = ?g\<lparr>in_buf := in_buf ?g @ a\<rparr>"
      using r g by (simp add: inbox_round_def Let_def)
    then have n8: "inlen ?g \<noteq> 8" using assms(3,6) by (auto simp: mid_header_def)
    have "length (in_buf ?g @ a) < inlen ?g" using True by simp
    then have "inbox_round ?g (a @ b) = inbox_round f' b"
      using n8 g by (simp add: inbox_round_packet f' inbox_packet_gathered Let_def)
    then show ?thesis by (simp add: round)
  next
    case False
    then have "inbox_round ?g (a @ b) = InMore f' b"
      using r g assms(4,5) inbox_header_append(2) [of ?g a "drop ?k a" f' r b]
        inbox_next_append(2) [of _ "drop ?k a" f' r b]
      by (auto simp: inbox_round_def inbox_packet_def Let_def split: if_splits)
    then show ?thesis by (simp add: round)
  qed
qed

text \<open>The receiver as a byte sink; a fault stays a fault.\<close>

fun ret_state :: "'e + ('s \<times> 'r) \<Rightarrow> 'e + 's" where
  "ret_state (Inl e) = Inl e"
| "ret_state (Inr (s, r)) = Inr s"

lemma ret_state_Inr: "ret_state x = Inr s \<longleftrightarrow> (\<exists>r. x = Inr (s, r))"
  by (cases x rule: ret_state.cases) auto

definition frames_feed :: "c_fault + frames \<Rightarrow> bytes \<Rightarrow> c_fault + frames" where
  "frames_feed r data =
     (case r of Inl e \<Rightarrow> Inl e | Inr f \<Rightarrow> ret_state (util_frames_inbox f data))"

definition frames_sink_ok :: "c_fault + frames \<Rightarrow> bool" where
  "frames_sink_ok r = (case r of Inl _ \<Rightarrow> True | Inr f \<Rightarrow> frames_in_ok f)"

definition frames_joinable :: "c_fault + frames \<Rightarrow> bool" where
  "frames_joinable r = (case r of Inl _ \<Rightarrow> False | Inr f \<Rightarrow> \<not> inbox_err f \<and> \<not> mid_header f)"

lemma util_frames_inbox_Nil [simp]: "util_frames_inbox f [] = Inr (f, False)"
  by (simp add: util_frames_inbox.simps)

lemma util_frames_inbox_unfold:
  "frames_in_ok f \<Longrightarrow> data \<noteq> [] \<Longrightarrow> util_frames_inbox f data =
     (case inbox_round f data of
        InFault e \<Rightarrow> Inl e
      | InDone f' b \<Rightarrow> Inr (f', b)
      | InMore f' rest \<Rightarrow> util_frames_inbox f' rest)"
  by (subst util_frames_inbox.simps) (auto split: inbox_result.split dest: inbox_round_more)

lemma util_frames_inbox_append:
  "frames_in_ok f \<Longrightarrow> util_frames_inbox f a = Inr (f', r) \<Longrightarrow> \<not> inbox_err f' \<Longrightarrow> \<not> mid_header f' \<Longrightarrow>
     ret_state (util_frames_inbox f (a @ b)) = ret_state (util_frames_inbox f' b)"
proof (induction f a arbitrary: f' r rule: util_frames_inbox.induct)
  case (1 f a)
  show ?case
  proof (cases "a = [] \<or> b = []")
    case True
    then show ?thesis using "1.prems" by auto
  next
    case False
    then have a: "a \<noteq> []" and b: "b \<noteq> []" by auto
    show ?thesis
    proof (cases "inbox_round f a")
      case (InFault e)
      then show ?thesis using "1.prems"(2) a by (simp add: util_frames_inbox.simps [of f a])
    next
      case (InDone g s)
      then have "g = f'" using "1.prems"(2) a by (simp add: util_frames_inbox.simps [of f a])
      then have "frames_in_ok f'" using InDone "1.prems"(1) inbox_round_done by blast
      have "inbox_round f (a @ b) = InMore f' b \<or> inbox_round f (a @ b) = inbox_round f' b"
        using inbox_round_append_done [of f a g s b] InDone "1.prems"(1,3,4) a b \<open>g = f'\<close>
        by simp
      then show ?thesis
        using a b "1.prems"(1) \<open>frames_in_ok f'\<close> by (auto simp: util_frames_inbox_unfold)
    next
      case (InMore g rest)
      note step = inbox_round_more [OF InMore "1.prems"(1)]
      have "util_frames_inbox g rest = Inr (f', r)"
        using InMore "1.prems"(2) a step by (simp add: util_frames_inbox.simps [of f a])
      then have "ret_state (util_frames_inbox g (rest @ b)) = ret_state (util_frames_inbox f' b)"
        using "1.IH" [OF a InMore step(1) step(2)] "1.prems"(3,4) by simp
      then show ?thesis
        using inbox_round_append_more [OF InMore "1.prems"(1), of b] a step
        by (simp add: util_frames_inbox.simps [of f "a @ b"])
    qed
  qed
qed

interpretation fr: byte_sink frames_feed frames_sink_ok frames_joinable
proof
  fix s a
  assume "frames_sink_ok s"
  then show "frames_sink_ok (frames_feed s a)"
    by (auto simp: frames_sink_ok_def frames_feed_def ret_state_Inr dest: util_frames_inbox_in_ok
        split: sum.splits)
next
  fix s
  assume "frames_sink_ok s"
  then show "frames_feed s [] = s" by (cases s) (simp_all add: frames_feed_def)
next
  fix s a b
  assume ok: "frames_sink_ok s" and join: "frames_joinable (frames_feed s a)"
  then obtain f f' r where f: "s = Inr f" "util_frames_inbox f a = Inr (f', r)"
    by (cases s) (auto simp: frames_feed_def frames_joinable_def ret_state_Inr split: sum.splits)
  then show "frames_feed s (a @ b) = frames_feed (frames_feed s a) b"
    using ok join util_frames_inbox_append [of f a f' r b]
    by (simp add: frames_feed_def frames_sink_ok_def frames_joinable_def)
qed

section \<open>The queues\<close>

definition qlob_packets :: "lob option list \<Rightarrow> lob list" where
  "qlob_packets q = concat (map (\<lambda>e. case e of None \<Rightarrow> [] | Some p \<Rightarrow> [p]) q)"

lemma qlob_packets_simps [simp]:
  "qlob_packets [] = []"
  "qlob_packets (None # q) = qlob_packets q"
  "qlob_packets (Some p # q) = p # qlob_packets q"
  "qlob_packets (q1 @ q2) = qlob_packets q1 @ qlob_packets q2"
  by (simp_all add: qlob_packets_def)

lemma qlob_packets_map_Some [simp]: "qlob_packets (map Some ps) = ps"
  by (induction ps) simp_all

lemma qlob_packets_trim [simp]: "qlob_packets (qlob_trim b q) = qlob_packets q"
  by (induction b q rule: qlob_trim.induct) auto

lemma qlob_take_packets:
  "qlob_packets q = [] \<Longrightarrow> qlob_take q = (None, q)"
  "qlob_packets q = p # ps \<Longrightarrow> fst (qlob_take q) = Some p \<and> qlob_packets (snd (qlob_take q)) = ps"
  by (induction q rule: qlob_take.induct) (auto simp: case_prod_unfold)

lemma qlob_trim_packets:
  "qlob_packets q = [] \<Longrightarrow> qlob_trim False q = []"
  "qlob_packets q = p # ps \<Longrightarrow> \<exists>qs. qlob_trim False q = Some p # qs \<and> qlob_packets qs = ps"
  by (induction False q rule: qlob_trim.induct) auto

lemma qlob_len_packets: "qlob_len q = sum_list (map (\<lambda>p. lob_len (Some p)) (qlob_packets q))"
proof (induction q)
  case (Cons e q)
  then show ?case by (cases e) (simp_all add: qlob_len_def lob_len_def)
qed (simp add: qlob_len_def)

lemma qlob_len_0: "qlob_len q = 0 \<longleftrightarrow> qlob_packets q = []"
  by (cases "qlob_packets q") (auto simp: qlob_len_packets lob_len_def)

interpretation inq: fifo "\<lambda>q p. qlob_append q (Some p)" qlob_take qlob_packets
  by unfold_locales (auto simp: qlob_take_packets(1) dest: qlob_take_packets(2))

text \<open>The packets \<open>util_frames_receive\<close> yields when called \<open>n\<close> times.\<close>

fun frames_receive_all :: "nat \<Rightarrow> frames \<Rightarrow> lob list" where
  "frames_receive_all 0 f = []"
| "frames_receive_all (Suc n) f =
     (case util_frames_receive f of
        (_, None) \<Rightarrow> []
      | (f', Some p) \<Rightarrow> p # frames_receive_all n f')"

lemma frames_receive_all: "frames_receive_all n f = take n (qlob_packets (inbox f))"
proof (induction n arbitrary: f)
  case (Suc n)
  show ?case
    using qlob_take_packets [of "inbox f"] Suc.IH
    by (cases "qlob_packets (inbox f)")
      (auto simp: util_frames_receive_def Let_def case_prod_unfold)
qed simp

section \<open>One packet through sender and receiver\<close>

definition frames_hdr :: "u32 \<Rightarrow> lob \<Rightarrow> bytes" where
  "frames_hdr mg p = le32 mg @ le32 (of_nat (lob_len (Some p)))"

lemma length_frames_hdr [simp]: "length (frames_hdr mg p) = 8"
  by (simp add: frames_hdr_def)

text \<open>
  What a transport does each time it can write: take the next block and report it sent.
\<close>

definition frames_push :: "frames \<Rightarrow> c_fault + (frames \<times> bytes option)" where
  "frames_push f =
     (case util_frames_outbox f of
        (f', None) \<Rightarrow> Inr (f', None)
      | (f', Some d) \<Rightarrow>
          (case util_frames_sent f' of
             Inl e \<Rightarrow> Inl e
           | Inr (f'', _) \<Rightarrow> Inr (f'', Some d)))"

definition frames_idle :: "frames \<Rightarrow> bool" where
  "frames_idle f \<longleftrightarrow> outlen f = 0 \<and> \<not> is_sending f"

lemma frames_push_header:
  assumes "frames_idle f" and "qlob_packets (outbox f) = p # ps"
  shows "\<exists>f'. frames_push f = Inr (f', Some (frames_hdr (magic f) p)) \<and> out f' = OutRaw (raw p) \<and>
    outlen f' = lob_len (Some p) \<and> \<not> is_sending f' \<and> magic f' = magic f \<and>
    (\<exists>qs. outbox f' = Some p # qs \<and> qlob_packets qs = ps)"
  using assms qlob_trim_packets(2) [OF assms(2)]
  by (auto simp: frames_push_def util_frames_outbox_def util_frames_sent_def frames_idle_def
      frames_hdr_def Let_def)

lemma frames_push_packet:
  assumes "out f = OutRaw (raw p)" and "outlen f = lob_len (Some p)" and "outbox f = Some p # qs"
    and "lob_len (Some p) \<noteq> 8"
  shows "frames_push f = Inr (f\<lparr>out := OutNull, outlen := 0, outbox := None # qs\<rparr>, Some (raw p))"
  using assms by (simp add: frames_push_def util_frames_outbox_def util_frames_sent_def Let_def lob_len_def)

lemma frames_push_empty:
  assumes "frames_idle f" and "qlob_packets (outbox f) = []"
  shows "\<exists>f'. frames_push f = Inr (f', None)"
  using assms qlob_trim_packets(1) [of "outbox f"]
  by (simp add: frames_push_def util_frames_outbox_def frames_idle_def)

text \<open>Push until there is nothing left, at most \<open>n\<close> blocks.\<close>

fun frames_drain :: "nat \<Rightarrow> frames \<Rightarrow> c_fault + (frames \<times> bytes list)" where
  "frames_drain 0 f = Inr (f, [])"
| "frames_drain (Suc n) f =
     (case frames_push f of
        Inl e \<Rightarrow> Inl e
      | Inr (f', None) \<Rightarrow> Inr (f', [])
      | Inr (f', Some d) \<Rightarrow>
          (case frames_drain n f' of Inl e \<Rightarrow> Inl e | Inr (f'', ds) \<Rightarrow> Inr (f'', d # ds)))"

definition frames_blocks :: "u32 \<Rightarrow> lob list \<Rightarrow> bytes list" where
  "frames_blocks mg ps = concat (map (\<lambda>p. [frames_hdr mg p, raw p]) ps)"

lemma frames_drain_packets:
  assumes "frames_idle f" and "qlob_packets (outbox f) = ps"
    and "\<forall>p \<in> set ps. lob_len (Some p) \<noteq> 8"
  shows "\<exists>f'. frames_drain (2 * length ps) f = Inr (f', frames_blocks (magic f) ps) \<and>
    frames_idle f' \<and> qlob_packets (outbox f') = []"
  using assms
proof (induction ps arbitrary: f)
  case Nil
  then show ?case by (simp add: frames_blocks_def)
next
  case (Cons p ps)
  obtain f1 qs where f1: "frames_push f = Inr (f1, Some (frames_hdr (magic f) p))"
    "out f1 = OutRaw (raw p)" "outlen f1 = lob_len (Some p)" "\<not> is_sending f1" "magic f1 = magic f"
    "outbox f1 = Some p # qs" "qlob_packets qs = ps"
    using frames_push_header [OF Cons.prems(1,2)] by blast
  let ?f2 = "f1\<lparr>out := OutNull, outlen := 0, outbox := None # qs\<rparr>"
  have "frames_push f1 = Inr (?f2, Some (raw p))"
    using f1 Cons.prems(3) by (intro frames_push_packet) auto
  moreover obtain f3 where "frames_drain (2 * length ps) ?f2 = Inr (f3, frames_blocks (magic f) ps)"
    "frames_idle f3" "qlob_packets (outbox f3) = []"
    using Cons.IH [of ?f2] Cons.prems(3) f1 by (auto simp: frames_idle_def)
  ultimately show ?case using f1(1) by (simp add: frames_blocks_def)
qed

text \<open>
  The receiver at rest: nothing gathered, no reader inside. A whole header announces the packet,
  the packet's bytes complete it.
\<close>

definition frames_rest :: "frames \<Rightarrow> bool" where
  "frames_rest f \<longleftrightarrow> inlen f = 0 \<and> in_buf f = [] \<and> \<not> is_receiving f \<and> \<not> inbox_err f"

text \<open>What both ends need to agree on for a packet to get through.\<close>

definition frames_fits :: "u32 \<Rightarrow> lob \<Rightarrow> bool" where
  "frames_fits mx p \<longleftrightarrow> encodable p \<and> 8 < lob_len (Some p) \<and> lob_len (Some p) \<le> unat mx"

lemma frames_fits_len:
  assumes "frames_fits mx p"
  shows "unat (of_nat (lob_len (Some p)) :: u32) = lob_len (Some p)"
    and "(of_nat (lob_len (Some p)) :: u32) \<le> mx"
    and "length (raw p) = lob_len (Some p)" and "raw p \<noteq> []"
proof -
  have le: "lob_len (Some p) \<le> unat mx" and ok: "lob_ok p"
    using assms by (simp_all add: frames_fits_def encodable_def)
  have "lob_len (Some p) < 2 ^ 32"
    using le unsigned_less [of mx, where ?'a = nat] by simp
  then show u: "unat (of_nat (lob_len (Some p)) :: u32) = lob_len (Some p)"
    by (simp add: unsigned_of_nat take_bit_nat_eq_self)
  then show "(of_nat (lob_len (Some p)) :: u32) \<le> mx"
    using le by (simp add: word_le_nat_alt)
  show "length (raw p) = lob_len (Some p)" using ok by (simp add: lob_len_raw)
  then show "raw p \<noteq> []" by (auto simp: lob_len_def)
qed

lemma frames_inbox_packet:
  assumes "frames_rest f" and "frames_fits (max f) p"
  shows "frames_feed (Inr f) (frames_hdr (magic f) p @ raw p) =
    Inr (f\<lparr>inbox := qlob_trim False (inbox f) @ [Some p]\<rparr>)"
proof -
  let ?n = "lob_len (Some p)"
  let ?h = "frames_hdr (magic f) p @ raw p"
  let ?g = "f\<lparr>in_buf := [], inbox_err := False, inlen := ?n\<rparr>"
  note fits = frames_fits_len [OF assms(2)]
  have n: "?n \<noteq> 8" "0 < ?n" using assms(2) by (simp_all add: frames_fits_def lob_len_def)
  have ok: "frames_in_ok f" "frames_in_ok ?g"
    using assms(1) n by (simp_all add: frames_rest_def frames_in_ok_def)
  have "inbox_round f ?h = InMore ?g (raw p)"
    using assms(1) fits
    by (simp add: inbox_round_def util_frames_awaiting_def inbox_header_def inbox_next_def
        frames_rest_def frames_hdr_def Let_def not_less [symmetric])
  moreover have "inbox_round ?g (raw p) =
      InDone (f\<lparr>inbox := qlob_trim False (inbox f) @ [lob_direct (raw p)]\<rparr>) True"
    using assms(1) fits n
    by (simp add: inbox_round_def inbox_packet_def inbox_next_def frames_rest_def Let_def)
  moreover have "lob_direct (raw p) = Some p"
    using assms(2) by (simp add: lob_direct_raw frames_fits_def)
  ultimately show ?thesis
    using ok fits(4) by (simp add: frames_feed_def util_frames_inbox_unfold)
qed

lemma frames_inbox_packets:
  assumes "frames_rest f" and "\<forall>p \<in> set ps. frames_fits (max f) p"
  shows "\<exists>g. frames_feed (Inr f) (concat (frames_blocks (magic f) ps)) = Inr g \<and> frames_rest g \<and>
    qlob_packets (inbox g) = qlob_packets (inbox f) @ ps"
  using assms
proof (induction ps arbitrary: f)
  case Nil
  then show ?case by (auto simp: frames_blocks_def frames_feed_def)
next
  case (Cons p ps)
  let ?f = "f\<lparr>inbox := qlob_trim False (inbox f) @ [Some p]\<rparr>"
  have p: "frames_feed (Inr f) (frames_hdr (magic f) p @ raw p) = Inr ?f"
    using Cons.prems by (intro frames_inbox_packet) auto
  have rest: "frames_rest ?f" using Cons.prems(1) by (simp add: frames_rest_def)
  have "frames_feed (Inr f) ((frames_hdr (magic f) p @ raw p) @ concat (frames_blocks (magic f) ps)) =
      frames_feed (Inr ?f) (concat (frames_blocks (magic f) ps))"
    using Cons.prems(1) rest p
    by (subst fr.feed_append) (auto simp: frames_sink_ok_def frames_in_ok_def frames_joinable_def
        frames_rest_def mid_header_def)
  moreover obtain g where "frames_feed (Inr ?f) (concat (frames_blocks (magic f) ps)) = Inr g"
    "frames_rest g" "qlob_packets (inbox g) = qlob_packets (inbox ?f) @ ps"
    using Cons.IH [OF rest] Cons.prems(2) by auto
  ultimately show ?case by (simp add: frames_blocks_def)
qed

lemma frames_new_facts [simp]:
  "frames_rest (util_frames_new mg mx)" "frames_idle (util_frames_new mg mx)"
  "frames_sink_ok (Inr (util_frames_new mg mx))"
  "magic (util_frames_new mg mx) = mg" "max (util_frames_new mg mx) = mx"
  "inbox (util_frames_new mg mx) = []" "outbox (util_frames_new mg mx) = []"
  by (simp_all add: util_frames_new_def frames_rest_def frames_idle_def frames_sink_ok_def
      frames_in_ok_def)

text \<open>Queue packets for sending, one call after the other.\<close>

definition frames_send_all :: "frames \<Rightarrow> lob list \<Rightarrow> frames" where
  "frames_send_all f ps = foldl (\<lambda>f p. fst (util_frames_send f (Some p))) f ps"

lemma frames_send_all:
  assumes "frames_idle f" and "\<forall>p \<in> set ps. 8 \<le> lob_len (Some p)"
  shows "frames_idle (frames_send_all f ps)" and "magic (frames_send_all f ps) = magic f"
    and "qlob_packets (outbox (frames_send_all f ps)) = qlob_packets (outbox f) @ ps"
  using assms
  by (induction ps arbitrary: f)
    (simp_all add: frames_send_all_def util_frames_send_def frames_idle_def Let_def)

section \<open>Properties\<close>



text \<open>
  C36. A header that arrives in two pieces is not reassembled: the second piece is read as if the
  header began with it, past the end of what was delivered.
\<close>

theorem frames_split_header:
  assumes "frames_rest f" and "length h = 8" and "0 < k" and "k < 8"
  shows "foldl frames_feed (Inr f) [take k h, drop k h] = Inl OverRead"
proof -
  let ?g = "f\<lparr>in_buf := take k h, inlen := 8\<rparr>"
  have ok: "frames_in_ok f" "frames_in_ok ?g"
    using assms by (simp_all add: frames_rest_def frames_in_ok_def)
  have ne: "take k h \<noteq> []" "drop k h \<noteq> []" using assms by auto
  have "inbox_round f (take k h) = InDone ?g True"
    using assms by (simp add: inbox_round_def util_frames_awaiting_def frames_rest_def Let_def)
  moreover have "inbox_round ?g (drop k h) = InFault OverRead"
    using assms by (simp add: inbox_round_def inbox_header_def Let_def)
  ultimately show ?thesis using ok ne by (simp add: frames_feed_def util_frames_inbox_unfold)
qed

theorem frames_split_header_witness:
  "foldl frames_feed (Inr (util_frames_new 42 1024))
     [take 3 (frames_hdr 42 lob_new), drop 3 (frames_hdr 42 lob_new)] = Inl OverRead"
  by (rule frames_split_header) simp_all

text \<open>
  A packet of exactly eight bytes is accepted for sending, but its length is then taken for
  that of a header: reporting the packet's block as sent frees the packet's own storage.
\<close>

theorem frames_eight_bytes:
  assumes "frames_idle f" and "qlob_packets (outbox f) = []" and "lob_len (Some p) = 8"
  shows "snd (util_frames_send f (Some p)) \<and>
    frames_drain (Suc (Suc n)) (fst (util_frames_send f (Some p))) = Inl BadFree"
proof
  show "snd (util_frames_send f (Some p))"
    using assms(3) by (simp add: util_frames_send_def Let_def)
  let ?s = "fst (util_frames_send f (Some p))"
  have "frames_idle ?s" "qlob_packets (outbox ?s) = [p]"
    using assms by (simp_all add: util_frames_send_def frames_idle_def Let_def)
  from frames_push_header [OF this] obtain f1 qs where "frames_push ?s = Inr (f1, Some (frames_hdr (magic ?s) p))"
    "out f1 = OutRaw (raw p)" "outlen f1 = 8" "outbox f1 = Some p # qs"
    using assms(3) by auto
  then show "frames_drain (Suc (Suc n)) ?s = Inl BadFree"
    by (simp add: frames_push_def util_frames_outbox_def util_frames_sent_def Let_def)
qed

theorem frames_eight_bytes_witness:
  "frames_drain (Suc (Suc 0))
     (fst (util_frames_send (util_frames_new 42 1024) (Some (lob_body lob_new None 6)))) = Inl BadFree"
  by (rule frames_eight_bytes [THEN conjunct2])
    (simp_all add: lob_len_def lob_body_def lob_new_def Let_def)

text \<open>
  A header with another magic number or a length over the limit is refused with everything
  that came with it, flagged and without effect on the packets received so far; once the flag is
  cleared, the packets that follow are received.
\<close>

theorem frames_refuse_and_recover:
  assumes "frames_rest f" and "8 \<le> length data"
    and "of_le32 data \<noteq> magic f \<or> of_le32 (drop 4 data) > max f"
    and "\<forall>p \<in> set ps. frames_fits (max f) p"
  shows "\<exists>g. util_frames_inbox f data = Inr (g, False) \<and> \<not> util_frames_ok g \<and> inbox g = inbox f \<and>
    (\<exists>g'. frames_feed (Inr (util_frames_clear g)) (concat (frames_blocks (magic f) ps)) = Inr g' \<and>
       util_frames_ok g' \<and> qlob_packets (inbox g') = qlob_packets (inbox f) @ ps)"
proof -
  let ?g = "f\<lparr>inbox_err := True\<rparr>"
  have ok: "frames_in_ok f" "data \<noteq> []" using assms(1,2) by (auto simp: frames_rest_def frames_in_ok_def)
  have "inbox_round f data = InDone ?g False"
    using assms(1-3)
    by (simp add: inbox_round_def inbox_header_def util_frames_awaiting_def frames_rest_def Let_def)
  then have g: "util_frames_inbox f data = Inr (?g, False)" using ok by (simp add: util_frames_inbox_unfold)
  have clear: "util_frames_clear ?g = f"
    using assms(1) by (simp add: util_frames_clear_def frames_rest_def)
  obtain g' where "frames_feed (Inr f) (concat (frames_blocks (magic f) ps)) = Inr g'"
    "frames_rest g'" "qlob_packets (inbox g') = qlob_packets (inbox f) @ ps"
    using frames_inbox_packets [OF assms(1,4)] by auto
  then show ?thesis
    using g clear by (auto simp: util_frames_ok_def frames_rest_def)
qed

theorem frames_refuse_and_recover_witness:
  "\<exists>g. util_frames_inbox (util_frames_new 42 1024) [0, 0, 0, 0, 0, 0, 0, 0] = Inr (g, False) \<and>
    \<not> util_frames_ok g \<and> inbox g = inbox (util_frames_new 42 1024) \<and>
    (\<exists>g'. frames_feed (Inr (util_frames_clear g)) (concat (frames_blocks (magic (util_frames_new 42 1024)) [])) = Inr g' \<and>
       util_frames_ok g' \<and> qlob_packets (inbox g') = qlob_packets (inbox (util_frames_new 42 1024)) @ [])"
  by (rule frames_refuse_and_recover) simp_all

end
