(* ===== verification/Chunks.thy ===== *)
theory Chunks
  imports Lob
begin

text \<open>
  Packets in chunks, \<open>src/util/chunks.c\<close>: a packet goes out in pieces of at most \<open>cap\<close> bytes, each
  after a byte with its length, and a zero byte ends it.

  The state is the struct \<open>util_chunks_s\<close>. \<open>reading\<close> lists the incoming chunks, newest first, as the
  code links them; \<open>writing\<close> is the list of packets to send. \<open>readat\<close>, \<open>waiting\<close> and \<open>cap\<close> are
  bytes and \<open>waitat\<close> is at most 256; none of them overflows (\<open>chunks_ok\<close>). Allocation does not fail.
\<close>

record chunk =
  ck_size :: nat
  ck_data :: bytes

record chunks =
  reading :: "chunk list"
  writing :: "lob list"
  writeat :: nat
  waitat :: nat
  waiting :: nat
  readat :: nat
  cap :: nat
  blocked :: bool
  blocking :: bool
  ack :: bool
  err :: bool

definition util_chunks_new :: "nat \<Rightarrow> chunks" where
  "util_chunks_new sz =
     \<lparr>reading = [], writing = [], writeat = 0, waitat = 0, waiting = 0, readat = 0,
      cap = (if sz = 0 then 255 else if sz = 1 then 1 else sz - 1),
      blocked = False, blocking = True, ack = False, err = False\<rparr>"

definition util_chunk_new :: "chunks \<Rightarrow> nat \<Rightarrow> chunks" where
  "util_chunk_new c len =
     c\<lparr>reading := \<lparr>ck_size = len, ck_data = replicate len 0\<rparr> # reading c, readat := 0\<rparr>"

section \<open>Reading\<close>

text \<open>The bytes still missing of the newest chunk.\<close>

definition chunk_quota :: "chunks \<Rightarrow> nat" where
  "chunk_quota c = (case reading c of [] \<Rightarrow> 0 | k # _ \<Rightarrow> ck_size k - readat c)"

text \<open>A byte that starts a chunk.\<close>

definition chunk_start :: "chunks \<Rightarrow> u8 \<Rightarrow> chunks" where
  "chunk_start c b =
     (let c = util_chunk_new c (unat b);
          c = c\<lparr>blocked := False\<rparr>
      in if b \<noteq> 0 then c\<lparr>ack := True\<rparr> else c)"

text \<open>Bytes of the newest chunk, no more than are missing.\<close>

definition chunk_fill :: "chunks \<Rightarrow> bytes \<Rightarrow> chunks" where
  "chunk_fill c bs =
     (case reading c of
        [] \<Rightarrow> c
      | k # ks \<Rightarrow>
          c\<lparr>reading := k\<lparr>ck_data := c_store (ck_data k) (readat c) bs\<rparr> # ks, readat := readat c + length bs\<rparr>)"

function util_chunks_append :: "chunks \<Rightarrow> bytes \<Rightarrow> chunks" where
  "util_chunks_append c [] = c"
| "util_chunks_append c (b # bs) =
     (let quota = chunk_quota c in
      if quota = 0 then util_chunks_append (chunk_start c b) bs
      else
        let quota = min quota (length (b # bs))
        in util_chunks_append (chunk_fill c (take quota (b # bs))) (drop quota (b # bs)))"
  by pat_completeness auto
termination
  by (relation "measure (\<lambda>(c, bs). length bs)") auto

declare util_chunks_append.simps [simp del]

text \<open>The flag says whether \<open>chunks\<close> is returned.\<close>

definition util_chunks_read :: "chunks \<Rightarrow> bytes \<Rightarrow> chunks \<times> bool" where
  "util_chunks_read c bs = (let c = util_chunks_append c bs in (c, reading c \<noteq> []))"

text \<open>
  The scan for the oldest empty chunk, the flush of the first complete packet: the chunks newer than
  it and those older.
\<close>

fun find_flush :: "chunk list \<Rightarrow> (chunk list \<times> chunk list) option" where
  "find_flush [] = None"
| "find_flush (k # ks) =
     (case find_flush ks of
        Some (newer, older) \<Rightarrow> Some (k # newer, older)
      | None \<Rightarrow> if ck_size k = 0 then Some ([], ks) else None)"

lemma find_flush_shorter: "find_flush ks = Some (newer, older) \<Longrightarrow> length newer < length ks"
  by (induction ks arbitrary: newer) (auto split: option.splits if_splits)

text \<open>Copying the chunks, newest first, from the end of the buffer to its start.\<close>

fun backfill :: "chunk list \<Rightarrow> bytes" where
  "backfill [] = []"
| "backfill (k # ks) = backfill ks @ take (ck_size k) (ck_data k)"

function util_chunks_receive :: "chunks \<Rightarrow> chunks \<times> lob option" where
  "util_chunks_receive c =
     (case find_flush (reading c) of
        None \<Rightarrow> (c, None)
      | Some (newer, older) \<Rightarrow>
          (let c' = c\<lparr>reading := newer\<rparr> in
           if older = [] then util_chunks_receive c'
           else
             let ret = lob_parse (Some (backfill older))
             in (c'\<lparr>ack := True, err := (ret = None)\<rparr>, ret)))"
  by pat_completeness auto
termination
  by (relation "measure (\<lambda>c. length (reading c))") (auto dest: find_flush_shorter)

declare util_chunks_receive.simps [simp del]

section \<open>Writing\<close>

definition util_chunks_send :: "chunks \<Rightarrow> lob \<Rightarrow> chunks" where
  "util_chunks_send c p = c\<lparr>writing := writing c @ [p]\<rparr>"

text \<open>How many bytes can be written now; fixes the length of the next chunk.\<close>

definition util_chunks_len :: "chunks \<Rightarrow> chunks \<times> nat" where
  "util_chunks_len c =
     (if blocked c then (c, 0)
      else
        case writing c of
          [] \<Rightarrow> (c, if ack c then 1 else 0)
        | p # _ \<Rightarrow>
            (let avail = min (lob_len (Some p) - writeat c) (cap c);
                 c = (if waiting c = 0 then c\<lparr>waiting := avail\<rparr> else c)
             in (c, if waitat c = 0 then 1 else waiting c - (waitat c - 1))))"

text \<open>The bytes at the returned pointer.\<close>

definition util_chunks_write :: "chunks \<Rightarrow> chunks \<times> bytes option" where
  "util_chunks_write c =
     (let (c, n) = util_chunks_len c in
      if n = 0 then (c, None)
      else if waitat c = 0 then (c, Some [of_nat (waiting c)])
      else
        (c, case writing c of
              [] \<Rightarrow> None
            | p # _ \<Rightarrow> Some (drop (writeat c + (waitat c - 1)) (raw p))))"

definition chunk_done :: "nat \<Rightarrow> chunks \<Rightarrow> chunks" where
  "chunk_done len c =
     (let c = c\<lparr>writeat := writeat c + waiting c\<rparr>;
          c = c\<lparr>waiting := 0, waitat := 0\<rparr>;
          c = (if waiting c = cap c then c\<lparr>blocked := blocking c\<rparr> else c)
      in case writing c of
           [] \<Rightarrow> c
         | p # ps \<Rightarrow>
             if len = 1 \<and> writeat c = lob_len (Some p)
             then c\<lparr>writing := ps, writeat := 0, blocked := blocking c\<rparr>
             else c)"

definition util_chunks_written :: "chunks \<Rightarrow> nat \<Rightarrow> chunks \<times> bool" where
  "util_chunks_written c len =
     (if len = 0 then (c, True)
      else
        let (c, n) = util_chunks_len c in
        if len > n then (c, False)
        else
          let c = c\<lparr>waitat := waitat c + len, ack := False\<rparr>
          in (if waitat c > waiting c then chunk_done len c else c, True))"

definition util_chunks_writing :: "chunks \<Rightarrow> chunks \<times> nat" where
  "util_chunks_writing c =
     (let (c, _) = util_chunks_len c in
      (c, case writing c of
            [] \<Rightarrow> 0
          | p # ps \<Rightarrow> lob_len (Some p) - writeat c + sum_list (map (\<lambda>q. lob_len (Some q)) ps)))"

section \<open>Whole chunks\<close>

text \<open>The functions for transports that carry a chunk at a time; \<open>None\<close> is -1.\<close>

definition util_chunks_size :: "chunks \<Rightarrow> chunks \<times> nat option" where
  "util_chunks_size c =
     (let (c, n) = util_chunks_len c in (c, if n = 0 then None else Some (waiting c)))"

definition util_chunks_frame :: "chunks \<Rightarrow> bytes option" where
  "util_chunks_frame c =
     (if waiting c = 0 then None
      else case writing c of [] \<Rightarrow> None | p # _ \<Rightarrow> Some (drop (writeat c) (raw p)))"

definition util_chunks_chunk :: "chunks \<Rightarrow> bytes \<Rightarrow> chunks" where
  "util_chunks_chunk c bs = util_chunks_append (util_chunks_append c [of_nat (length bs)]) bs"

definition util_chunks_peek :: "chunks \<Rightarrow> chunks \<times> int" where
  "util_chunks_peek c =
     (let (c, sz) = util_chunks_size c in
      (c, case sz of
            None \<Rightarrow> -1
          | Some n \<Rightarrow>
              if n = 0 then -1
              else case writing c of
                     [] \<Rightarrow> -1
                   | p # _ \<Rightarrow> int (lob_len (Some p)) - int (writeat c + n)))"

definition util_chunks_next :: "chunks \<Rightarrow> chunks \<times> bool" where
  "util_chunks_next c =
     (case util_chunks_size c of
        (c, None) \<Rightarrow> (c, False)
      | (c, Some n) \<Rightarrow>
          (case util_chunks_written c 1 of
             (c, False) \<Rightarrow> (c, False)
           | (c, True) \<Rightarrow> util_chunks_written c n))"

section \<open>Reading a stream in fragments\<close>

definition chunk_ok :: "chunk \<Rightarrow> bool" where
  "chunk_ok k \<longleftrightarrow> length (ck_data k) = ck_size k \<and> ck_size k \<le> 255"

text \<open>The invariant of the incoming side, with the bounds of its bytes.\<close>

definition reading_ok :: "chunks \<Rightarrow> bool" where
  "reading_ok c \<longleftrightarrow> list_all chunk_ok (reading c) \<and>
     (case reading c of [] \<Rightarrow> True | k # _ \<Rightarrow> readat c \<le> ck_size k)"

lemma reading_ok_start [wf_intros]: "reading_ok c \<Longrightarrow> reading_ok (chunk_start c b)"
  using unsigned_less [of b, where ?'a = nat]
  by (auto simp: chunk_start_def util_chunk_new_def reading_ok_def chunk_ok_def Let_def)

lemma reading_ok_fill [wf_intros]:
  "reading_ok c \<Longrightarrow> length bs \<le> chunk_quota c \<Longrightarrow> reading_ok (chunk_fill c bs)"
  by (auto simp: chunk_fill_def reading_ok_def chunk_ok_def chunk_quota_def length_c_store
      split: list.splits)

lemma reading_ok_append [wf_intros]: "reading_ok c \<Longrightarrow> reading_ok (util_chunks_append c bs)"
proof (induction c bs rule: util_chunks_append.induct)
  case (2 c b bs)
  show ?case
  proof (cases "chunk_quota c = 0")
    case True
    then show ?thesis
      using 2 by (subst util_chunks_append.simps) (simp add: reading_ok_start)
  next
    case False
    have "reading_ok (chunk_fill c (take (min (chunk_quota c) (length (b # bs))) (b # bs)))"
      by (rule reading_ok_fill) (use 2 in auto)
    then show ?thesis using False 2 by (subst util_chunks_append.simps) (simp add: Let_def)
  qed
qed (simp add: util_chunks_append.simps)

text \<open>Filling in two steps.\<close>

lemma c_store_twice:
  assumes "i + length a + length x \<le> length d"
  shows "c_store (c_store d i a) (i + length a) x = c_store d i (a @ x)"
  using assms by (simp add: c_store_def ac_simps)

lemma chunk_fill_twice:
  assumes "reading_ok c" and "length (a @ x) \<le> chunk_quota c"
  shows "chunk_fill (chunk_fill c a) x = chunk_fill c (a @ x)"
  using assms
  by (auto simp: chunk_fill_def chunk_quota_def reading_ok_def chunk_ok_def c_store_twice
      split: list.splits)

lemma chunk_quota_fill: "chunk_quota (chunk_fill c a) = chunk_quota c - length a"
  by (auto simp: chunk_fill_def chunk_quota_def split: list.splits)

text \<open>One round on a chunk with bytes missing.\<close>

lemma append_fill:
  assumes "chunk_quota c \<noteq> 0" and "bs \<noteq> []"
  shows "util_chunks_append c bs =
    util_chunks_append (chunk_fill c (take (chunk_quota c) bs)) (drop (chunk_quota c) bs)"
  using assms by (cases bs) (auto simp: util_chunks_append.simps Let_def min_def)

lemma append_start:
  "chunk_quota c = 0 \<Longrightarrow> util_chunks_append c (b # bs) = util_chunks_append (chunk_start c b) bs"
  by (subst util_chunks_append.simps) simp

lemma append_Nil: "util_chunks_append c [] = c"
  by (simp add: util_chunks_append.simps)

lemma append_append:
  "reading_ok c \<Longrightarrow> util_chunks_append c (a @ b) = util_chunks_append (util_chunks_append c a) b"
proof (induction "length a" arbitrary: c a rule: less_induct)
  case less
  show ?case
  proof (cases a)
    case Nil
    then show ?thesis by (simp add: append_Nil)
  next
    case (Cons x xs)
    let ?q = "chunk_quota c"
    consider (start) "?q = 0" | (whole) "?q \<noteq> 0" "?q \<le> length a" | (part) "length a < ?q" by linarith
    then show ?thesis
    proof cases
      case start
      then show ?thesis
        using less.hyps [of xs "chunk_start c x"] reading_ok_start [OF less.prems, of x]
        by (simp add: Cons append_start)
    next
      case whole
      have "reading_ok (chunk_fill c (take ?q a))" by (rule reading_ok_fill) (use less.prems in auto)
      then show ?thesis
        using less.hyps [of "drop ?q a" "chunk_fill c (take ?q a)"] whole
          append_fill [of c "a @ b"] append_fill [of c a]
        by (cases "a = []") auto
    next
      case part
      have ne: "a \<noteq> []" using Cons by simp
      have a: "util_chunks_append c a = chunk_fill c a"
        using part ne by (subst append_fill) (auto simp: append_Nil)
      show ?thesis
      proof (cases "b = []")
        case False
        have "chunk_fill (chunk_fill c a) (take (?q - length a) b) = chunk_fill c (a @ take (?q - length a) b)"
          by (rule chunk_fill_twice [OF less.prems]) (use part in auto)
        then show ?thesis
          using part ne False append_fill [of c "a @ b"] append_fill [of "chunk_fill c a" b]
          by (simp add: a chunk_quota_fill)
      qed (simp add: append_Nil)
    qed
  qed
qed

interpretation ch: total_byte_sink util_chunks_append reading_ok
  by unfold_locales (simp_all add: reading_ok_append append_Nil append_append)

section \<open>Whole packets on the wire\<close>

text \<open>The pieces of a block, and the bytes of a packet on the wire.\<close>

function pieces :: "nat \<Rightarrow> bytes \<Rightarrow> bytes list" where
  "pieces n bs = (if n = 0 \<or> bs = [] then [] else take n bs # pieces n (drop n bs))"
  by pat_completeness auto
termination by (relation "measure (\<lambda>(n, bs). length bs)") auto

declare pieces.simps [simp del]

lemma concat_pieces: "0 < n \<Longrightarrow> concat (pieces n bs) = bs"
proof (induction n bs rule: pieces.induct)
  case (1 n bs)
  then show ?case by (subst pieces.simps) auto
qed

lemma pieces_sizes: "x \<in> set (pieces n bs) \<Longrightarrow> x \<noteq> [] \<and> length x \<le> n"
proof (induction n bs rule: pieces.induct)
  case (1 n bs)
  then show ?case by (subst (asm) pieces.simps) (auto split: if_splits)
qed

definition chunk_bytes :: "bytes \<Rightarrow> bytes" where
  "chunk_bytes x = of_nat (length x) # x"

definition packet_wire :: "nat \<Rightarrow> bytes \<Rightarrow> bytes" where
  "packet_wire n bs = concat (map chunk_bytes (pieces n bs)) @ [0]"

text \<open>The chunks that a packet leaves, oldest first.\<close>

definition chunk_of :: "bytes \<Rightarrow> chunk" where
  "chunk_of x = \<lparr>ck_size = length x, ck_data = x\<rparr>"

lemma append_chunk:
  assumes "chunk_quota c = 0" and "length x \<le> 255"
  shows "reading (util_chunks_append c (chunk_bytes x)) = chunk_of x # reading c \<and>
    chunk_quota (util_chunks_append c (chunk_bytes x)) = 0"
proof -
  let ?c = "chunk_start c (of_nat (length x))"
  have u: "unat (of_nat (length x) :: u8) = length x"
    using assms(2) by (simp add: unsigned_of_nat take_bit_nat_eq_self)
  then have r: "reading ?c = \<lparr>ck_size = length x, ck_data = replicate (length x) 0\<rparr> # reading c" "readat ?c = 0"
    by (simp_all add: chunk_start_def util_chunk_new_def Let_def)
  show ?thesis
  proof (cases "x = []")
    case True
    then show ?thesis
      using assms r by (simp add: chunk_bytes_def append_start append_Nil chunk_of_def chunk_quota_def)
  next
    case False
    then have "util_chunks_append c (chunk_bytes x) = chunk_fill ?c x"
      using assms r append_fill [of ?c x]
      by (simp add: chunk_bytes_def append_start append_Nil chunk_quota_def)
    then show ?thesis
      using r by (simp add: chunk_fill_def chunk_quota_def chunk_of_def c_store_def)
  qed
qed

lemma append_chunks:
  assumes "chunk_quota c = 0" and "reading_ok c" and "\<forall>x \<in> set xs. length x \<le> 255"
  shows "reading (util_chunks_append c (concat (map chunk_bytes xs))) = rev (map chunk_of xs) @ reading c \<and>
    chunk_quota (util_chunks_append c (concat (map chunk_bytes xs))) = 0"
  using assms
proof (induction xs arbitrary: c)
  case (Cons x xs)
  let ?c = "util_chunks_append c (chunk_bytes x)"
  have "reading ?c = chunk_of x # reading c" "chunk_quota ?c = 0"
    using append_chunk [of c x] Cons.prems by simp_all
  then show ?case
    using Cons.IH [of ?c] Cons.prems reading_ok_append [of c "chunk_bytes x"]
    by (simp add: append_append)
qed (simp add: append_Nil)

definition packet_chunks :: "nat \<Rightarrow> bytes \<Rightarrow> chunk list" where
  "packet_chunks n bs = map chunk_of (pieces n bs @ [[]])"

lemma append_packet:
  assumes "chunk_quota c = 0" and "reading_ok c" and "n \<le> 255"
  shows "reading (util_chunks_append c (packet_wire n bs)) = rev (packet_chunks n bs) @ reading c \<and>
    chunk_quota (util_chunks_append c (packet_wire n bs)) = 0"
proof -
  have "packet_wire n bs = concat (map chunk_bytes (pieces n bs @ [[]]))"
    by (simp add: packet_wire_def chunk_bytes_def)
  moreover have "\<forall>x \<in> set (pieces n bs @ [[]]). length x \<le> 255"
    using pieces_sizes [of _ n bs] assms(3) by fastforce
  ultimately show ?thesis
    using append_chunks [OF assms(1,2), of "pieces n bs @ [[]]"] by (simp add: packet_chunks_def)
qed

lemma append_packets:
  assumes "chunk_quota c = 0" and "reading_ok c" and "n \<le> 255"
  shows "reading (util_chunks_append c (concat (map (packet_wire n) ps))) =
      rev (concat (map (packet_chunks n) ps)) @ reading c"
  using assms
proof (induction ps arbitrary: c)
  case (Cons p ps)
  then show ?case
    using append_packet [of c n p] Cons.IH [of "util_chunks_append c (packet_wire n p)"]
      reading_ok_append [of c "packet_wire n p"]
    by (simp add: append_append)
qed (simp add: append_Nil)

text \<open>Taking out the oldest packet.\<close>

lemma find_flush_oldest:
  "list_all (\<lambda>k. ck_size k \<noteq> 0) older \<Longrightarrow> ck_size k = 0 \<Longrightarrow> find_flush (newer @ k # older) = Some (newer, older)"
proof (induction newer)
  case Nil
  have "find_flush older = None" using Nil(1) by (induction older) auto
  then show ?case using Nil by simp
qed simp

lemma backfill_chunks: "backfill (rev (map chunk_of xs)) = concat xs"
proof -
  have "backfill (ks @ ls) = backfill ls @ backfill ks" for ks ls by (induction ks) simp_all
  then show ?thesis by (induction xs) (simp_all add: chunk_of_def)
qed

lemma receive_packet:
  assumes "reading c = newer @ rev (packet_chunks n bs)" and "0 < n" and "bs \<noteq> []"
  shows "util_chunks_receive c =
    (c\<lparr>reading := newer, ack := True, err := (lob_parse (Some bs) = None)\<rparr>, lob_parse (Some bs))"
proof -
  have "list_all (\<lambda>k. ck_size k \<noteq> 0) (rev (map chunk_of (pieces n bs)))"
    using pieces_sizes [of _ n bs] by (auto simp: list_all_iff chunk_of_def)
  from find_flush_oldest [OF this, of "chunk_of []" newer]
  have "find_flush (reading c) = Some (newer, rev (map chunk_of (pieces n bs)))"
    by (simp add: assms(1) packet_chunks_def) (simp add: chunk_of_def)
  moreover have "rev (map chunk_of (pieces n bs)) \<noteq> []"
    using assms(2,3) by (subst pieces.simps) simp
  ultimately show ?thesis
    using concat_pieces [OF assms(2), of bs]
    by (subst util_chunks_receive.simps) (simp add: backfill_chunks Let_def)
qed

section \<open>Writing whole packets\<close>

text \<open>What a stream transport does each time it can write: all that is offered, then report it.\<close>

definition chunks_push :: "chunks \<Rightarrow> chunks \<times> bytes option" where
  "chunks_push c =
     (case util_chunks_write c of
        (c, None) \<Rightarrow> (c, None)
      | (c, Some d) \<Rightarrow>
          (let (c, n) = util_chunks_len c in (fst (util_chunks_written c n), Some (take n d))))"

fun chunks_drain :: "nat \<Rightarrow> chunks \<Rightarrow> chunks \<times> bytes list" where
  "chunks_drain 0 c = (c, [])"
| "chunks_drain (Suc n) c =
     (case chunks_push c of
        (c', None) \<Rightarrow> (c', [])
      | (c', Some d) \<Rightarrow> (let (c'', ds) = chunks_drain n c' in (c'', d # ds)))"

text \<open>Between two chunks of a packet.\<close>

definition between :: "chunks \<Rightarrow> bool" where
  "between c \<longleftrightarrow> waitat c = 0 \<and> waiting c = 0 \<and> \<not> blocked c \<and> 0 < cap c"

text \<open>The three calls in order: what is offered, its bytes, and the report.\<close>

lemma chunks_pushI:
  assumes "util_chunks_len c = (ca, n)" and "0 < n" and "util_chunks_len ca = (ca, n)"
    and "(if waitat ca = 0 then Some [of_nat (waiting ca)]
          else case writing ca of [] \<Rightarrow> None | p # _ \<Rightarrow> Some (drop (writeat ca + (waitat ca - 1)) (raw p))) = Some d"
    and "cc = (if waiting ca < waitat ca + n then chunk_done n (ca\<lparr>waitat := waitat ca + n, ack := False\<rparr>)
          else ca\<lparr>waitat := waitat ca + n, ack := False\<rparr>)"
  shows "chunks_push c = (cc, Some (take n d))"
proof -
  have "util_chunks_write c = (ca, Some d)"
    using assms(1,2,4) by (cases "waitat ca = 0") (simp_all add: util_chunks_write_def)
  moreover have "fst (util_chunks_written ca n) = cc"
    using assms(2,3,5) by (simp add: util_chunks_written_def Let_def)
  ultimately show ?thesis using assms(3) by (simp add: chunks_push_def)
qed

lemma len_size:
  assumes "waitat c = 0" and "\<not> blocked c" and "writing c = p # ps"
    and "w = min (lob_len (Some p) - writeat c) (cap c)" and "waiting c = 0 \<or> waiting c = w"
  shows "util_chunks_len c = (c\<lparr>waiting := w\<rparr>, 1)"
  using assms by (auto simp: util_chunks_len_def Let_def)

lemma len_data:
  assumes "waitat c = 1" and "\<not> blocked c" and "writing c = p # ps" and "0 < waiting c"
  shows "util_chunks_len c = (c, waiting c)"
  using assms by (simp add: util_chunks_len_def Let_def)

lemma push_size:
  assumes "between c" and "writing c = p # ps" and "w = min (lob_len (Some p) - writeat c) (cap c)" and "0 < w"
  shows "chunks_push c = (c\<lparr>waiting := w, waitat := 1, ack := False\<rparr>, Some [of_nat w])"
proof -
  have b: "waitat c = 0" "waiting c = 0" "\<not> blocked c" using assms(1) by (simp_all add: between_def)
  have l: "util_chunks_len c = (c\<lparr>waiting := w\<rparr>, 1)"
    using len_size [OF b(1,3) assms(2,3)] b(2) by simp
  have l': "util_chunks_len (c\<lparr>waiting := w\<rparr>) = (c\<lparr>waiting := w\<rparr>, 1)"
    using len_size [of "c\<lparr>waiting := w\<rparr>" p ps w] b assms(2,3) by simp
  have "chunks_push c = (c\<lparr>waiting := w, waitat := 1, ack := False\<rparr>, Some (take 1 [of_nat w]))"
    by (rule chunks_pushI [where ca = "c\<lparr>waiting := w\<rparr>"])
      (use l l' b assms(2,4) in simp_all)
  then show ?thesis by simp
qed

lemma push_data:
  assumes "writing c = p # ps" and "waiting c = w" and "0 < w" and "waitat c = 1" and "\<not> blocked c"
    and "0 < cap c"
  shows "chunks_push c =
    (chunk_done w (c\<lparr>waitat := 1 + w, ack := False\<rparr>), Some (take w (drop (writeat c) (raw p))))"
  by (rule chunks_pushI [where ca = c]) (use len_data [OF assms(4,5,1)] assms in simp_all)

lemma push_flush_done:
  assumes "between c" and "writing c = p # ps" and "writeat c = lob_len (Some p)"
  shows "chunks_push c = (chunk_done 1 (c\<lparr>waitat := 1, ack := False\<rparr>), Some [0])"
proof -
  have b: "waitat c = 0" "waiting c = 0" "\<not> blocked c" using assms(1) by (simp_all add: between_def)
  have w: "0 = min (lob_len (Some p) - writeat c) (cap c)" using assms(3) by simp
  have l: "util_chunks_len c = (c, 1)" using len_size [OF b(1,3) assms(2) w] b by simp
  have "chunks_push c = (chunk_done 1 (c\<lparr>waitat := 1, ack := False\<rparr>), Some (take 1 [0]))"
    by (rule chunks_pushI [where ca = c]) (use l b in simp_all)
  then show ?thesis by simp
qed

lemma chunk_done_more:
  assumes "writing c = p # ps" and "0 < cap c" and "\<not> (len = 1 \<and> writeat c + waiting c = lob_len (Some p))"
  shows "chunk_done len c = c\<lparr>writeat := writeat c + waiting c, waiting := 0, waitat := 0\<rparr>"
  using assms by (auto simp: chunk_done_def Let_def)

lemma chunk_done_last:
  assumes "writing c = p # ps" and "0 < cap c" and "writeat c + waiting c = lob_len (Some p)"
  shows "chunk_done 1 c =
    c\<lparr>writing := ps, writeat := 0, waiting := 0, waitat := 0, blocked := blocking c\<rparr>"
  using assms by (auto simp: chunk_done_def Let_def)

lemma push_data_more:
  assumes "writing c = p # ps" and "waiting c = w" and "0 < w" and "waitat c = 1" and "\<not> blocked c"
    and "0 < cap c" and "\<not> (w = 1 \<and> writeat c + w = lob_len (Some p))"
  shows "chunks_push c =
    (c\<lparr>writeat := writeat c + w, waiting := 0, waitat := 0, ack := False\<rparr>,
     Some (take w (drop (writeat c) (raw p))))"
  using push_data [OF assms(1-6)] chunk_done_more [of "c\<lparr>waitat := 1 + w, ack := False\<rparr>" p ps w] assms
  by simp

text \<open>The last byte of a packet, written alone, is taken for the zero that ends it.\<close>

lemma push_last_byte:
  assumes "writing c = p # ps" and "waiting c = 1" and "waitat c = 1" and "\<not> blocked c"
    and "0 < cap c" and "writeat c + 1 = lob_len (Some p)"
  shows "chunks_push c =
    (c\<lparr>writing := ps, writeat := 0, waiting := 0, waitat := 0, ack := False, blocked := blocking c\<rparr>,
     Some (take 1 (drop (writeat c) (raw p))))"
  using push_data [of c p ps 1] chunk_done_last [of "c\<lparr>waitat := 1 + 1, ack := False\<rparr>" p ps] assms
  by simp

lemma push_flush:
  assumes "between c" and "writing c = p # ps" and "writeat c = lob_len (Some p)"
  shows "chunks_push c =
    (c\<lparr>writing := ps, writeat := 0, ack := False, blocked := blocking c\<rparr>, Some [0])"
  using push_flush_done [OF assms] chunk_done_last [of "c\<lparr>waitat := 1, ack := False\<rparr>" p ps] assms
  by (simp add: between_def)

lemma push_none: "writing c = [] \<Longrightarrow> \<not> ack c \<Longrightarrow> chunks_push c = (c, None)"
  by (simp add: chunks_push_def util_chunks_write_def util_chunks_len_def)

lemma push_blocked: "blocked c \<Longrightarrow> chunks_push c = (c, None)"
  by (simp add: chunks_push_def util_chunks_write_def util_chunks_len_def)

lemma drain_none: "chunks_push c = (c, None) \<Longrightarrow> chunks_drain m c = (c, [])"
  by (cases m) simp_all

text \<open>The blocks of a packet.\<close>

definition piece_blocks :: "bytes \<Rightarrow> bytes list" where
  "piece_blocks x = [[of_nat (length x)], x]"

definition packet_blocks :: "nat \<Rightarrow> bytes \<Rightarrow> bytes list" where
  "packet_blocks n bs = concat (map piece_blocks (pieces n bs)) @ [[0]]"

lemma concat_piece_blocks: "concat (concat (map piece_blocks xs)) = concat (map chunk_bytes xs)"
  by (induction xs) (simp_all add: piece_blocks_def chunk_bytes_def)

lemma concat_packet_blocks: "concat (packet_blocks n bs) = packet_wire n bs"
  by (simp add: packet_blocks_def packet_wire_def concat_piece_blocks)

definition ends_single :: "nat \<Rightarrow> bytes \<Rightarrow> bool" where
  "ends_single n bs \<longleftrightarrow> n = 1 \<or> length bs mod n = 1"

lemma ends_single_drop: "n < length bs \<Longrightarrow> ends_single n (drop n bs) = ends_single n bs"
  by (simp add: ends_single_def le_mod_geq)

text \<open>One piece, through the two pushes it takes.\<close>

lemma drain_piece:
  assumes "between c" and "writing c = p # ps" and "length (raw p) = lob_len (Some p)"
    and "drop (writeat c) (raw p) = bs" and "bs \<noteq> []" and "\<not> (length bs = 1)"
  shows "chunks_drain (Suc (Suc m)) c =
    (let x = take (cap c) bs; (c', ds) = chunks_drain m (c\<lparr>writeat := writeat c + length x, ack := False\<rparr>)
     in (c', piece_blocks x @ ds))"
proof -
  let ?w = "min (lob_len (Some p) - writeat c) (cap c)"
  have len: "length bs = lob_len (Some p) - writeat c" using assms(3,4) by auto
  moreover have "0 < length bs" using assms(5) by simp
  ultimately have w: "0 < ?w" "take ?w bs = take (cap c) bs" "length (take (cap c) bs) = ?w"
    using assms(1) by (auto simp: between_def min_def)
  let ?c = "c\<lparr>waiting := ?w, waitat := 1, ack := False\<rparr>"
  have "\<not> (?w = 1 \<and> writeat c + ?w = lob_len (Some p))" using assms(6) len w by auto
  then have 2: "chunks_push ?c = (c\<lparr>writeat := writeat c + ?w, ack := False\<rparr>, Some (take (cap c) bs))"
    using push_data_more [of ?c p ps ?w] assms(1,2,4) w by (simp add: between_def)
  show ?thesis
    using push_size [OF assms(1,2) refl w(1)] 2 w(3)
    by (simp add: Let_def piece_blocks_def case_prod_unfold)
qed

lemma drain_pieces:
  assumes "between c" and "writing c = p # ps" and "length (raw p) = lob_len (Some p)"
    and "drop (writeat c) (raw p) = bs" and "\<not> ends_single (cap c) bs" and "writeat c \<le> lob_len (Some p)"
  shows "chunks_drain (length (packet_blocks (cap c) bs) + m) c =
    (let (c', ds) = chunks_drain m (c\<lparr>writing := ps, writeat := 0, ack := False, blocked := blocking c\<rparr>)
     in (c', packet_blocks (cap c) bs @ ds))"
  using assms
proof (induction "length bs" arbitrary: c bs rule: less_induct)
  case less
  have cap: "0 < cap c" using less.prems(1) by (simp add: between_def)
  show ?case
  proof (cases "bs = []")
    case True
    then have "writeat c = lob_len (Some p)" using less.prems(3,4,6) by auto
    from push_flush [OF less.prems(1,2) this] True show ?thesis
      by (simp add: packet_blocks_def pieces.simps Let_def case_prod_unfold)
  next
    case False
    let ?x = "take (cap c) bs"
    let ?c = "c\<lparr>writeat := writeat c + length ?x, ack := False\<rparr>"
    have one: "length bs \<noteq> 1" using less.prems(5) cap by (cases "cap c") (auto simp: ends_single_def)
    have blocks: "packet_blocks (cap c) bs = piece_blocks ?x @ packet_blocks (cap c) (drop (cap c) bs)"
      using False cap by (subst packet_blocks_def, subst pieces.simps) (simp add: packet_blocks_def)
    have "\<not> ends_single (cap c) (drop (cap c) bs)"
      using less.prems(5) ends_single_drop [of "cap c" bs]
      by (cases "cap c < length bs") (auto simp: ends_single_def)
    moreover have "drop (writeat ?c) (raw p) = drop (cap c) bs"
      using less.prems(4) by (auto simp: add.commute min_def)
    moreover have "writeat ?c \<le> lob_len (Some p)" using less.prems(3,4,6) by auto
    moreover have "length (drop (cap c) bs) < length bs" using False cap by simp
    ultimately have IH: "chunks_drain (length (packet_blocks (cap c) (drop (cap c) bs)) + m) ?c =
        (let (c', ds) = chunks_drain m (c\<lparr>writing := ps, writeat := 0, ack := False, blocked := blocking c\<rparr>)
         in (c', packet_blocks (cap c) (drop (cap c) bs) @ ds))"
      using less.hyps [of "drop (cap c) bs" ?c] less.prems(1-3) by (simp add: between_def)
    have "length (packet_blocks (cap c) bs) + m =
        Suc (Suc (length (packet_blocks (cap c) (drop (cap c) bs)) + m))"
      by (simp add: blocks piece_blocks_def)
    then show ?thesis
      using drain_piece [OF less.prems(1-4) False one, of "length (packet_blocks (cap c) (drop (cap c) bs)) + m"] IH
      by (simp add: blocks Let_def case_prod_unfold)
  qed
qed

lemma drain_packets:
  assumes "between c" and "writing c = ps" and "writeat c = 0" and "\<not> ack c" and "\<not> blocking c"
    and "list_all (\<lambda>p. length (raw p) = lob_len (Some p) \<and> \<not> ends_single (cap c) (raw p)) ps"
  shows "chunks_drain (length (concat (map (\<lambda>p. packet_blocks (cap c) (raw p)) ps)) + m) c =
    (c\<lparr>writing := []\<rparr>, concat (map (\<lambda>p. packet_blocks (cap c) (raw p)) ps))"
  using assms
proof (induction ps arbitrary: c)
  case Nil
  then show ?case using drain_none [OF push_none [of c], of m] by simp
next
  case (Cons p ps)
  let ?c = "c\<lparr>writing := ps\<rparr>"
  have same: "c\<lparr>writing := ps, writeat := 0, ack := False, blocked := blocking c\<rparr> = ?c"
    using Cons.prems by (simp add: between_def)
  have "chunks_drain (length (packet_blocks (cap c) (raw p)) +
      (length (concat (map (\<lambda>p. packet_blocks (cap c) (raw p)) ps)) + m)) c =
    (let (c', ds) = chunks_drain (length (concat (map (\<lambda>p. packet_blocks (cap c) (raw p)) ps)) + m) ?c
     in (c', packet_blocks (cap c) (raw p) @ ds))"
    using drain_pieces [of c p ps "raw p"] Cons.prems unfolding same by simp
  moreover have "chunks_drain (length (concat (map (\<lambda>p. packet_blocks (cap c) (raw p)) ps)) + m) ?c =
      (?c\<lparr>writing := []\<rparr>, concat (map (\<lambda>p. packet_blocks (cap c) (raw p)) ps))"
    using Cons.IH [of ?c] Cons.prems by (simp add: between_def)
  ultimately show ?case by (simp add: add.assoc)
qed

text \<open>Queueing packets, and taking out all that have arrived.\<close>

definition chunks_send_all :: "chunks \<Rightarrow> lob list \<Rightarrow> chunks" where
  "chunks_send_all c ps = foldl util_chunks_send c ps"

lemma chunks_send_all: "chunks_send_all c ps = c\<lparr>writing := writing c @ ps\<rparr>"
  by (induction ps arbitrary: c) (simp_all add: chunks_send_all_def util_chunks_send_def)

fun chunks_receive_all :: "nat \<Rightarrow> chunks \<Rightarrow> lob list" where
  "chunks_receive_all 0 c = []"
| "chunks_receive_all (Suc n) c =
     (case util_chunks_receive c of
        (_, None) \<Rightarrow> []
      | (c', Some p) \<Rightarrow> p # chunks_receive_all n c')"

lemma receive_packets:
  assumes "reading c = rev (concat (map (packet_chunks n) (map raw ps)))" and "0 < n"
    and "list_all encodable ps"
  shows "chunks_receive_all (length ps) c = ps"
  using assms
proof (induction ps arbitrary: c)
  case (Cons p ps)
  have ok: "encodable p" using Cons.prems(3) by simp
  then have "length (raw p) = 2 + head_len p + body_len p"
    by (simp add: encodable_def lob_ok_def)
  then have "raw p \<noteq> []" by auto
  moreover have "lob_parse (Some (raw p)) = Some p"
    using ok lob_parse_direct lob_direct_raw by (simp add: lob_raw_def)
  ultimately have "util_chunks_receive c =
      (c\<lparr>reading := rev (concat (map (packet_chunks n) (map raw ps))), ack := True, err := False\<rparr>, Some p)"
    using receive_packet [of c _ n "raw p"] Cons.prems(1,2) by simp
  then show ?case using Cons.IH Cons.prems by simp
qed simp

section \<open>Sender and receiver\<close>

definition chunks_blocks :: "nat \<Rightarrow> lob list \<Rightarrow> bytes list" where
  "chunks_blocks n ps = concat (map (\<lambda>p. packet_blocks n (raw p)) ps)"

lemma concat_chunks_blocks: "concat (chunks_blocks n ps) = concat (map (packet_wire n) (map raw ps))"
  by (induction ps) (simp_all add: chunks_blocks_def concat_packet_blocks)

lemma encodable_raw: "encodable p \<Longrightarrow> length (raw p) = lob_len (Some p) \<and> raw p \<noteq> []"
  by (auto simp: encodable_def lob_ok_def lob_len_def)

lemma util_chunks_new_cap: "sz \<le> 255 \<Longrightarrow> 0 < cap (util_chunks_new sz) \<and> cap (util_chunks_new sz) \<le> 255"
  by (auto simp: util_chunks_new_def)


definition demo_lob :: "u8 \<Rightarrow> lob" where
  "demo_lob b = \<lparr>raw = [0, 1, b, 8, 9], head_len = 1, body_len = 2\<rparr>"

lemma encodable_demo_lob: "encodable (demo_lob b)"
  by (simp add: encodable_def lob_ok_def demo_lob_def be16_def json_ok_def head_def)


section \<open>A last piece of one byte\<close>

lemma drain_single:
  assumes "between c" and "writing c = p # ps" and "length (raw p) = lob_len (Some p)"
    and "drop (writeat c) (raw p) = bs" and "ends_single (cap c) bs" and "bs \<noteq> []"
    and "writeat c \<le> lob_len (Some p)"
  shows "chunks_drain (length (concat (map piece_blocks (pieces (cap c) bs))) + m) c =
    (let (c', ds) = chunks_drain m (c\<lparr>writing := ps, writeat := 0, ack := False, blocked := blocking c\<rparr>)
     in (c', concat (map piece_blocks (pieces (cap c) bs)) @ ds))"
  using assms
proof (induction "length bs" arbitrary: c bs rule: less_induct)
  case less
  have cap: "0 < cap c" using less.prems(1) by (simp add: between_def)
  have rest: "length bs = lob_len (Some p) - writeat c" using less.prems(3,4) by auto
  show ?case
  proof (cases "length bs \<le> cap c")
    case True
    moreover have "0 < length bs" using less.prems(6) by simp
    ultimately have one: "length bs = 1"
      using less.prems(5) by (cases "length bs = cap c") (auto simp: ends_single_def le_Suc_eq)
    then have ps: "pieces (cap c) bs = [bs]" using cap less.prems(6) True by (simp add: pieces.simps)
    let ?c = "c\<lparr>waiting := 1, waitat := 1, ack := False\<rparr>"
    have 1: "chunks_push c = (?c, Some [1])"
      using push_size [OF less.prems(1,2), of 1] one rest cap by simp
    have "take 1 (drop (writeat c) (raw p)) = bs" using less.prems(4) one by simp
    then have 2: "chunks_push ?c =
        (c\<lparr>writing := ps, writeat := 0, ack := False, blocked := blocking c\<rparr>, Some bs)"
      using push_last_byte [of ?c p ps] less.prems(1,2) one rest by (simp add: between_def)
    show ?thesis using 1 2 one by (simp add: ps piece_blocks_def Let_def case_prod_unfold)
  next
    case False
    let ?x = "take (cap c) bs" and ?ds = "drop (cap c) bs"
    let ?c = "c\<lparr>writeat := writeat c + length ?x, ack := False\<rparr>"
    have blocks: "pieces (cap c) bs = ?x # pieces (cap c) ?ds"
      using False cap by (subst pieces.simps) auto
    have "ends_single (cap c) ?ds" using less.prems(5) ends_single_drop [of "cap c" bs] False by simp
    moreover have "drop (writeat ?c) (raw p) = ?ds"
      using less.prems(4) by (auto simp: add.commute min_def)
    moreover have "writeat ?c \<le> lob_len (Some p)" using rest less.prems(7) False by auto
    ultimately have IH: "chunks_drain (length (concat (map piece_blocks (pieces (cap c) ?ds))) + m) ?c =
        (let (c', ds) = chunks_drain m (c\<lparr>writing := ps, writeat := 0, ack := False, blocked := blocking c\<rparr>)
         in (c', concat (map piece_blocks (pieces (cap c) ?ds)) @ ds))"
      using less.hyps [of ?ds ?c] less.prems(1-3) False cap by (simp add: between_def)
    have len: "length (concat (map piece_blocks (pieces (cap c) bs))) + m =
        Suc (Suc (length (concat (map piece_blocks (pieces (cap c) ?ds))) + m))"
      by (simp add: blocks piece_blocks_def)
    have one: "length bs \<noteq> 1" using False cap by auto
    show ?thesis
      unfolding len
      using drain_piece [OF less.prems(1-4,6) one, of "length (concat (map piece_blocks (pieces (cap c) ?ds))) + m"] IH
      by (simp add: blocks Let_def case_prod_unfold)
  qed
qed

text \<open>
  C37. A packet whose last piece is a single byte is never delivered: that byte, written alone, is
  taken for the zero that ends the packet, so the zero is not sent. The sender drops the packet as
  sent, and the receiver, given every byte, has no packet.
\<close>

theorem chunks_terminator_lost:
  assumes "sz \<le> 255" and "n = cap (util_chunks_new sz)"
    and "encodable p" and "ends_single n (raw p)"
    and "length (concat (map piece_blocks (pieces n (raw p)))) \<le> N"
    and "(c, blks) = chunks_drain N (chunks_send_all (util_chunks_new sz) [p])"
  shows "writing c = [] \<and> concat (map tl (map chunk_bytes (pieces n (raw p)))) = raw p \<and>
    concat blks = concat (map chunk_bytes (pieces n (raw p))) \<and>
    snd (util_chunks_receive (util_chunks_append (util_chunks_new sz') (concat blks))) = None"
proof -
  let ?s = "util_chunks_new sz\<lparr>writing := [p]\<rparr>" and ?r = "util_chunks_new sz'"
  let ?k = "length (concat (map piece_blocks (pieces n (raw p))))"
  have cap: "cap ?s = n" by (simp add: assms(2))
  have n: "0 < n" "n \<le> 255" using util_chunks_new_cap [OF assms(1)] by (simp_all add: assms(2))
  have raw: "length (raw p) = lob_len (Some p)" "raw p \<noteq> []" using encodable_raw [OF assms(3)] by simp_all
  let ?e = "util_chunks_new sz\<lparr>blocked := True\<rparr>"
  have "chunks_drain (length (concat (map piece_blocks (pieces (cap ?s) (raw p)))) + (N - ?k)) ?s =
      (let (c', ds) = chunks_drain (N - ?k) (?s\<lparr>writing := [], writeat := 0, ack := False, blocked := blocking ?s\<rparr>)
       in (c', concat (map piece_blocks (pieces (cap ?s) (raw p))) @ ds))"
    by (rule drain_single [where p = p])
      (use n raw assms(4) in \<open>simp_all add: between_def cap, simp_all add: util_chunks_new_def\<close>)
  moreover have "?s\<lparr>writing := [], writeat := 0, ack := False, blocked := blocking ?s\<rparr> = ?e"
    by (simp add: util_chunks_new_def)
  moreover have "chunks_drain (N - ?k) ?e = (?e, [])"
    by (rule drain_none) (simp add: push_blocked)
  moreover have "chunks_send_all (util_chunks_new sz) [p] = ?s"
    by (simp add: chunks_send_all) (simp add: util_chunks_new_def)
  ultimately have out: "c = ?e" "blks = concat (map piece_blocks (pieces n (raw p)))"
    using assms(5,6) unfolding cap by simp_all
  have wire: "concat blks = concat (map chunk_bytes (pieces n (raw p)))"
    unfolding out(2) by (rule concat_piece_blocks)
  have ok: "reading_ok ?r" "chunk_quota ?r = 0" "reading ?r = []"
    by (simp_all add: reading_ok_def chunk_quota_def util_chunks_new_def)
  have small: "\<forall>x \<in> set (pieces n (raw p)). length x \<le> 255"
    using pieces_sizes [of _ n "raw p"] n(2) by fastforce
  have "reading (util_chunks_append ?r (concat blks)) = rev (map chunk_of (pieces n (raw p)))"
    using append_chunks [OF ok(2,1) small] ok(3) by (simp add: wire)
  moreover have "find_flush ks = None" if "list_all (\<lambda>k. ck_size k \<noteq> 0) ks" for ks
    using that by (induction ks) auto
  moreover have "list_all (\<lambda>k. ck_size k \<noteq> 0) (rev (map chunk_of (pieces n (raw p))))"
    using pieces_sizes [of _ n "raw p"] by (auto simp: list_all_iff chunk_of_def)
  ultimately have "snd (util_chunks_receive (util_chunks_append ?r (concat blks))) = None"
    by (subst util_chunks_receive.simps) simp
  moreover have "concat (map tl (map chunk_bytes (pieces n (raw p)))) = raw p"
    using concat_pieces [OF n(1), of "raw p"] by (simp add: chunk_bytes_def comp_def)
  ultimately show ?thesis using wire out(1) by (simp add: util_chunks_new_def)
qed

theorem chunks_terminator_lost_witness:
  "snd (util_chunks_receive (util_chunks_append (util_chunks_new 0) [4, 0, 1, 7, 8, 1, 9])) = None"
proof -
  let ?c = "chunks_drain 4 (chunks_send_all (util_chunks_new 5) [demo_lob 7])"
  have ps: "pieces 4 (raw (demo_lob 7)) = [[0, 1, 7, 8], [9]]"
    by (simp add: pieces.simps demo_lob_def)
  have t: "snd (util_chunks_receive (util_chunks_append (util_chunks_new 0) (concat (snd ?c)))) = None \<and>
      concat (snd ?c) = concat (map chunk_bytes (pieces 4 (raw (demo_lob 7))))"
  proof -
    have "4 = cap (util_chunks_new 5)" by (simp add: util_chunks_new_def)
    moreover have "ends_single 4 (raw (demo_lob 7))" by (simp add: ends_single_def demo_lob_def)
    moreover have "length (concat (map piece_blocks (pieces 4 (raw (demo_lob 7))))) \<le> 4"
      by (simp add: ps piece_blocks_def)
    ultimately have t: "writing (fst ?c) = [] \<and>
        concat (map tl (map chunk_bytes (pieces 4 (raw (demo_lob 7))))) = raw (demo_lob 7) \<and>
        concat (snd ?c) = concat (map chunk_bytes (pieces 4 (raw (demo_lob 7)))) \<and>
        snd (util_chunks_receive (util_chunks_append (util_chunks_new 0) (concat (snd ?c)))) = None"
      by (intro chunks_terminator_lost [OF _ _ encodable_demo_lob _ _ prod.collapse]) simp_all
    show ?thesis using t by (elim conjE) (intro conjI)
  qed
  have wire: "concat (snd ?c) = [4, 0, 1, 7, 8, 1, 9]"
    unfolding t [THEN conjunct2] by (simp add: ps chunk_bytes_def)
  show ?thesis using t [THEN conjunct1] unfolding wire .
qed

section \<open>Blocking\<close>

text \<open>
  A blocking sender sends a whole packet in one go, however many full chunks it has, and then
  nothing more until a chunk comes in: the byte that starts one lets it go on.
\<close>

theorem chunks_block_after_packet:
  assumes "between c" and "writing c = p # ps" and "writeat c = 0" and "blocking c"
    and "encodable p" and "\<not> ends_single (cap c) (raw p)" and "chunk_quota c = 0"
    and "(c', blks) = chunks_drain (length (packet_blocks (cap c) (raw p)) + m) c"
  shows "blks = packet_blocks (cap c) (raw p) \<and> writing c' = ps \<and> blocked c' \<and>
    snd (chunks_push c') = None \<and> \<not> blocked (chunk_start c' b) \<and>
    util_chunks_append c' (b # bs) = util_chunks_append (chunk_start c' b) bs"
proof -
  let ?e = "c\<lparr>writing := ps, writeat := 0, ack := False, blocked := True\<rparr>"
  have "chunks_drain m ?e = (?e, [])" by (rule drain_none) (simp add: push_blocked)
  then have out: "c' = ?e" "blks = packet_blocks (cap c) (raw p)"
    using drain_pieces [OF assms(1,2), of "raw p" m] encodable_raw [OF assms(5)] assms(3,4,6,8)
    by (simp_all add: Let_def)
  have "util_chunks_append c' (b # bs) = util_chunks_append (chunk_start c' b) bs"
    using assms(7) by (intro append_start) (cases "reading c"; simp add: out(1) chunk_quota_def)
  then show ?thesis
    by (simp add: out push_blocked chunk_start_def util_chunk_new_def Let_def)
qed

theorem chunks_block_after_packet_witness:
  "snd (chunks_drain 9 (chunks_send_all (util_chunks_new 4) [demo_lob 7, demo_lob 6])) =
     packet_blocks 3 (raw (demo_lob 7))"
proof -
  let ?c = "chunks_send_all (util_chunks_new 4) [demo_lob 7, demo_lob 6]"
  have c: "?c = util_chunks_new 4\<lparr>writing := [demo_lob 7, demo_lob 6]\<rparr>"
    by (simp add: chunks_send_all) (simp add: util_chunks_new_def)
  have ps: "packet_blocks 3 (raw (demo_lob 7)) = [[3], [0, 1, 7], [2], [8, 9], [0]]"
    by (simp add: packet_blocks_def pieces.simps piece_blocks_def demo_lob_def)
  have b: "between ?c" "writeat ?c = 0" "blocking ?c" "chunk_quota ?c = 0"
    by (simp_all add: c) (simp_all add: between_def util_chunks_new_def chunk_quota_def)
  have w: "writing ?c = demo_lob 7 # [demo_lob 6]" by (simp add: c)
  have "cap ?c = 3" by (simp add: c) (simp add: util_chunks_new_def)
  then have e: "\<not> ends_single (cap ?c) (raw (demo_lob 7))"
    by (simp add: ends_single_def) (simp add: demo_lob_def)
  have "snd (chunks_drain (length (packet_blocks (cap ?c) (raw (demo_lob 7))) + 4) ?c) =
      packet_blocks (cap ?c) (raw (demo_lob 7))"
    using chunks_block_after_packet [OF b(1) w b(2,3) encodable_demo_lob e b(4) prod.collapse] by blast
  then show ?thesis using \<open>cap ?c = 3\<close> by (simp add: ps)
qed

section \<open>Bounds\<close>

text \<open>
  The writing side between calls: the chunk being written lies in the packet and the offset in the
  chunk; without a packet nothing is being written.
\<close>

definition writing_ok :: "chunks \<Rightarrow> bool" where
  "writing_ok c \<longleftrightarrow>
     (case writing c of
        [] \<Rightarrow> writeat c = 0 \<and> waiting c = 0 \<and> waitat c = 0
      | p # _ \<Rightarrow> writeat c + waiting c \<le> lob_len (Some p) \<and> waiting c \<le> cap c \<and> waitat c \<le> waiting c)"

definition chunks_ok :: "chunks \<Rightarrow> bool" where
  "chunks_ok c \<longleftrightarrow> reading_ok c \<and> writing_ok c \<and> 0 < cap c \<and> cap c \<le> 255"

lemma reading_frame:
  "reading_ok (c\<lparr>waiting := a\<rparr>) = reading_ok c" "reading_ok (c\<lparr>waitat := a\<rparr>) = reading_ok c"
  "reading_ok (c\<lparr>writeat := a\<rparr>) = reading_ok c" "reading_ok (c\<lparr>ack := b\<rparr>) = reading_ok c"
  "reading_ok (c\<lparr>blocked := b\<rparr>) = reading_ok c" "reading_ok (c\<lparr>writing := ps\<rparr>) = reading_ok c"
  "reading_ok (c\<lparr>err := b\<rparr>) = reading_ok c"
  by (simp_all add: reading_ok_def cong: list.case_cong)

lemma chunks_ok_len:
  assumes "chunks_ok c" and "util_chunks_len c = (c', n)"
  shows "chunks_ok c'" and "n = 0 \<or> waitat c' = 0 \<and> n = 1 \<or> 0 < waitat c' \<and> waitat c' + n = waiting c' + 1"
    and "writing c' = writing c"
proof -
  have "chunks_ok c' \<and> writing c' = writing c \<and>
      (n = 0 \<or> waitat c' = 0 \<and> n = 1 \<or> 0 < waitat c' \<and> waitat c' + n = waiting c' + 1)"
    using assms
    by (cases "writing c")
      (auto simp: util_chunks_len_def chunks_ok_def writing_ok_def reading_frame Let_def split: if_splits)
  then show "chunks_ok c'" "writing c' = writing c"
    "n = 0 \<or> waitat c' = 0 \<and> n = 1 \<or> 0 < waitat c' \<and> waitat c' + n = waiting c' + 1"
    by simp_all
qed

lemma chunks_ok_done:
  assumes "chunks_ok c"
  shows "chunks_ok (chunk_done len (c\<lparr>waitat := k, ack := b\<rparr>))"
  using assms
  by (cases "writing c")
    (auto simp: chunk_done_def chunks_ok_def writing_ok_def reading_frame Let_def split: list.split)

lemma chunks_ok_waitat:
  "chunks_ok c \<Longrightarrow> k \<le> waiting c \<Longrightarrow> chunks_ok (c\<lparr>waitat := k, ack := b\<rparr>)"
  by (cases "writing c") (auto simp: chunks_ok_def writing_ok_def reading_frame)

lemma chunks_ok_written [wf_intros]:
  assumes "chunks_ok c"
  shows "chunks_ok (fst (util_chunks_written c len))"
proof (cases "len = 0")
  case False
  obtain c' n where l: "util_chunks_len c = (c', n)" by fastforce
  note ok = chunks_ok_len [OF assms l]
  let ?c = "c'\<lparr>waitat := waitat c' + len, ack := False\<rparr>"
  have "chunks_ok (if waitat c' + len > waiting c' then chunk_done len ?c else ?c)"
    using chunks_ok_waitat [OF ok(1), of "waitat c' + len" False] chunks_ok_done [OF ok(1)] by auto
  then show ?thesis using False ok(1) by (auto simp: util_chunks_written_def l Let_def)
qed (simp add: util_chunks_written_def assms)

lemma chunks_ok_send [wf_intros]: "chunks_ok c \<Longrightarrow> chunks_ok (util_chunks_send c p)"
  by (cases "writing c") (auto simp: util_chunks_send_def chunks_ok_def writing_ok_def reading_frame)

text \<open>Reading leaves the writing side alone, but for the flags.\<close>

lemma writing_ok_cong:
  "writing_ok c \<Longrightarrow> writing c' = writing c \<Longrightarrow> writeat c' = writeat c \<Longrightarrow> waiting c' = waiting c \<Longrightarrow>
     waitat c' = waitat c \<Longrightarrow> cap c' = cap c \<Longrightarrow> writing_ok c'"
  by (cases "writing c") (simp_all add: writing_ok_def)

definition same_writing :: "chunks \<Rightarrow> chunks \<Rightarrow> bool" where
  "same_writing c c' \<longleftrightarrow> writing c' = writing c \<and> writeat c' = writeat c \<and> waiting c' = waiting c \<and>
     waitat c' = waitat c \<and> cap c' = cap c"

lemma same_writing_append: "same_writing c (util_chunks_append c bs)"
proof (induction c bs rule: util_chunks_append.induct)
  case (2 c b bs)
  have 1: "same_writing c (chunk_start c b)"
    by (simp add: same_writing_def chunk_start_def util_chunk_new_def Let_def)
  have 3: "same_writing c (chunk_fill c xs)" for xs
    by (simp add: same_writing_def chunk_fill_def split: list.split)
  show ?case
    using 2 1 3 by (subst util_chunks_append.simps) (auto simp: same_writing_def Let_def)
qed (simp add: same_writing_def append_Nil)

lemma chunks_ok_append [wf_intros]: "chunks_ok c \<Longrightarrow> chunks_ok (util_chunks_append c bs)"
  using same_writing_append [of c bs] writing_ok_cong [of c "util_chunks_append c bs"]
  by (simp add: chunks_ok_def same_writing_def reading_ok_append)

lemma find_flush_split: "find_flush ks = Some (newer, older) \<Longrightarrow> \<exists>k. ks = newer @ k # older"
  by (induction ks arbitrary: newer) (auto split: option.splits if_splits)

lemma chunks_ok_receive [wf_intros]: "chunks_ok c \<Longrightarrow> chunks_ok (fst (util_chunks_receive c))"
proof (induction c rule: util_chunks_receive.induct)
  case (1 c)
  show ?case
  proof (cases "find_flush (reading c)")
    case None
    then show ?thesis using 1 by (subst util_chunks_receive.simps) simp
  next
    case (Some r)
    obtain newer older where r: "r = (newer, older)" by fastforce
    let ?c = "c\<lparr>reading := newer\<rparr>"
    have "reading_ok ?c"
      using 1(2) find_flush_split [of "reading c" newer older] Some r
      by (cases newer) (auto simp: chunks_ok_def reading_ok_def)
    then have ok: "chunks_ok ?c"
      using 1(2) writing_ok_cong [of c ?c] by (simp add: chunks_ok_def)
    show ?thesis
    proof (cases "older = []")
      case True
      then show ?thesis
        using 1(1) [OF Some] ok r Some by (subst util_chunks_receive.simps) simp
    next
      case False
      have "chunks_ok (?c\<lparr>ack := True, err := e\<rparr>)" for e
        using ok writing_ok_cong [of ?c "?c\<lparr>ack := True, err := e\<rparr>"]
        by (simp add: chunks_ok_def reading_frame)
      then show ?thesis using False Some r by (subst util_chunks_receive.simps) (simp add: Let_def)
    qed
  qed
qed

text \<open>Any use of the component, by a transport for streams or for whole chunks.\<close>

datatype chunks_call =
    OpSend lob | OpRead bytes | OpChunk bytes | OpReceive | OpLen | OpWritten nat | OpNext

fun chunks_op :: "chunks_call \<Rightarrow> chunks \<Rightarrow> chunks" where
  "chunks_op (OpSend p) c = util_chunks_send c p"
| "chunks_op (OpRead bs) c = fst (util_chunks_read c bs)"
| "chunks_op (OpChunk bs) c = util_chunks_chunk c bs"
| "chunks_op OpReceive c = fst (util_chunks_receive c)"
| "chunks_op OpLen c = fst (util_chunks_len c)"
| "chunks_op (OpWritten n) c = fst (util_chunks_written c n)"
| "chunks_op OpNext c = fst (util_chunks_next c)"

lemma chunks_ok_op: "chunks_ok c \<Longrightarrow> chunks_ok (chunks_op op c)"
proof (cases op)
  case OpNext
  assume ok: "chunks_ok c"
  obtain c' n where l: "util_chunks_len c = (c', n)" by fastforce
  have ok': "chunks_ok c'" using chunks_ok_len(1) [OF ok l] .
  have 2: "chunks_ok (fst (util_chunks_written c'' m))" if "fst (util_chunks_written c' 1) = c''" for c'' m
    using chunks_ok_written [OF ok', of 1] that chunks_ok_written by simp
  show ?thesis
    using ok' 2 chunks_ok_written [OF ok', of 1]
    by (auto simp: OpNext util_chunks_next_def util_chunks_size_def l split: prod.splits option.splits bool.splits)
next
  case OpLen
  assume "chunks_ok c"
  then show ?thesis using chunks_ok_len(1) [of c] by (cases "util_chunks_len c") (simp add: OpLen)
qed (simp_all add: wf_intros util_chunks_read_def util_chunks_chunk_def Let_def)

inductive chunks_does :: "chunks \<Rightarrow> chunks_call \<Rightarrow> chunks \<Rightarrow> bool" where
  chunks_doesI: "chunks_does c op (chunks_op op c)"

inductive_simps chunks_does_simps: "chunks_does c op c'"

interpretation ci: event_invariant chunks_does "\<lambda>_. True" chunks_ok
  by unfold_locales (auto simp: chunks_does_simps chunks_ok_op)

lemma chunks_op_runs: "runs chunks_does c ops (fold chunks_op ops c)"
  by (induction ops arbitrary: c) (auto intro: chunks_doesI)

lemma chunks_ok_new: "sz \<le> 255 \<Longrightarrow> chunks_ok (util_chunks_new sz)"
  using util_chunks_new_cap [of sz]
  by (auto simp: chunks_ok_def reading_ok_def writing_ok_def util_chunks_new_def)

text \<open>
  C38. Whatever is sent, read and reported, no counter leaves its width and no access leaves its block:
  every chunk holds as many bytes as its length says, at most 255; the offsets stay below 256; and
  where data of a packet are offered for writing, that many bytes are left in the packet.
\<close>

theorem chunks_in_bounds:
  assumes "sz \<le> 255" and "runs chunks_does (util_chunks_new sz) ops c"
    and "util_chunks_len c = (c', n)"
  shows "list_all chunk_ok (reading c) \<and> cap c \<le> 255 \<and> waitat c \<le> 255 \<and> waiting c \<le> 255 \<and> n \<le> 255 \<and>
    (case writing c of
       [] \<Rightarrow> waitat c' = 0
     | p # _ \<Rightarrow> waitat c' = 0 \<or> writeat c' + (waitat c' - 1) + n \<le> lob_len (Some p))"
proof -
  have ok: "chunks_ok c" using ci.runs_inv [OF assms(2) _ chunks_ok_new [OF assms(1)]] by (simp add: list_all_iff)
  note l = chunks_ok_len [OF ok assms(3)]
  have "waitat c \<le> waiting c" "waiting c \<le> cap c" "cap c \<le> 255" "waiting c' \<le> cap c'" "cap c' \<le> 255"
    "list_all chunk_ok (reading c)"
    using ok l(1) by (auto simp: chunks_ok_def writing_ok_def reading_ok_def split: list.splits)
  moreover have "case writing c of
       [] \<Rightarrow> waitat c' = 0
     | p # _ \<Rightarrow> waitat c' = 0 \<or> writeat c' + (waitat c' - 1) + n \<le> lob_len (Some p)"
    using l by (auto simp: chunks_ok_def writing_ok_def split: list.splits)
  ultimately show ?thesis using l(2) by auto
qed

theorem chunks_in_bounds_witness:
  "list_all chunk_ok (reading (fold chunks_op [OpSend (demo_lob 7), OpWritten 1, OpRead [2, 5]] (util_chunks_new 4)))"
  using chunks_in_bounds [OF _ chunks_op_runs prod.collapse [symmetric],
      of 4 "[OpSend (demo_lob 7), OpWritten 1, OpRead [2, 5]]"]
  by simp

end
