(* ===== verification/JsBridge.thy ===== *)
theory JsBridge
  imports Prelude
begin

text \<open>
  The bridge between JavaScript and the compiled C library, \<open>js/include/index.js\<close>, with the
  functions of the runtime it calls (\<open>js/include/thc.js\<close>, first line): values of the caller
  become numbers and addresses in the library's heap, results become values again.

  A JavaScript string is the list of its UTF-16 code units. The heap is a typed array: a store
  outside it has no effect and a read outside it gives \<open>undefined\<close>, which the runtime's bit
  operations take for 0. \<open>malloc\<close> is a parameter: it picks the address for a size given the
  blocks that are live. Functions and objects are named by numbers.
\<close>

type_synonym js_string = "nat list"

datatype js_error = TypeError | ReferenceError string | SyntaxError | Thrown string

datatype js_value =
    JNumber int
  | JString js_string
  | JFunction nat
  | JBuffer bytes
  | JObject nat
  | JNull
  | JUndefined
  | JBoolean bool
  | JSymbol nat
  | JErrorObject string

record bridge =
  heap :: bytes
  blocks :: "(nat \<times> nat) list" \<comment> \<open>address and size of what was allocated, newest first\<close>
  functionPointers :: "nat option list"

section \<open>The runtime\<close>

text \<open>\<open>stringToUTF8Array\<close>, on an array that has the room.\<close>

fun utf8 :: "js_string \<Rightarrow> bytes" where
  "utf8 [] = []"
| "utf8 (c # cs) =
     (if 55296 \<le> c \<and> c \<le> 57343 then
        let u = 65536 + (c mod 1024) * 1024 + (case cs of [] \<Rightarrow> 0 | d # _ \<Rightarrow> d mod 1024) in
        of_nat (240 + u div 262144) # of_nat (128 + u div 4096 mod 64) #
        of_nat (128 + u div 64 mod 64) # of_nat (128 + u mod 64) #
        (case cs of [] \<Rightarrow> [] | _ # ds \<Rightarrow> utf8 ds)
      else if c \<le> 127 then of_nat c # utf8 cs
      else if c \<le> 2047 then of_nat (192 + c div 64) # of_nat (128 + c mod 64) # utf8 cs
      else
        of_nat (224 + c div 4096) # of_nat (128 + c div 64 mod 64) # of_nat (128 + c mod 64) # utf8 cs)"

definition intArrayFromString :: "js_string \<Rightarrow> bytes" where
  "intArrayFromString s = utf8 s @ [0]"

fun writeArrayToMemory :: "bytes \<Rightarrow> nat \<Rightarrow> bytes \<Rightarrow> bytes" where
  "writeArrayToMemory [] ptr h = h"
| "writeArrayToMemory (x # xs) ptr h = writeArrayToMemory xs (ptr + 1) (h[ptr := x])"

definition writeStringToMemory :: "js_string \<Rightarrow> nat \<Rightarrow> bytes \<Rightarrow> bytes" where
  "writeStringToMemory s ptr h = writeArrayToMemory (intArrayFromString s) ptr h"

definition heap_at :: "bytes \<Rightarrow> nat \<Rightarrow> nat" where
  "heap_at h i = (if i < length h then unat (h ! i) else 0)"

text \<open>\<open>getValue\<close> of type \<open>i8\<close>: the signed byte.\<close>

definition getValue :: "bytes \<Rightarrow> nat \<Rightarrow> int" where
  "getValue h ptr = (if ptr < length h then sint (h ! ptr) else 0)"

text \<open>\<open>String.fromCharCode\<close> of a code point, as one or two code units.\<close>

definition from_code :: "nat \<Rightarrow> js_string" where
  "from_code u =
     (if u < 65536 then [u]
      else let ch = u - 65536 in [55296 + ch div 1024 mod 1024, 56320 + ch mod 1024])"

text \<open>\<open>UTF8ArrayToString\<close>, which also reads the sequences of five and six bytes.\<close>

function UTF8ArrayToString :: "bytes \<Rightarrow> nat \<Rightarrow> js_string" where
  "UTF8ArrayToString h idx =
     (let u0 = heap_at h idx; at = (\<lambda>k. heap_at h (idx + k) mod 64) in
      if u0 = 0 then []
      else if u0 < 128 then u0 # UTF8ArrayToString h (idx + 1)
      else if u0 div 32 = 6 then
        ((u0 mod 32) * 64 + at 1) # UTF8ArrayToString h (idx + 2)
      else if u0 div 16 = 14 then
        from_code ((u0 mod 16) * 4096 + at 1 * 64 + at 2) @ UTF8ArrayToString h (idx + 3)
      else if u0 div 8 = 30 then
        from_code ((u0 mod 8) * 262144 + at 1 * 4096 + at 2 * 64 + at 3) @ UTF8ArrayToString h (idx + 4)
      else if u0 div 4 = 62 then
        from_code ((u0 mod 4) * 16777216 + at 1 * 262144 + at 2 * 4096 + at 3 * 64 + at 4) @
          UTF8ArrayToString h (idx + 5)
      else
        from_code ((u0 mod 2) * 1073741824 + at 1 * 16777216 + at 2 * 262144 + at 3 * 4096 +
          at 4 * 64 + at 5) @ UTF8ArrayToString h (idx + 6))"
  by pat_completeness auto
termination
  by (relation "measure (\<lambda>(h, idx). length h - idx)") (auto simp: heap_at_def split: if_splits)

declare UTF8ArrayToString.simps [simp del]

text \<open>\<open>Runtime.addFunction\<close>: the first free slot of the reserved function pointers.\<close>

fun free_slot :: "nat option list \<Rightarrow> nat option" where
  "free_slot [] = None"
| "free_slot (None # fs) = Some 0"
| "free_slot (Some f # fs) = map_option Suc (free_slot fs)"

definition addFunction :: "nat \<Rightarrow> bridge \<Rightarrow> js_error + (bridge \<times> int)" where
  "addFunction f b =
     (case free_slot (functionPointers b) of
        None \<Rightarrow> Inl (Thrown ''Finished up all reserved function pointers'')
      | Some i \<Rightarrow>
          Inr (b\<lparr>functionPointers := (functionPointers b)[i := Some f]\<rparr>, 2 * (1 + int i)))"

section \<open>Arguments\<close>

text \<open>
  What a wrapper hands to the compiled function: a number, or an \<open>Error\<close> object, which the
  wrapper for objects creates without throwing it.
\<close>

datatype c_arg = CNum int | CErrorObject string

definition makeVarPointer ::
  "((nat \<times> nat) list \<Rightarrow> nat \<Rightarrow> nat) \<Rightarrow> nat \<Rightarrow> (nat \<Rightarrow> bytes \<Rightarrow> bytes) \<Rightarrow> nat \<Rightarrow> bridge \<Rightarrow> bridge \<times> nat"
where
  "makeVarPointer malloc len write mallextra b =
     (let ptr = malloc (blocks b) (len + mallextra)
      in (b\<lparr>blocks := (ptr, len + mallextra) # blocks b, heap := write ptr (heap b)\<rparr>, ptr))"

text \<open>
  \<open>Wrappers[typeof _arg](_arg)\<close>. There is no wrapper for a symbol. \<open>typeof null\<close> is
  \<open>"object"\<close>.
\<close>

definition wrap_arg ::
  "((nat \<times> nat) list \<Rightarrow> nat \<Rightarrow> nat) \<Rightarrow> js_value \<Rightarrow> bridge \<Rightarrow> js_error + (bridge \<times> c_arg)" where
  "wrap_arg malloc v b =
     (case v of
        JNumber n \<Rightarrow> Inr (b, CNum n)
      | JFunction f \<Rightarrow>
          (case addFunction f b of Inl e \<Rightarrow> Inl e | Inr (b', p) \<Rightarrow> Inr (b', CNum p))
      | JString s \<Rightarrow>
          (let (b', p) = makeVarPointer malloc (length s) (writeStringToMemory s) 1 b
           in Inr (b', CNum (int p)))
      | JBuffer bs \<Rightarrow>
          (let (b', p) = makeVarPointer malloc (length bs) (writeArrayToMemory bs) 0 b
           in Inr (b', CNum (int p)))
      | JNull \<Rightarrow> Inr (b, CNum 0)
      | JObject _ \<Rightarrow>
          Inr (b, CErrorObject ''only numbers, strings, functions, and buffers accepted'')
      | JErrorObject _ \<Rightarrow>
          Inr (b, CErrorObject ''only numbers, strings, functions, and buffers accepted'')
      | JUndefined \<Rightarrow> Inr (b, CNum 0)
      | JBoolean t \<Rightarrow> Inr (b, CNum (if t then 1 else 0))
      | JSymbol _ \<Rightarrow> Inl TypeError)"

fun wrap_args ::
  "((nat \<times> nat) list \<Rightarrow> nat \<Rightarrow> nat) \<Rightarrow> js_value list \<Rightarrow> bridge \<Rightarrow> js_error + (bridge \<times> c_arg list)" where
  "wrap_args malloc [] b = Inr (b, [])"
| "wrap_args malloc (v # vs) b =
     (case wrap_arg malloc v b of
        Inl e \<Rightarrow> Inl e
      | Inr (b', a) \<Rightarrow>
          (case wrap_args malloc vs b' of
             Inl e \<Rightarrow> Inl e
           | Inr (b'', as) \<Rightarrow> Inr (b'', a # as)))"

section \<open>Results\<close>

text \<open>The keys of \<open>Unwrappers\<close>, and the types declared in \<open>returntypes\<close>.\<close>

datatype unwrapper = UPointer | UNumber | UString | UJson

definition returntypes :: "string \<Rightarrow> unwrapper option" where
  "returntypes key =
     (if key = ''_lob_json'' then Some UJson
      else if key = ''_hashname_short'' then Some UString
      else if key = ''_jwt_encode'' then Some UString
      else if key = ''_lob_get'' then Some UString
      else None)"

definition unwrap ::
  "(js_string \<Rightarrow> js_error + js_value) \<Rightarrow> unwrapper \<Rightarrow> int \<Rightarrow> bridge \<Rightarrow> js_error + js_value" where
  "unwrap json_parse t val b =
     (case t of
        UPointer \<Rightarrow> Inr (JNumber val)
      | UNumber \<Rightarrow> Inr (JNumber val)
      | UString \<Rightarrow> Inr (JString (UTF8ArrayToString (heap b) (nat val)))
      | UJson \<Rightarrow> json_parse (UTF8ArrayToString (heap b) (nat val)))"

text \<open>
  \<open>wrapFun(_fun, returntype)\<close> applied to arguments; \<open>cfun\<close> is the compiled function as a
  transformer of the bridge state.
\<close>

definition wrapFun ::
  "((nat \<times> nat) list \<Rightarrow> nat \<Rightarrow> nat) \<Rightarrow> (js_string \<Rightarrow> js_error + js_value) \<Rightarrow>
   (c_arg list \<Rightarrow> bridge \<Rightarrow> bridge \<times> int) \<Rightarrow> unwrapper option \<Rightarrow> js_value list \<Rightarrow> bridge \<Rightarrow>
   js_error + (bridge \<times> js_value)" where
  "wrapFun malloc json_parse cfun returntype args b =
     (case wrap_args malloc args b of
        Inl e \<Rightarrow> Inl e
      | Inr (b', as) \<Rightarrow>
          (let (b'', ret) = cfun as b' in
           case unwrap json_parse (case returntype of None \<Rightarrow> UNumber | Some t \<Rightarrow> t) ret b'' of
             Inl e \<Rightarrow> Inl e
           | Inr v \<Rightarrow> Inr (b'', v)))"

text \<open>
  The names under which the exports \<open>keys\<close> appear: those that start with an underscore lose it
  (\<open>th.<name>\<close>), and those of them with an underscore after their first letter become global.
\<close>

definition th_names :: "string list \<Rightarrow> string list" where
  "th_names keys = map tl (filter (\<lambda>k. k \<noteq> [] \<and> hd k = CHR ''_'') keys)"

definition global_names :: "string list \<Rightarrow> string list" where
  "global_names keys = filter (\<lambda>fn. fn \<noteq> [] \<and> CHR ''_'' \<in> set fn \<and> hd fn \<noteq> CHR ''_'') (th_names keys)"

text \<open>
  \<open>th.CALLBACK(fun, types)\<close> applied to arguments: they are converted, and then the name \<open>_fun\<close>
  is used, which is not defined there (the parameter is called \<open>fun\<close>).
\<close>

fun unwrap_all ::
  "(js_string \<Rightarrow> js_error + js_value) \<Rightarrow> unwrapper option list \<Rightarrow> int list \<Rightarrow> bridge \<Rightarrow> js_error + js_value list"
where
  "unwrap_all json_parse ts [] b = Inr []"
| "unwrap_all json_parse ts (v # vs) b =
     (case unwrap json_parse (case ts of Some t # _ \<Rightarrow> t | _ \<Rightarrow> UNumber) v b of
        Inl e \<Rightarrow> Inl e
      | Inr a \<Rightarrow>
          (case unwrap_all json_parse (tl ts) vs b of Inl e \<Rightarrow> Inl e | Inr as \<Rightarrow> Inr (a # as)))"

definition th_CALLBACK ::
  "(js_string \<Rightarrow> js_error + js_value) \<Rightarrow> nat \<Rightarrow> unwrapper option list \<Rightarrow> int list \<Rightarrow> bridge \<Rightarrow> js_error + js_value"
where
  "th_CALLBACK json_parse fn types args b =
     (case unwrap_all json_parse types args b of
        Inl e \<Rightarrow> Inl e
      | Inr _ \<Rightarrow> Inl (ReferenceError ''_fun''))"

text \<open>\<open>th.BUFFER(ptr, len)\<close>: a byte stored to a \<open>Buffer\<close> is the value modulo 256.\<close>

definition th_BUFFER :: "bridge \<Rightarrow> nat \<Rightarrow> nat \<Rightarrow> bytes" where
  "th_BUFFER b ptr len = map (\<lambda>i. of_int (getValue (heap b) (ptr + i))) [0..<len]"

section \<open>Buffers\<close>

lemma writeArrayToMemory:
  "p + length xs \<le> length h \<Longrightarrow>
     writeArrayToMemory xs p h = take p h @ xs @ drop (p + length xs) h"
proof (induction xs arbitrary: p h)
  case (Cons x xs)
  have "take (p + 1) (h[p := x]) = take p h @ [x]"
    using Cons.prems by (simp add: take_Suc_conv_app_nth)
  with Cons show ?case by simp
qed simp

lemma length_writeArrayToMemory [simp]: "length (writeArrayToMemory xs p h) = length h"
  by (induction xs arbitrary: p h) auto

lemma writeArrayToMemory_other:
  "i < p \<or> p + length xs \<le> i \<Longrightarrow> writeArrayToMemory xs p h ! i = h ! i"
  by (induction xs arbitrary: p h) auto

lemma th_BUFFER_slice:
  "p + n \<le> length (heap b) \<Longrightarrow> th_BUFFER b p n = take n (drop p (heap b))"
  by (rule nth_equalityI) (auto simp: th_BUFFER_def getValue_def)

text \<open>
  What the emscripten allocator promises for the size asked: the block lies inside the heap and
  overlaps no live block.
\<close>

definition malloc_ok :: "((nat \<times> nat) list \<Rightarrow> nat \<Rightarrow> nat) \<Rightarrow> bridge \<Rightarrow> nat \<Rightarrow> bool" where
  "malloc_ok malloc b n \<longleftrightarrow>
     (let p = malloc (blocks b) n in
      p + n \<le> length (heap b) \<and> list_all (\<lambda>(q, k). q + k \<le> p \<or> p + n \<le> q) (blocks b))"

definition blocks_in_heap :: "bridge \<Rightarrow> bool" where
  "blocks_in_heap b \<longleftrightarrow> list_all (\<lambda>(q, k). q + k \<le> length (heap b)) (blocks b)"

text \<open>
  A buffer handed to the library arrives there: the wrapper passes the address of a block of
  the buffer's size, whose bytes, read back through \<open>th.BUFFER\<close>, are the buffer's, and what every
  block that was live before holds is untouched.
\<close>

theorem buffer_argument_roundtrip:
  assumes "malloc_ok malloc b (length bs)" and "blocks_in_heap b"
  shows "\<exists>b' p. wrap_arg malloc (JBuffer bs) b = Inr (b', CNum (int p)) \<and>
           (p, length bs) \<in> set (blocks b') \<and> th_BUFFER b' p (length bs) = bs \<and>
           blocks_in_heap b' \<and>
           list_all (\<lambda>(q, k). th_BUFFER b' q k = th_BUFFER b q k) (blocks b)"
proof -
  define p where "p = malloc (blocks b) (length bs)"
  define b' where
    "b' = b\<lparr>blocks := (p, length bs) # blocks b, heap := writeArrayToMemory bs p (heap b)\<rparr>"
  have fits: "p + length bs \<le> length (heap b)"
    and apart: "list_all (\<lambda>(q, k). q + k \<le> p \<or> p + length bs \<le> q) (blocks b)"
    using assms(1) by (simp_all add: malloc_ok_def p_def Let_def)
  have "wrap_arg malloc (JBuffer bs) b = Inr (b', CNum (int p))"
    by (simp add: wrap_arg_def makeVarPointer_def Let_def b'_def p_def)
  moreover have "th_BUFFER b' p (length bs) = bs"
    using fits by (simp add: th_BUFFER_slice b'_def writeArrayToMemory)
  moreover have "th_BUFFER b' q k = th_BUFFER b q k" if "(q, k) \<in> set (blocks b)" for q k
  proof -
    have "q + k \<le> p \<or> p + length bs \<le> q" using that apart by (auto simp: list_all_iff)
    then show ?thesis
      by (auto simp: th_BUFFER_def getValue_def b'_def writeArrayToMemory_other)
  qed
  moreover have "blocks_in_heap b'" using assms(2) fits by (simp add: blocks_in_heap_def b'_def)
  ultimately show ?thesis by (auto simp: b'_def list_all_iff)
qed

definition bump_malloc :: "(nat \<times> nat) list \<Rightarrow> nat \<Rightarrow> nat" where
  "bump_malloc bl n = (case bl of [] \<Rightarrow> 0 | (p, k) # _ \<Rightarrow> p + k)"

definition small_bridge :: bridge where
  "small_bridge = \<lparr>heap = replicate 12 7, blocks = [(0, 2)], functionPointers = [None, None]\<rparr>"

theorem buffer_argument_roundtrip_witness:
  "malloc_ok bump_malloc small_bridge (length [1, 200, 255 :: u8]) \<and>
   (\<exists>b' p. wrap_arg bump_malloc (JBuffer [1, 200, 255]) small_bridge = Inr (b', CNum (int p)) \<and>
           (p, length [1, 200, 255 :: u8]) \<in> set (blocks b') \<and>
           th_BUFFER b' p (length [1, 200, 255 :: u8]) = [1, 200, 255] \<and>
           blocks_in_heap b' \<and>
           list_all (\<lambda>(q, k). th_BUFFER b' q k = th_BUFFER small_bridge q k) (blocks small_bridge))"
proof (intro conjI buffer_argument_roundtrip)
  show "malloc_ok bump_malloc small_bridge (length [1, 200, 255 :: u8])"
    "malloc_ok bump_malloc small_bridge (length [1, 200, 255 :: u8])"
    by (simp_all add: malloc_ok_def bump_malloc_def small_bridge_def Let_def)
  show "blocks_in_heap small_bridge" by (simp add: blocks_in_heap_def small_bridge_def)
qed

section \<open>Strings\<close>

text \<open>UTF-16 in which every surrogate is one of a pair and no unit is 0.\<close>

fun wf_utf16 :: "js_string \<Rightarrow> bool" where
  "wf_utf16 [] = True"
| "wf_utf16 (c # cs) =
     (if 55296 \<le> c \<and> c \<le> 56319 then
        case cs of [] \<Rightarrow> False | d # ds \<Rightarrow> 56320 \<le> d \<and> d \<le> 57343 \<and> wf_utf16 ds
      else 0 < c \<and> c < 65536 \<and> \<not> (56320 \<le> c \<and> c \<le> 57343) \<and> wf_utf16 cs)"

lemma heap_at_drop:
  assumes "drop idx h = x # xs"
  shows "heap_at h idx = unat x" and "drop (Suc idx) h = xs"
proof -
  have lt: "idx < length h" using assms by (metis drop_all list.distinct(1) not_less)
  then have "h ! idx = x" using assms by (simp add: nth_via_drop)
  with lt show "heap_at h idx = unat x" by (simp add: heap_at_def)
  show "drop (Suc idx) h = xs" using assms lt by (simp add: Cons_nth_drop_Suc [symmetric])
qed

lemma unat_byte: "n < 256 \<Longrightarrow> unat (of_nat n :: u8) = n"
  by (simp add: unsigned_of_nat take_bit_nat_eq_self)

lemma from_code_pair:
  "x < 1024 \<Longrightarrow> y < 1024 \<Longrightarrow> from_code (65536 + x * 1024 + y) = [55296 + x, 56320 + y]"
proof -
  assume "x < 1024" "y < 1024"
  moreover have "65536 + x * 1024 + y - 65536 = y + x * 1024" by simp
  moreover have "(y + x * 1024) div 1024 = x" "(y + x * 1024) mod 1024 = y"
    using \<open>y < 1024\<close> by (simp_all only: div_mult_self1 mod_mult_self1) simp_all
  ultimately show ?thesis by (simp add: from_code_def Let_def)
qed

lemma surrogate_mod:
  fixes c d :: nat
  assumes "55296 \<le> c" "c \<le> 56319" "56320 \<le> d" "d \<le> 57343"
  shows "55296 + c mod 1024 = c" "56320 + d mod 1024 = d"
proof -
  have "c = (c - 55296) + 54 * 1024" "c - 55296 < 1024" using assms by auto
  then have "c mod 1024 = c - 55296" by (metis mod_less mod_mult_self3 mult.commute add.commute)
  then show "55296 + c mod 1024 = c" using assms by simp
  have "d = (d - 56320) + 55 * 1024" "d - 56320 < 1024" using assms by auto
  then have "d mod 1024 = d - 56320" by (metis mod_less mod_mult_self3 mult.commute add.commute)
  then show "56320 + d mod 1024 = d" using assms by simp
qed

text \<open>The decoder on one encoded code point, whatever follows.\<close>

lemma decode_1:
  "drop i h = of_nat c # r \<Longrightarrow> 0 < c \<Longrightarrow> c < 128 \<Longrightarrow>
     UTF8ArrayToString h i = c # UTF8ArrayToString h (i + 1)"
  by (subst UTF8ArrayToString.simps) (simp add: heap_at_drop(1) unat_byte Let_def)

lemma heap_at_Suc:
  "drop i h = x # y # r \<Longrightarrow> heap_at h (i + 1) = unat y"
  "drop i h = x # y # z # r \<Longrightarrow> heap_at h (i + 2) = unat z"
  "drop i h = x # y # z # w # r \<Longrightarrow> heap_at h (i + 3) = unat w"
proof -
  show "heap_at h (i + 1) = unat y" if "drop i h = x # y # r" for x y r
    using heap_at_drop(1) [OF heap_at_drop(2) [OF that]] by simp
  show "heap_at h (i + 2) = unat z" if "drop i h = x # y # z # r"
    using heap_at_drop(1) [OF heap_at_drop(2) [OF heap_at_drop(2) [OF that]]] by simp
  show "heap_at h (i + 3) = unat w" if "drop i h = x # y # z # w # r"
    using heap_at_drop(1) [OF heap_at_drop(2) [OF heap_at_drop(2) [OF heap_at_drop(2) [OF that]]]]
    by (simp add: numeral_3_eq_3)
qed

lemma lead_bits:
  fixes x k m :: nat
  assumes "x < m"
  shows "(k * m + x) div m = k" and "(k * m + x) mod m = x"
  using assms by simp_all

lemmas follow_bits = lead_bits(2) [of _ 64 2, simplified]

lemma decode_2:
  assumes "drop i h = of_nat (192 + x) # of_nat (128 + y) # r" and "x < 32" and "y < 64"
  shows "UTF8ArrayToString h i = (x * 64 + y) # UTF8ArrayToString h (i + 2)"
proof -
  have u: "heap_at h i = 192 + x" "heap_at h (i + 1) = 128 + y"
    using heap_at_drop(1) [OF assms(1)] heap_at_Suc(1) [OF assms(1)] assms(2,3)
    by (simp_all add: unat_byte del: of_nat_add)
  have "(192 + x) div 32 = 6" "(192 + x) mod 32 = x" "(128 + y) mod 64 = y"
    using lead_bits [of x 32 6] follow_bits assms(2,3) by simp_all
  then show ?thesis by (subst UTF8ArrayToString.simps) (simp only: Let_def u, simp)
qed

lemma decode_3:
  assumes "drop i h = of_nat (224 + x) # of_nat (128 + y) # of_nat (128 + z) # r"
    and "x < 16" and "y < 64" and "z < 64"
  shows "UTF8ArrayToString h i = from_code (x * 4096 + y * 64 + z) @ UTF8ArrayToString h (i + 3)"
proof -
  have u: "heap_at h i = 224 + x" "heap_at h (i + 1) = 128 + y" "heap_at h (i + 2) = 128 + z"
    using heap_at_drop(1) [OF assms(1)] heap_at_Suc(1,2) [OF assms(1)] assms(2-4)
    by (simp_all add: unat_byte del: of_nat_add)
  have "(224 + x) div 32 = 7" "(224 + x) div 16 = 14" "(224 + x) mod 16 = x"
    "(128 + y) mod 64 = y" "(128 + z) mod 64 = z"
    using lead_bits [of x 32 7] lead_bits [of x 16 14] follow_bits assms(2-4) by simp_all
  then show ?thesis by (subst UTF8ArrayToString.simps) (simp only: Let_def u, simp)
qed

lemma decode_4:
  assumes "drop i h = of_nat (240 + x) # of_nat (128 + y) # of_nat (128 + z) # of_nat (128 + w) # r"
    and "x < 8" and "y < 64" and "z < 64" and "w < 64"
  shows "UTF8ArrayToString h i =
    from_code (x * 262144 + y * 4096 + z * 64 + w) @ UTF8ArrayToString h (i + 4)"
proof -
  have u: "heap_at h i = 240 + x" "heap_at h (i + 1) = 128 + y" "heap_at h (i + 2) = 128 + z"
    "heap_at h (i + 3) = 128 + w"
    using heap_at_drop(1) [OF assms(1)] heap_at_Suc [OF assms(1)] assms(2-5)
    by (simp_all add: unat_byte del: of_nat_add)
  have "(240 + x) div 32 = 7" "(240 + x) div 16 = 15" "(240 + x) div 8 = 30" "(240 + x) mod 8 = x"
    "(128 + y) mod 64 = y" "(128 + z) mod 64 = z" "(128 + w) mod 64 = w"
    using lead_bits [of "16 + x" 32 7] lead_bits [of x 16 15] lead_bits [of x 8 30] follow_bits
      assms(2-5)
    by simp_all
  then show ?thesis by (subst UTF8ArrayToString.simps) (simp only: Let_def u, simp)
qed

text \<open>The groups of six bits put together again.\<close>

lemma sextets:
  fixes u :: nat
  shows "u div 64 * 64 + u mod 64 = u"
    and "u div 4096 * 4096 + u div 64 mod 64 * 64 + u mod 64 = u"
    and "u div 262144 * 262144 + u div 4096 mod 64 * 4096 + u div 64 mod 64 * 64 + u mod 64 = u"
proof -
  have 1: "v div 64 * 64 + v mod 64 = v" for v :: nat by simp
  have 2: "u div 4096 = u div 64 div 64" "u div 262144 = u div 4096 div 64"
    by (simp_all add: div_mult2_eq [symmetric])
  show "u div 64 * 64 + u mod 64 = u" by simp
  show 3: "u div 4096 * 4096 + u div 64 mod 64 * 64 + u mod 64 = u"
    using 1 [of "u div 64"] 1 [of u] unfolding 2(1) by linarith
  show "u div 262144 * 262144 + u div 4096 mod 64 * 4096 + u div 64 mod 64 * 64 + u mod 64 = u"
    using 1 [of "u div 4096"] 3 unfolding 2(2) by linarith
qed

lemma drop_more: "drop i h = xs @ r \<Longrightarrow> length xs = k \<Longrightarrow> drop (i + k) h = r"
  by (metis add.commute append_eq_conv_conj drop_drop)

lemma decode_pair:
  assumes "drop i h = of_nat (240 + u div 262144) # of_nat (128 + u div 4096 mod 64) #
      of_nat (128 + u div 64 mod 64) # of_nat (128 + u mod 64) # r" and "u < 2097152"
  shows "UTF8ArrayToString h i = from_code u @ UTF8ArrayToString h (i + 4)"
proof -
  have "u div 262144 < 8" using assms(2) by (simp add: less_mult_imp_div_less)
  from decode_4 [OF assms(1) this] show ?thesis by (simp add: sextets(3))
qed

lemma decode_three:
  assumes "drop i h = of_nat (224 + c div 4096) # of_nat (128 + c div 64 mod 64) #
      of_nat (128 + c mod 64) # r" and "c < 65536"
  shows "UTF8ArrayToString h i = c # UTF8ArrayToString h (i + 3)"
proof -
  have "c div 4096 < 16" using assms(2) by (simp add: less_mult_imp_div_less)
  from decode_3 [OF assms(1) this] assms(2) show ?thesis by (simp add: sextets(2) from_code_def)
qed

lemma decode_two:
  assumes "drop i h = of_nat (192 + c div 64) # of_nat (128 + c mod 64) # r" and "c \<le> 2047"
  shows "UTF8ArrayToString h i = c # UTF8ArrayToString h (i + 2)"
proof -
  have "c div 64 < 32" using assms(2) by (simp add: less_mult_imp_div_less)
  from decode_2 [OF assms(1) this] show ?thesis by simp
qed

lemma utf8_decode:
  "wf_utf16 s \<Longrightarrow> drop i h = utf8 s @ 0 # r \<Longrightarrow> UTF8ArrayToString h i = s"
proof (induction s arbitrary: i rule: wf_utf16.induct)
  case 1
  then show ?case
    by (subst UTF8ArrayToString.simps) (simp add: heap_at_drop(1) Let_def)
next
  case (2 c cs)
  consider (pair) d ds where "55296 \<le> c" "c \<le> 56319" "cs = d # ds" "56320 \<le> d" "d \<le> 57343" "wf_utf16 ds"
    | (one) "0 < c" "c < 65536" "\<not> (55296 \<le> c \<and> c \<le> 57343)" "wf_utf16 cs"
      "\<not> (55296 \<le> c \<and> c \<le> 56319)"
    using "2.prems"(1) by (auto split: if_splits list.splits)
  then show ?case
  proof cases
    case pair
    define u where "u = 65536 + (c mod 1024) * 1024 + d mod 1024"
    have u: "u < 2097152" unfolding u_def
      using pos_mod_bound [of 1024 "int c"] mod_less_divisor [of 1024 c] mod_less_divisor [of 1024 d]
      by linarith
    have "from_code u = [c, d]"
      using from_code_pair [of "c mod 1024" "d mod 1024"] surrogate_mod [of c d] pair u_def by simp
    moreover have dr: "drop i h = of_nat (240 + u div 262144) # of_nat (128 + u div 4096 mod 64) #
        of_nat (128 + u div 64 mod 64) # of_nat (128 + u mod 64) # utf8 ds @ 0 # r"
      using "2.prems"(2) pair by (simp add: u_def Let_def)
    moreover have "UTF8ArrayToString h (i + 4) = ds"
      using "2.IH"(1) [of d ds "i + 4"] pair drop_more [of i h "[_, _, _, _]"] dr by simp
    ultimately show ?thesis using decode_pair [OF dr u] pair by simp
  next
    case one
    note IH = "2.IH"(2) [OF one(5) one(4)]
    consider (a) "c \<le> 127" | (b) "127 < c" "c \<le> 2047" | (t) "2047 < c" by linarith
    then show ?thesis
    proof cases
      case a
      then have dr: "drop i h = of_nat c # utf8 cs @ 0 # r" using "2.prems"(2) one by simp
      then show ?thesis using decode_1 [OF dr] IH [of "i + 1"] heap_at_drop(2) [OF dr] a one by simp
    next
      case b
      then have dr: "drop i h = of_nat (192 + c div 64) # of_nat (128 + c mod 64) # utf8 cs @ 0 # r"
        using "2.prems"(2) one by auto
      then show ?thesis using decode_two [OF dr] IH [of "i + 2"] heap_at_drop(2) [OF heap_at_drop(2) [OF dr]] b by simp
    next
      case t
      then have dr: "drop i h = of_nat (224 + c div 4096) # of_nat (128 + c div 64 mod 64) #
          of_nat (128 + c mod 64) # utf8 cs @ 0 # r"
        using "2.prems"(2) one by auto
      then show ?thesis
        using decode_three [OF dr] IH [of "i + 3"] drop_more [of i h "[_, _, _]"] one by simp
    qed
  qed
qed

text \<open>The call of the wrapper on a string: where it stores, and what.\<close>

lemma wrap_string:
  "wrap_arg malloc (JString s) b =
     (let p = malloc (blocks b) (length s + 1) in
      Inr (b\<lparr>blocks := (p, length s + 1) # blocks b,
             heap := writeArrayToMemory (utf8 s @ [0]) p (heap b)\<rparr>, CNum (int p)))"
  by (simp add: wrap_arg_def makeVarPointer_def writeStringToMemory_def intArrayFromString_def Let_def)

text \<open>
  A string handed to the library is the string the library's results give back: for
  well-formed UTF-16 without a zero unit, what is stored at the address passed decodes
  (\<open>th.UTF8ToString\<close>) to the same string, as long as the stored bytes are inside the heap.
\<close>

theorem string_argument_roundtrip:
  assumes "wf_utf16 s" and "malloc (blocks b) (length s + 1) + length (utf8 s) < length (heap b)"
  shows "\<exists>b' p. wrap_arg malloc (JString s) b = Inr (b', CNum p) \<and>
           unwrap json_parse UString p b' = Inr (JString s)"
proof -
  let ?p = "malloc (blocks b) (length s + 1)"
  have "drop ?p (writeArrayToMemory (utf8 s @ [0]) ?p (heap b)) =
      utf8 s @ 0 # drop (?p + length (utf8 s) + 1) (heap b)"
    using assms(2) by (simp add: writeArrayToMemory)
  from utf8_decode [OF assms(1) this] show ?thesis
    by (simp add: wrap_string Let_def unwrap_def)
qed

theorem string_argument_roundtrip_witness:
  "\<exists>b' p. wrap_arg bump_malloc (JString [55357, 56832, 233]) small_bridge = Inr (b', CNum p) \<and>
           unwrap (\<lambda>_. Inl SyntaxError) UString p b' = Inr (JString [55357, 56832, 233])"
  by (rule string_argument_roundtrip) (simp_all add: bump_malloc_def small_bridge_def)

lemma length_utf8:
  "length s \<le> length (utf8 s) \<and> (length (utf8 s) = length s \<longleftrightarrow> (\<forall>c\<in>set s. c \<le> 127))"
proof (induction s rule: utf8.induct)
  case (2 c cs)
  consider (s) "55296 \<le> c" "c \<le> 57343" | (a) "c \<le> 127" | (o) "\<not> (55296 \<le> c \<and> c \<le> 57343)" "127 < c"
    by linarith
  then show ?case
  proof cases
    case s
    then show ?thesis using "2.IH"(1) [OF _ refl] by (cases cs) (auto simp: Let_def)
  next
    case a
    then show ?thesis using "2.IH"(2) by (auto simp: Let_def)
  next
    case o
    then show ?thesis using "2.IH"(3,4) by (auto simp: Let_def)
  qed
qed simp

lemma slice_1: "q < length xs \<Longrightarrow> take 1 (drop q (xs @ ys)) = [xs ! q]"
  by (simp add: take_Suc_conv_app_nth [of 0, simplified] Cons_nth_drop_Suc [symmetric])

text \<open>
  What an argument must do to be harmless: whatever the heap and the allocator, no block that was
  live before the call changes.
\<close>

definition leaves_blocks :: "js_value \<Rightarrow> nat \<Rightarrow> bool" where
  "leaves_blocks v n \<longleftrightarrow>
     (\<forall>malloc b b' a. malloc_ok malloc b n \<longrightarrow> wrap_arg malloc v b = Inr (b', a) \<longrightarrow>
        list_all (\<lambda>(q, k). th_BUFFER b' q k = th_BUFFER b q k) (blocks b))"

text \<open>
  C35. The wrapper for strings allocates a byte for each UTF-16 unit and one for the terminator,
  but stores the UTF-8 encoding: it leaves the library's other blocks alone exactly for strings of
  ASCII characters. For any other string there are a heap and a correct allocator such that the
  call corrupts a live block.
\<close>

theorem string_argument_safe_iff_ascii:
  "leaves_blocks (JString s) (length s + 1) \<longleftrightarrow> list_all (\<lambda>c. c \<le> 127) s"
proof
  assume ascii: "list_all (\<lambda>c. c \<le> 127) s"
  then have len: "length (utf8 s) = length s" using length_utf8 [of s] by (simp add: list_all_iff)
  show "leaves_blocks (JString s) (length s + 1)"
    unfolding leaves_blocks_def
  proof (intro allI impI)
    fix malloc b b' a
    assume m: "malloc_ok malloc b (length s + 1)" and w: "wrap_arg malloc (JString s) b = Inr (b', a)"
    define p where "p = malloc (blocks b) (length s + 1)"
    have h: "heap b' = writeArrayToMemory (utf8 s @ [0]) p (heap b)"
      using w by (auto simp: wrap_string Let_def p_def)
    have "th_BUFFER b' q k = th_BUFFER b q k" if "(q, k) \<in> set (blocks b)" for q k
    proof -
      have "q + k \<le> p \<or> p + length s + 1 \<le> q"
        using that m by (auto simp: malloc_ok_def p_def Let_def list_all_iff)
      then show ?thesis
        by (auto simp: th_BUFFER_def getValue_def h len writeArrayToMemory_other)
    qed
    then show "list_all (\<lambda>(q, k). th_BUFFER b' q k = th_BUFFER b q k) (blocks b)"
      by (auto simp: list_all_iff)
  qed
next
  assume safe: "leaves_blocks (JString s) (length s + 1)"
  show "list_all (\<lambda>c. c \<le> 127) s"
  proof (rule ccontr)
    assume "\<not> list_all (\<lambda>c. c \<le> 127) s"
    then have len: "length s < length (utf8 s)"
      using length_utf8 [of s] by (auto simp: list_all_iff le_less)
    define q where "q = length s + 1"
    define x where "x = (utf8 s @ [0]) ! q"
    define b where "b = \<lparr>heap = replicate (q + length (utf8 s) + 1) (x + 1), blocks = [(q, 1)],
      functionPointers = []\<rparr>"
    define b' where "b' = b\<lparr>blocks := (0, q) # blocks b,
      heap := writeArrayToMemory (utf8 s @ [0]) 0 (heap b)\<rparr>"
    have blocks: "blocks b = [(q, 1)]" by (simp add: b_def)
    have "malloc_ok (\<lambda>_ _. 0) b (length s + 1)" by (simp add: malloc_ok_def b_def q_def)
    moreover have "wrap_arg (\<lambda>_ _. 0) (JString s) b = Inr (b', CNum 0)"
      by (simp add: wrap_string Let_def b'_def q_def)
    ultimately have "th_BUFFER b' q 1 = th_BUFFER b q 1"
      using safe unfolding leaves_blocks_def by (fastforce simp: blocks)
    moreover have "th_BUFFER b q 1 = [x + 1]"
      by (subst th_BUFFER_slice, simp_all only: b_def bridge.simps drop_replicate take_replicate) simp_all
    moreover have "th_BUFFER b' q 1 = [x]"
    proof -
      have "heap b' = (utf8 s @ [0]) @ drop (length (utf8 s) + 1) (heap b)"
        by (simp add: b'_def writeArrayToMemory b_def)
      then have "take 1 (drop q (heap b')) = [x]"
        using len slice_1 [of q "utf8 s @ [0]"] by (simp only: x_def) (simp add: q_def)
      then show ?thesis using len by (subst th_BUFFER_slice) (simp_all add: b'_def b_def)
    qed
    ultimately show False by simp
  qed
qed
section \<open>What a call uses up\<close>

definition free_slots :: "bridge \<Rightarrow> nat" where
  "free_slots b = length (filter (\<lambda>s. s = None) (functionPointers b))"

definition is_function :: "js_value \<Rightarrow> bool" where
  "is_function v \<longleftrightarrow> (case v of JFunction _ \<Rightarrow> True | _ \<Rightarrow> False)"

definition is_copied :: "js_value \<Rightarrow> bool" where
  "is_copied v \<longleftrightarrow> (case v of JString _ \<Rightarrow> True | JBuffer _ \<Rightarrow> True | _ \<Rightarrow> False)"

definition n_functions :: "js_value list \<Rightarrow> nat" where
  "n_functions vs = length (filter is_function vs)"

definition n_copied :: "js_value list \<Rightarrow> nat" where
  "n_copied vs = length (filter is_copied vs)"

lemma free_slot:
  "free_slot fs = Some i \<Longrightarrow> i < length fs \<and> fs ! i = None \<and>
     length (filter (\<lambda>s. s = None) (fs[i := Some f])) + 1 = length (filter (\<lambda>s. s = None) fs)"
  by (induction fs arbitrary: i rule: free_slot.induct) auto

lemma free_slot_None: "free_slot fs = None \<longleftrightarrow> filter (\<lambda>s. s = None) fs = []"
  by (induction fs rule: free_slot.induct) auto

lemma addFunction:
  "addFunction f b = Inr (b', p) \<Longrightarrow> free_slots b = free_slots b' + 1 \<and> blocks b' = blocks b"
  "addFunction f b = Inl e \<longleftrightarrow>
     free_slots b = 0 \<and> e = Thrown ''Finished up all reserved function pointers''"
  using free_slot [of "functionPointers b" _ f] free_slot_None [of "functionPointers b"]
  by (auto simp: addFunction_def free_slots_def split: option.splits)

lemma wrap_arg_uses:
  assumes "wrap_arg malloc v b = Inr (b', a)"
  shows "free_slots b = free_slots b' + of_bool (is_function v)"
    and "length (blocks b') = length (blocks b) + of_bool (is_copied v)"
proof -
  have "free_slots b = free_slots b' + of_bool (is_function v) \<and>
      length (blocks b') = length (blocks b) + of_bool (is_copied v)"
    using assms addFunction(1) [of _ b]
    by (cases v)
      (force simp: wrap_arg_def makeVarPointer_def is_function_def is_copied_def free_slots_def
        Let_def split: sum.splits)+
  then show "free_slots b = free_slots b' + of_bool (is_function v)"
    "length (blocks b') = length (blocks b) + of_bool (is_copied v)" by simp_all
qed

lemma wrap_args_uses:
  "wrap_args malloc vs b = Inr (b', as) \<Longrightarrow>
     free_slots b = free_slots b' + n_functions vs \<and>
     length (blocks b') = length (blocks b) + n_copied vs"
proof (induction vs arbitrary: b b' as)
  case (Cons v vs)
  from Cons.prems obtain b1 a as' where
    1: "wrap_arg malloc v b = Inr (b1, a)" and 2: "wrap_args malloc vs b1 = Inr (b', as')"
    by (auto split: sum.splits)
  show ?case
    using wrap_arg_uses [OF 1] Cons.IH [OF 2] by (auto simp: n_functions_def n_copied_def)
qed (simp add: n_functions_def n_copied_def)

text \<open>
  A run of the program's calls: each wrapped call with its arguments. \<open>frugal\<close> is what the compiled
  functions do to the bridge's own state: none gives a function pointer or an argument's block back,
  because the wrapper keeps no record by which they could be released.
\<close>

definition frugal :: "(c_arg list \<Rightarrow> bridge \<Rightarrow> bridge \<times> int) \<Rightarrow> bool" where
  "frugal cfun \<longleftrightarrow>
     (\<forall>as b. free_slots (fst (cfun as b)) = free_slots b \<and>
        length (blocks b) \<le> length (blocks (fst (cfun as b))))"

fun wrapped_calls ::
  "((nat \<times> nat) list \<Rightarrow> nat \<Rightarrow> nat) \<Rightarrow> (js_string \<Rightarrow> js_error + js_value) \<Rightarrow>
   (c_arg list \<Rightarrow> bridge \<Rightarrow> bridge \<times> int) \<Rightarrow> js_value list list \<Rightarrow> bridge \<Rightarrow> js_error + bridge" where
  "wrapped_calls malloc js cfun [] b = Inr b"
| "wrapped_calls malloc js cfun (args # calls) b =
     (case wrapFun malloc js cfun None args b of
        Inl e \<Rightarrow> Inl e
      | Inr (b', _) \<Rightarrow> wrapped_calls malloc js cfun calls b')"

lemma wrapFun_uses:
  assumes "wrapFun malloc js cfun rt args b = Inr (b', v)" and "frugal cfun"
  shows "free_slots b = free_slots b' + n_functions args"
    and "length (blocks b) + n_copied args \<le> length (blocks b')"
proof -
  obtain b1 as where 1: "wrap_args malloc args b = Inr (b1, as)" and 2: "b' = fst (cfun as b1)"
    using assms(1) by (auto simp: wrapFun_def Let_def split: sum.splits prod.splits)
  have "free_slots b' = free_slots b1" "length (blocks b1) \<le> length (blocks b')"
    using assms(2) 2 by (auto simp: frugal_def)
  with wrap_args_uses [OF 1] show "free_slots b = free_slots b' + n_functions args"
    "length (blocks b) + n_copied args \<le> length (blocks b')" by auto
qed

text \<open>
  The bridge only ever uses up resources. Over any run of successful calls, each function passed
  has taken one of the reserved function pointers for good and each string or buffer has left a block
  allocated; so a run whose arguments hold more functions than there are free pointers does not
  succeed.
\<close>

theorem bridge_calls_use_up:
  assumes "wrapped_calls malloc js cfun calls b = Inr b'" and "frugal cfun"
  shows "free_slots b = free_slots b' + n_functions (concat calls) \<and>
         length (blocks b) + n_copied (concat calls) \<le> length (blocks b')"
  using assms(1)
proof (induction calls arbitrary: b)
  case Nil
  then show ?case by (simp add: n_functions_def n_copied_def)
next
  case (Cons args calls)
  then obtain b1 v where 1: "wrapFun malloc js cfun None args b = Inr (b1, v)"
    and 2: "wrapped_calls malloc js cfun calls b1 = Inr b'"
    by (auto split: sum.splits)
  show ?case
    using wrapFun_uses [OF 1 assms(2)] Cons.IH [OF 2] by (simp add: n_functions_def n_copied_def)
qed

theorem bridge_calls_use_up_witness:
  "\<exists>b'. free_slots small_bridge = free_slots b' + n_functions (concat [[JFunction 4], [JString [65], JNull]]) \<and>
      length (blocks small_bridge) + n_copied (concat [[JFunction 4], [JString [65], JNull]]) \<le> length (blocks b')"
proof -
  have "\<exists>b'. wrapped_calls bump_malloc (\<lambda>_. Inl SyntaxError) (\<lambda>as b. (b, 0))
      [[JFunction 4], [JString [65], JNull]] small_bridge = Inr b'"
    by (simp add: wrapFun_def wrap_arg_def addFunction_def small_bridge_def unwrap_def
        makeVarPointer_def Let_def)
  then show ?thesis
    using bridge_calls_use_up [of bump_malloc "\<lambda>_. Inl SyntaxError" "\<lambda>as b. (b, 0)"
        "[[JFunction 4], [JString [65], JNull]]" small_bridge]
    by (auto simp: frugal_def)
qed

text \<open>
  A call with a function argument when no function pointer is free never reaches the library:
  the wrapper throws.
\<close>

theorem no_free_slot_throws:
  assumes "free_slots b = 0" and "list_ex is_function args"
  shows "\<exists>e. wrapFun malloc js cfun rt args b = Inl e"
proof -
  have "\<exists>e. wrap_args malloc args b = Inl e"
  proof (cases "wrap_args malloc args b")
    case (Inr r)
    then obtain b' as where "wrap_args malloc args b = Inr (b', as)" by (cases r) auto
    from wrap_args_uses [OF this] assms show ?thesis
      by (auto simp: n_functions_def list_ex_iff filter_empty_conv)
  qed simp
  then show ?thesis by (auto simp: wrapFun_def)
qed

theorem no_free_slot_throws_witness:
  "\<exists>e. wrapFun bump_malloc (\<lambda>_. Inl SyntaxError) (\<lambda>as b. (b, 0)) None [JNumber 3, JFunction 1]
         (small_bridge\<lparr>functionPointers := [Some 5]\<rparr>) = Inl e"
  by (rule no_free_slot_throws) (simp_all add: free_slots_def is_function_def)

text \<open>
  \<open>th.CALLBACK\<close> never calls the function it is given: whatever the types and the arguments,
  the wrapped function throws.
\<close>

theorem th_CALLBACK_throws: "\<exists>e. th_CALLBACK json_parse fn types args b = Inl e"
  by (cases "unwrap_all json_parse types args b") (auto simp: th_CALLBACK_def)
end
