(* ===== verification/JsFrames.thy ===== *)
theory JsFrames
  imports JsBridge Frames
begin

text \<open>
  The class \<open>Frames\<close> of \<open>js/core.js\<close>: a mesh over a byte stream, in frames of a fixed size.

  The variables its handlers share are the fields of \<open>frames_port\<close>; the fields with \<open>fp_\<close> are what
  the event loop still owes (callbacks of \<open>stream.write\<close>, timers) and what the port has done
  (blocks passed to \<open>stream.write\<close>, calls of \<open>link_pipe\<close>, \<open>'down'\<close> sent on). The functions of the
  compiled library are a parameter, \<open>frames_api\<close>: which C functions the names stand for depends on
  the build. A call into the mesh may call the pipe's callback before it returns; the packets it
  passes are part of the call's result (\<open>None\<close> for a call without a packet), and since the callback
  touches nothing of the mesh they are handled when the call is over.
\<close>

record ('f, 'p, 'm) frames_api =
  api_new :: "nat \<Rightarrow> 'f"
  api_inbox :: "'f \<Rightarrow> bytes \<Rightarrow> 'f"
  api_ok :: "'f \<Rightarrow> bool"
  api_clear :: "'f \<Rightarrow> 'f"
  api_pending :: "'f \<Rightarrow> bool"
  api_outbox :: "'f \<Rightarrow> nat \<Rightarrow> 'f \<times> bytes" \<comment> \<open>with what the block of the given size then holds\<close>
  api_sent :: "'f \<Rightarrow> 'f"
  api_send :: "'f \<Rightarrow> 'p \<Rightarrow> 'f"
  api_receive :: "'f \<Rightarrow> 'f \<times> 'p option"
  api_mesh_receive :: "'m \<Rightarrow> 'p \<Rightarrow> 'm \<times> 'p option list \<times> nat option"
  api_mesh_link :: "'m \<Rightarrow> nat \<Rightarrow> 'm \<times> 'p option list"
  api_link_pipe :: "'m \<Rightarrow> nat \<Rightarrow> 'm \<times> 'p option list"
  api_mesh_add :: "'m \<Rightarrow> 'p \<Rightarrow> 'm \<times> 'p option list \<times> nat option"
  api_mesh_json :: "'m \<Rightarrow> 'p"

record ('f, 'm) frames_port =
  c_frames :: 'f
  c_mesh :: 'm
  frame_size :: nat
  flushing :: bool
  readbuf :: bytes
  linked :: "nat option"
  port_c_link :: "nat option"
  fp_writes :: nat
  fp_timers :: nat
  fp_out :: "bytes list"
  fp_piped :: "nat list"
  fp_downs :: "nat list"

section \<open>Writing\<close>

definition frames_flush ::
  "('f, 'p, 'm) frames_api \<Rightarrow> ('f, 'm) frames_port \<Rightarrow> ('f, 'm) frames_port" where
  "frames_flush api s =
     (if \<not> api_pending api (c_frames s) then s
      else if flushing s then s
      else
        let (f, frame) = api_outbox api (c_frames s) (frame_size s) in
        s\<lparr>flushing := True, c_frames := api_sent api f, fp_out := fp_out s @ [frame],
          fp_writes := fp_writes s + 1\<rparr>)"

text \<open>The callback of \<open>stream.write\<close>; after an error \<open>flushing\<close> stays set.\<close>

definition frames_written :: "bool \<Rightarrow> ('f, 'm) frames_port \<Rightarrow> ('f, 'm) frames_port" where
  "frames_written err s =
     (let s = s\<lparr>fp_writes := fp_writes s - 1\<rparr> in
      if err then s else s\<lparr>flushing := False, fp_timers := fp_timers s + 1\<rparr>)"

definition frames_timer ::
  "('f, 'p, 'm) frames_api \<Rightarrow> ('f, 'm) frames_port \<Rightarrow> ('f, 'm) frames_port" where
  "frames_timer api s = frames_flush api (s\<lparr>fp_timers := fp_timers s - 1\<rparr>)"

text \<open>The callback given to \<open>link_pipe\<close>.\<close>

definition frames_pipe ::
  "('f, 'p, 'm) frames_api \<Rightarrow> 'p option \<Rightarrow> ('f, 'm) frames_port \<Rightarrow> ('f, 'm) frames_port" where
  "frames_pipe api packet s =
     (case packet of
        None \<Rightarrow> s
      | Some p \<Rightarrow> frames_flush api (s\<lparr>c_frames := api_send api (c_frames s) p\<rparr>))"

text \<open>A call into the mesh, with the packets it passed to the pipe.\<close>

definition frames_call ::
  "('f, 'p, 'm) frames_api \<Rightarrow> 'm \<times> 'p option list \<Rightarrow> ('f, 'm) frames_port \<Rightarrow> ('f, 'm) frames_port" where
  "frames_call api r s = fold (frames_pipe api) (snd r) (s\<lparr>c_mesh := fst r\<rparr>)"

section \<open>Linking\<close>

text \<open>The statements that plumb a new link; they occur in two handlers.\<close>

definition frames_plumb ::
  "('f, 'p, 'm) frames_api \<Rightarrow> nat \<Rightarrow> ('f, 'm) frames_port \<Rightarrow> ('f, 'm) frames_port" where
  "frames_plumb api link s =
     (let s = s\<lparr>port_c_link := Some link\<rparr>;
          s = frames_call api (api_mesh_link api (c_mesh s) link) s;
          s = s\<lparr>linked := Some link\<rparr>;
          s = s\<lparr>fp_piped := fp_piped s @ [link]\<rparr>
      in frames_call api (api_link_pipe api (c_mesh s) link) s)"

text \<open>What is done with the link that \<open>mesh_receive\<close> or \<open>mesh_add\<close> gave (\<open>None\<close> for NULL).\<close>

definition frames_linked ::
  "('f, 'p, 'm) frames_api \<Rightarrow> nat option \<Rightarrow> ('f, 'm) frames_port \<Rightarrow> ('f, 'm) frames_port" where
  "frames_linked api r s =
     (case r of
        None \<Rightarrow> s
      | Some link \<Rightarrow> if linked s \<noteq> None then s else frames_plumb api link s)"

definition frames_packet ::
  "('f, 'p, 'm) frames_api \<Rightarrow> 'p \<Rightarrow> ('f, 'm) frames_port \<Rightarrow> ('f, 'm) frames_port" where
  "frames_packet api packet s =
     (let (m, sent, r) = api_mesh_receive api (c_mesh s) packet
      in frames_linked api r (frames_call api (m, sent) s))"

text \<open>The callback a discovery hands to the application, run when it accepts.\<close>

definition frames_accept ::
  "('f, 'p, 'm) frames_api \<Rightarrow> 'p \<Rightarrow> ('f, 'm) frames_port \<Rightarrow> ('f, 'm) frames_port" where
  "frames_accept api discovered s =
     (let (m, sent, r) = api_mesh_add api (c_mesh s) discovered
      in frames_linked api r (frames_call api (m, sent) s))"

section \<open>Reading\<close>

definition take_frame :: "('f, 'p, 'm) frames_api \<Rightarrow> 'f \<Rightarrow> bytes \<Rightarrow> 'f" where
  "take_frame api f frame =
     (let f = api_inbox api f frame in if \<not> api_ok api f then api_clear api f else f)"

text \<open>The loop over full frames. With a frame size of 0 it does not end.\<close>

partial_function (option) read_frames ::
  "('f, 'p, 'm) frames_api \<Rightarrow> nat \<Rightarrow> 'f \<Rightarrow> bytes \<Rightarrow> ('f \<times> bytes) option" where
  "read_frames api n f buf =
     (if n \<le> length buf then read_frames api n (take_frame api f (take n buf)) (drop n buf)
      else Some (f, buf))"

text \<open>The loop over received packets.\<close>

partial_function (option) receive_packets ::
  "('f, 'p, 'm) frames_api \<Rightarrow> ('f, 'm) frames_port \<Rightarrow> ('f, 'm) frames_port option" where
  "receive_packets api s =
     (case api_receive api (c_frames s) of
        (f, None) \<Rightarrow> Some (s\<lparr>c_frames := f\<rparr>)
      | (f, Some packet) \<Rightarrow> receive_packets api (frames_packet api packet (s\<lparr>c_frames := f\<rparr>)))"

text \<open>The handler of \<open>'data'\<close>.\<close>

definition frames_data ::
  "('f, 'p, 'm) frames_api \<Rightarrow> bytes \<Rightarrow> ('f, 'm) frames_port \<Rightarrow> ('f, 'm) frames_port option" where
  "frames_data api data s =
     (case read_frames api (frame_size s) (c_frames s) (readbuf s @ data) of
        None \<Rightarrow> None
      | Some (f, buf) \<Rightarrow>
          receive_packets api (frames_flush api (s\<lparr>c_frames := f, readbuf := buf\<rparr>)))"

section \<open>Opening and closing\<close>

text \<open>The handler of \<open>'close'\<close>.\<close>

definition frames_close :: "('f, 'm) frames_port \<Rightarrow> ('f, 'm) frames_port" where
  "frames_close s =
     (let s = s\<lparr>flushing := False\<rparr> in
      case linked s of None \<Rightarrow> s | Some l \<Rightarrow> s\<lparr>fp_downs := fp_downs s @ [l]\<rparr>)"

text \<open>
  \<open>cleanup\<close>, given the link or \<open>undefined\<close>. The constructor stores the stream in no property, so
  \<open>this.stream.close\<close> is a property of \<open>undefined\<close>.
\<close>

definition frames_cleanup :: "nat option \<Rightarrow> ('f, 'm) frames_port \<Rightarrow> js_error + bool" where
  "frames_cleanup c_link s = (if c_link = port_c_link s then Inl TypeError else Inr False)"

text \<open>The last statements of the constructor: our keys and paths are sent as a greeting.\<close>

definition frames_greeting ::
  "('f, 'p, 'm) frames_api \<Rightarrow> ('f, 'm) frames_port \<Rightarrow> ('f, 'm) frames_port" where
  "frames_greeting api s =
     (let s = s\<lparr>c_frames := api_send api (c_frames s) (api_mesh_json api (c_mesh s))\<rparr>
      in frames_flush api s)"

definition new_Frames ::
  "('f, 'p, 'm) frames_api \<Rightarrow> 'm \<Rightarrow> nat \<Rightarrow> ('f, 'm) frames_port" where
  "new_Frames api mesh sz =
     (let s = \<lparr>c_frames = api_new api sz, c_mesh = mesh, frame_size = sz, flushing = False,
               readbuf = [], linked = None, port_c_link = None, fp_writes = 0, fp_timers = 0,
               fp_out = [], fp_piped = [], fp_downs = []\<rparr>
      in frames_greeting api s)"

section \<open>Events\<close>

text \<open>
  What the event loop can run next. A callback runs only if it is owed; anything may happen in the
  mesh between two events of the port.
\<close>

datatype 'p frames_event =
    FData bytes | FWritten bool | FTimer | FPipe "'p option" | FAccept 'p | FClose

inductive frames_step ::
  "('f, 'p, 'm) frames_api \<Rightarrow> ('f, 'm) frames_port \<Rightarrow> 'p frames_event \<Rightarrow> ('f, 'm) frames_port \<Rightarrow> bool"
  for api where
  fs_data: "frames_data api data (s\<lparr>c_mesh := m\<rparr>) = Some s' \<Longrightarrow> frames_step api s (FData data) s'"
| fs_written: "0 < fp_writes s \<Longrightarrow> frames_step api s (FWritten err) (frames_written err s)"
| fs_timer: "0 < fp_timers s \<Longrightarrow> frames_step api s FTimer (frames_timer api s)"
| fs_pipe: "fp_piped s \<noteq> [] \<Longrightarrow> frames_step api s (FPipe p) (frames_pipe api p (s\<lparr>c_mesh := m\<rparr>))"
| fs_accept: "frames_step api s (FAccept d) (frames_accept api d (s\<lparr>c_mesh := m\<rparr>))"
| fs_close: "frames_step api s FClose (frames_close s)"

inductive_cases frames_stepE: "frames_step api s e s'"

section \<open>Invariants of the port\<close>

lemma frames_flush_link [simp]:
  "linked (frames_flush api s) = linked s" "port_c_link (frames_flush api s) = port_c_link s"
  "fp_piped (frames_flush api s) = fp_piped s" "fp_downs (frames_flush api s) = fp_downs s"
  "readbuf (frames_flush api s) = readbuf s" "frame_size (frames_flush api s) = frame_size s"
  "c_mesh (frames_flush api s) = c_mesh s"
  by (auto simp: frames_flush_def Let_def split: prod.split)

lemma frames_pipe_link [simp]:
  "linked (frames_pipe api p s) = linked s" "port_c_link (frames_pipe api p s) = port_c_link s"
  by (auto simp: frames_pipe_def split: option.split)

lemma fold_pipe_link [simp]:
  "linked (fold (frames_pipe api) ps s) = linked s"
  "port_c_link (fold (frames_pipe api) ps s) = port_c_link s"
  by (induction ps arbitrary: s) simp_all

lemma frames_call_link [simp]:
  "linked (frames_call api r s) = linked s" "port_c_link (frames_call api r s) = port_c_link s"
  by (simp_all add: frames_call_def)

text \<open>The loop over received packets, by induction on its rounds.\<close>

lemma receive_packets_rule:
  assumes "receive_packets api s = Some s'" and "P s"
    and "\<And>s f p. P s \<Longrightarrow> api_receive api (c_frames s) = (f, Some p) \<Longrightarrow>
           P (frames_packet api p (s\<lparr>c_frames := f\<rparr>))"
    and "\<And>s f. P s \<Longrightarrow> api_receive api (c_frames s) = (f, None) \<Longrightarrow> P (s\<lparr>c_frames := f\<rparr>)"
  shows "P s'"
proof -
  have "a = api \<longrightarrow> P s \<longrightarrow> P s'" if "receive_packets a s = Some s'" for a s s'
  proof (rule receive_packets.raw_induct [OF _ that, where P = "\<lambda>a s s'. a = api \<longrightarrow> P s \<longrightarrow> P s'"])
    fix rec a s r
    assume IH: "\<And>a s r. rec a s = Some r \<Longrightarrow> a = api \<longrightarrow> P s \<longrightarrow> P r"
      and eq: "(case api_receive a (c_frames s) of
          (f, None) \<Rightarrow> Some (s\<lparr>c_frames := f\<rparr>)
        | (f, Some packet) \<Rightarrow> rec a (frames_packet a packet (s\<lparr>c_frames := f\<rparr>))) = Some r"
    show "a = api \<longrightarrow> P s \<longrightarrow> P r"
    proof (intro impI)
      assume a: "a = api" and s: "P s"
      obtain f p where fp: "api_receive api (c_frames s) = (f, p)" by fastforce
      show "P r"
      proof (cases p)
        case None
        then show ?thesis using eq a s fp assms(4) by auto
      next
        case (Some q)
        then show ?thesis using eq a fp assms(3) [OF s] IH [of api] by auto
      qed
    qed
  qed
  then show ?thesis using assms(1,2) by blast
qed

text \<open>
  What has to be checked of an invariant: the assignments of the handlers, each where the code makes
  it. The handlers then keep it.
\<close>

locale port_invariant =
  fixes api :: "('f, 'p, 'm) frames_api"
    and inv :: "('f, 'm) frames_port \<Rightarrow> bool"
    and allowed :: "'p frames_event \<Rightarrow> bool"
  assumes inv_mesh: "inv s \<Longrightarrow> inv (s\<lparr>c_mesh := m\<rparr>)"
    and inv_flush: "inv s \<Longrightarrow> inv (frames_flush api s)"
    and inv_send: "inv s \<Longrightarrow> inv (frames_flush api (s\<lparr>c_frames := api_send api (c_frames s) p\<rparr>))"
    and inv_receive: "inv s \<Longrightarrow> inv (s\<lparr>c_frames := fst (api_receive api (c_frames s))\<rparr>)"
    and inv_read: "inv s \<Longrightarrow> read_frames api n (c_frames s) buf = Some (f, buf') \<Longrightarrow>
          inv (s\<lparr>c_frames := f, readbuf := buf'\<rparr>)"
    and inv_c_link: "inv s \<Longrightarrow> linked s = None \<Longrightarrow> inv (s\<lparr>port_c_link := Some l\<rparr>)"
    and inv_linked: "inv s \<Longrightarrow> linked s = None \<Longrightarrow> port_c_link s = Some l \<Longrightarrow>
          inv (s\<lparr>linked := Some l, fp_piped := fp_piped s @ [l]\<rparr>)"
    and inv_written: "inv s \<Longrightarrow> 0 < fp_writes s \<Longrightarrow> allowed (FWritten err) \<Longrightarrow> inv (frames_written err s)"
    and inv_timer: "inv s \<Longrightarrow> 0 < fp_timers s \<Longrightarrow> inv (frames_timer api s)"
    and inv_close: "inv s \<Longrightarrow> allowed FClose \<Longrightarrow> inv (frames_close s)"
begin

lemma pipe_inv: "inv s \<Longrightarrow> inv (frames_pipe api p s)"
  by (auto simp: frames_pipe_def inv_send split: option.split)

lemma call_inv: "inv s \<Longrightarrow> inv (frames_call api r s)"
proof -
  have "inv (fold (frames_pipe api) ps s)" if "inv s" for ps s
    using that by (induction ps arbitrary: s) (simp_all add: pipe_inv)
  then show "inv s \<Longrightarrow> inv (frames_call api r s)" by (simp add: frames_call_def inv_mesh)
qed

lemma plumb_inv:
  assumes "inv s" and "linked s = None"
  shows "inv (frames_plumb api l s)"
proof -
  define s1 where "s1 = frames_call api (api_mesh_link api (c_mesh s) l) (s\<lparr>port_c_link := Some l\<rparr>)"
  have "inv s1" "linked s1 = None" "port_c_link s1 = Some l"
    using assms by (simp_all add: s1_def call_inv inv_c_link)
  then have "inv (s1\<lparr>linked := Some l, fp_piped := fp_piped s1 @ [l]\<rparr>)" by (rule inv_linked)
  then show ?thesis by (simp add: frames_plumb_def Let_def s1_def call_inv)
qed

lemma linked_inv: "inv s \<Longrightarrow> inv (frames_linked api r s)"
  by (auto simp: frames_linked_def plumb_inv split: option.split)

lemma packet_inv: "inv s \<Longrightarrow> inv (frames_packet api p s)"
  by (auto simp: frames_packet_def Let_def linked_inv call_inv split: prod.split)

lemma accept_inv: "inv s \<Longrightarrow> inv (frames_accept api p s)"
  by (auto simp: frames_accept_def Let_def linked_inv call_inv split: prod.split)

lemma receive_packets_inv:
  assumes "receive_packets api s = Some s'" and "inv s"
  shows "inv s'"
proof -
  have "inv (s\<lparr>c_frames := f\<rparr>)" if "inv s" "api_receive api (c_frames s) = (f, r)" for s f r
    using inv_receive [OF that(1)] that(2) by simp
  then show ?thesis using receive_packets_rule [where P = inv, OF assms] packet_inv by blast
qed

lemma data_inv: "frames_data api d s = Some s' \<Longrightarrow> inv s \<Longrightarrow> inv s'"
  using receive_packets_inv inv_flush inv_read
  by (auto simp: frames_data_def split: option.splits prod.splits)

lemma port_step_inv: "frames_step api s e s' \<Longrightarrow> allowed e \<Longrightarrow> inv s \<Longrightarrow> inv s'"
  by (erule frames_stepE)
    (auto simp: inv_written inv_timer inv_close pipe_inv accept_inv inv_mesh intro: data_inv)

end

sublocale port_invariant \<subseteq> event_invariant "frames_step api" allowed inv
  by unfold_locales (rule port_step_inv)

section \<open>One write at a time\<close>

definition no_close :: "'p frames_event \<Rightarrow> bool" where
  "no_close e \<longleftrightarrow> e \<noteq> FClose"

definition one_write :: "('f, 'm) frames_port \<Rightarrow> bool" where
  "one_write s \<longleftrightarrow> fp_writes s \<le> 1 \<and> (\<not> flushing s \<longrightarrow> fp_writes s = 0)"

lemma one_write_flush: "one_write s \<Longrightarrow> one_write (frames_flush api s)"
  by (auto simp: one_write_def frames_flush_def split: prod.split)

lemma one_write_frame [simp]:
  "one_write (s\<lparr>c_frames := f\<rparr>) = one_write s" "one_write (s\<lparr>c_mesh := m\<rparr>) = one_write s"
  "one_write (s\<lparr>readbuf := b\<rparr>) = one_write s" "one_write (s\<lparr>port_c_link := l\<rparr>) = one_write s"
  "one_write (s\<lparr>linked := l\<rparr>) = one_write s" "one_write (s\<lparr>fp_piped := ls\<rparr>) = one_write s"
  "one_write (s\<lparr>fp_timers := k\<rparr>) = one_write s"
  by (simp_all add: one_write_def)

interpretation ow: port_invariant api one_write no_close for api :: "('f, 'p, 'm) frames_api"
  by unfold_locales
    (auto simp: one_write_flush frames_timer_def frames_written_def Let_def no_close_def,
      auto simp: one_write_def)

lemma one_write_new: "one_write (new_Frames api mesh n)"
  unfolding new_Frames_def frames_greeting_def Let_def by (rule one_write_flush) (simp add: one_write_def)

text \<open>
  C22. Until the stream closes, the port has at most one write under way, whatever the order of
  data, packets to send, timers and acceptances, and whatever the library does.
\<close>

theorem frames_one_write:
  assumes "runs (frames_step api) (new_Frames api mesh n) es s" and "list_all no_close es"
  shows "fp_writes s \<le> 1 \<and> (\<not> flushing s \<longrightarrow> fp_writes s = 0)"
  using ow.runs_inv [OF assms one_write_new] by (simp add: one_write_def)

section \<open>After a failed write\<close>

definition stuck :: "bytes list \<Rightarrow> ('f, 'm) frames_port \<Rightarrow> bool" where
  "stuck bs s \<longleftrightarrow> flushing s \<and> fp_writes s = 0 \<and> fp_out s = bs"

interpretation st: port_invariant api "stuck bs" no_close for api :: "('f, 'p, 'm) frames_api" and bs
  by unfold_locales
    (auto simp: stuck_def frames_flush_def frames_timer_def frames_written_def Let_def no_close_def)

text \<open>
  When a write fails, the port never writes again before the stream closes: the flag that a
  write is under way stays set, so nothing that is sent, received or timed leads to another block.
\<close>

theorem frames_write_error_stuck:
  assumes "runs (frames_step api) (new_Frames api mesh n) es s" and "list_all no_close es"
    and "frames_step api s (FWritten True) s1"
    and "runs (frames_step api) s1 es' s2" and "list_all no_close es'"
  shows "fp_out s2 = fp_out s"
proof -
  have "fp_writes s = 1 \<and> flushing s"
    using frames_one_write [OF assms(1,2)] assms(3) by (auto elim!: frames_stepE)
  then have "stuck (fp_out s) s1"
    using assms(3) by (auto elim!: frames_stepE simp: stuck_def frames_written_def Let_def)
  from st.runs_inv [OF assms(4,5) this] show ?thesis by (simp add: stuck_def)
qed

section \<open>One link\<close>

definition one_link :: "('f, 'm) frames_port \<Rightarrow> bool" where
  "one_link s \<longleftrightarrow>
     (case linked s of
        None \<Rightarrow> fp_piped s = [] \<and> fp_downs s = []
      | Some l \<Rightarrow> port_c_link s = Some l \<and> fp_piped s = [l] \<and> set (fp_downs s) \<subseteq> {l})"

interpretation ol: port_invariant api one_link "\<lambda>_. True" for api :: "('f, 'p, 'm) frames_api"
  by unfold_locales
    (auto simp: one_link_def frames_timer_def frames_written_def frames_close_def Let_def
      split: option.splits)

definition linked_to :: "nat \<Rightarrow> ('f, 'm) frames_port \<Rightarrow> bool" where
  "linked_to l s \<longleftrightarrow> linked s = Some l"

interpretation lt: port_invariant api "linked_to l" "\<lambda>_. True" for api :: "('f, 'p, 'm) frames_api" and l
  by unfold_locales
    (auto simp: linked_to_def frames_timer_def frames_written_def frames_close_def Let_def
      split: option.splits)

text \<open>
  A port serves one link for its whole life: once it has one, later packets and acceptances
  change nothing about it; \<open>link_pipe\<close> has been called for that link and once only, and closing
  takes down no other link.
\<close>

theorem frames_one_link:
  assumes "runs (frames_step api) (new_Frames api mesh n) es s" and "linked s = Some l"
    and "runs (frames_step api) s es' s'"
  shows "linked s' = Some l \<and> port_c_link s' = Some l \<and> fp_piped s' = [l] \<and> set (fp_downs s') \<subseteq> {l}"
proof -
  have new: "one_link (new_Frames api mesh n)"
    by (simp add: new_Frames_def frames_greeting_def Let_def one_link_def)
  have s: "one_link s" using ol.runs_inv [OF assms(1) _ new] by (simp add: list_all_iff)
  have "one_link s'" using ol.runs_inv [OF assms(3) _ s] by (simp add: list_all_iff)
  moreover have "linked s' = Some l"
    using lt.runs_inv [OF assms(3)] assms(2) by (simp add: linked_to_def list_all_iff)
  ultimately show ?thesis by (simp add: one_link_def)
qed

section \<open>Reading in full frames\<close>

lemma read_frames_step:
  "n \<le> length buf \<Longrightarrow> read_frames api n f buf = read_frames api n (take_frame api f (take n buf)) (drop n buf)"
  "length buf < n \<Longrightarrow> read_frames api n f buf = Some (f, buf)"
  by (subst read_frames.simps, simp)+

lemma read_frames_total: "0 < n \<Longrightarrow> \<exists>r. read_frames api n f buf = Some r \<and> length (snd r) < n"
proof (induction "length buf" arbitrary: f buf rule: less_induct)
  case less
  show ?case
    using less.hyps [of "drop n buf"] less.prems
    by (cases "n \<le> length buf") (auto simp: read_frames_step)
qed

lemma read_frames_zero:
  fixes api :: "('f, 'p, 'm) frames_api"
  shows "read_frames api 0 f buf = None"
proof -
  have pos: "n \<noteq> 0" if "read_frames a n f buf = Some r" for a :: "('f, 'p, 'm) frames_api" and n f buf r
    by (rule read_frames.raw_induct [OF _ that, where P = "\<lambda>a n f buf r. n \<noteq> 0"])
      (auto split: if_splits)
  show ?thesis
  proof (cases "read_frames api 0 f buf")
    case (Some r)
    from pos [OF this] show ?thesis by simp
  qed
qed

text \<open>The loop as a transformer of the pair of the library's state and the read buffer.\<close>

definition frames_read :: "('f, 'p, 'm) frames_api \<Rightarrow> nat \<Rightarrow> 'f \<times> bytes \<Rightarrow> bytes \<Rightarrow> 'f \<times> bytes" where
  "frames_read api n r data =
     (case read_frames api n (fst r) (snd r @ data) of None \<Rightarrow> r | Some r' \<Rightarrow> r')"

definition frames_read_ok :: "nat \<Rightarrow> 'f \<times> bytes \<Rightarrow> bool" where
  "frames_read_ok n r \<longleftrightarrow> length (snd r) < n"

lemma read_frames_append:
  assumes "0 < n"
  shows "read_frames api n f (buf @ b) =
    (case read_frames api n f buf of None \<Rightarrow> None | Some (f', buf') \<Rightarrow> read_frames api n f' (buf' @ b))"
  using assms
proof (induction "length buf" arbitrary: f buf rule: less_induct)
  case less
  show ?case
  proof (cases "n \<le> length buf")
    case True
    then show ?thesis
      using less.hyps [of "drop n buf" "take_frame api f (take n buf)"] less.prems
      by (simp add: read_frames_step(1))
  qed (simp add: read_frames_step(2))
qed

interpretation rd: total_byte_sink "frames_read api n" "frames_read_ok n" for api :: "('f, 'p, 'm) frames_api" and n
proof
  fix r :: "'f \<times> bytes" and a b :: bytes
  assume ok: "frames_read_ok n r"
  then have n: "0 < n" by (auto simp: frames_read_ok_def)
  obtain r' where r': "read_frames api n (fst r) (snd r @ a) = Some r'" "length (snd r') < n"
    using read_frames_total [OF n, of api "fst r" "snd r @ a"] by auto
  then show "frames_read_ok n (frames_read api n r a)"
    by (simp add: frames_read_def frames_read_ok_def)
  show "frames_read api n r [] = r"
    using ok by (simp add: frames_read_def frames_read_ok_def read_frames_step(2))
  show "frames_read api n r (a @ b) = frames_read api n (frames_read api n r a) b"
    using read_frames_append [OF n, of api "fst r" "snd r @ a" b] r'
      read_frames_total [OF n, of api "fst r'" "snd r' @ b"]
    by (auto simp: frames_read_def split: prod.splits option.splits)
qed

text \<open>The full frames of a byte sequence, and what is left.\<close>

definition full_frames :: "nat \<Rightarrow> bytes \<Rightarrow> bytes list" where
  "full_frames n xs = map (\<lambda>i. take n (drop (i * n) xs)) [0..<length xs div n]"

definition partial_frame :: "nat \<Rightarrow> bytes \<Rightarrow> bytes" where
  "partial_frame n xs = drop (length xs div n * n) xs"

lemma full_frames_step:
  assumes "0 < n" and "n \<le> length xs"
  shows "full_frames n xs = take n xs # full_frames n (drop n xs)"
    and "partial_frame n (drop n xs) = partial_frame n xs"
proof -
  have k: "length xs div n = Suc ((length xs - n) div n)"
    using assms by (simp add: le_div_geq)
  have "[0..<length xs div n] = 0 # map Suc [0..<(length xs - n) div n]"
    by (simp only: k upt_conv_Cons map_Suc_upt zero_less_Suc)
  then show "full_frames n xs = take n xs # full_frames n (drop n xs)"
    by (simp add: full_frames_def comp_def add.commute)
  show "partial_frame n (drop n xs) = partial_frame n xs"
    by (simp add: partial_frame_def k add.commute)
qed

lemma read_frames_full:
  "0 < n \<Longrightarrow> read_frames api n f buf = Some (foldl (take_frame api) f (full_frames n buf), partial_frame n buf)"
proof (induction "length buf" arbitrary: f buf rule: less_induct)
  case less
  show ?case
  proof (cases "n \<le> length buf")
    case True
    then show ?thesis
      using less.hyps [of "drop n buf"] less.prems full_frames_step [of n buf]
      by (simp add: read_frames_step(1))
  next
    case False
    then show ?thesis by (simp add: read_frames_step(2) full_frames_def partial_frame_def)
  qed
qed

text \<open>
  C24. How the stream is cut into \<open>'data'\<close> events does not matter to the reading loop: the library is
  given, in order, exactly the full frames of the whole stream, each with the reset that follows a
  refused one, and the bytes after the last full frame wait in the buffer.
\<close>

theorem frames_read_fragments:
  assumes "0 < n"
  shows "foldl (frames_read api n) (f, []) ds =
    (foldl (take_frame api) f (full_frames n (concat ds)), partial_frame n (concat ds))"
proof -
  have "foldl (frames_read api n) (f, []) ds = frames_read api n (f, []) (concat ds)"
    by (rule rd.feed_concat) (use assms in \<open>simp add: frames_read_ok_def\<close>)
  then show ?thesis using assms by (simp add: frames_read_def read_frames_full)
qed

section \<open>Returning from the data handler\<close>

text \<open>
  What the handlers rely on in the library: receiving takes a packet off its queue, \<open>queued\<close> long,
  and no other call lengthens the queue while the handler runs; a send is the only call that can
  make something pending.
\<close>

locale frames_laws =
  fixes api :: "('f, 'p, 'm) frames_api"
    and queued :: "'f \<Rightarrow> nat"
  assumes receive_takes: "api_receive api f = (f', Some p) \<Longrightarrow> queued f' < queued f"
    and send_keeps: "queued (api_send api f p) \<le> queued f"
    and write_keeps: "queued (api_sent api (fst (api_outbox api f n))) \<le> queued f"
    and pending_receive: "api_pending api (fst (api_receive api f)) = api_pending api f"
    and pending_inbox: "api_pending api (api_inbox api f d) = api_pending api f"
    and pending_clear: "api_pending api (api_clear api f) = api_pending api f"
begin

lemma flush_keeps: "queued (c_frames (frames_flush api s)) \<le> queued (c_frames s)"
  using write_keeps [of "c_frames s" "frame_size s"]
  by (auto simp: frames_flush_def split: prod.split)

lemma pipe_keeps: "queued (c_frames (frames_pipe api p s)) \<le> queued (c_frames s)"
  using flush_keeps [of "s\<lparr>c_frames := api_send api (c_frames s) (the p)\<rparr>"]
    send_keeps [of "c_frames s" "the p"]
  by (auto simp: frames_pipe_def split: option.split)

lemma call_keeps: "queued (c_frames (frames_call api r s)) \<le> queued (c_frames s)"
proof -
  have "queued (c_frames (fold (frames_pipe api) ps s)) \<le> queued (c_frames s)" for ps s
    by (induction ps arbitrary: s) (auto intro: order_trans pipe_keeps)
  from this [of "snd r" "s\<lparr>c_mesh := fst r\<rparr>"] show ?thesis by (simp add: frames_call_def)
qed

lemma plumb_keeps: "queued (c_frames (frames_plumb api l s)) \<le> queued (c_frames s)"
proof -
  define s1 where "s1 = frames_call api (api_mesh_link api (c_mesh s) l) (s\<lparr>port_c_link := Some l\<rparr>)"
  define s2 where "s2 = s1\<lparr>linked := Some l, fp_piped := fp_piped s1 @ [l]\<rparr>"
  have "queued (c_frames s2) \<le> queued (c_frames s)"
    using call_keeps [of _ "s\<lparr>port_c_link := Some l\<rparr>"] by (simp add: s2_def s1_def)
  moreover have "frames_plumb api l s = frames_call api (api_link_pipe api (c_mesh s2) l) s2"
    by (simp add: frames_plumb_def Let_def s1_def s2_def)
  ultimately show ?thesis using call_keeps [of _ s2] by (metis order_trans)
qed

lemma packet_keeps: "queued (c_frames (frames_packet api p s)) \<le> queued (c_frames s)"
  using call_keeps order_trans [OF plumb_keeps call_keeps]
  by (auto simp: frames_packet_def frames_linked_def split: prod.split option.split)

lemma receive_packets_returns: "\<exists>s'. receive_packets api s = Some s'"
proof (induction "queued (c_frames s)" arbitrary: s rule: less_induct)
  case less
  obtain f r where fr: "api_receive api (c_frames s) = (f, r)" by fastforce
  show ?case
  proof (cases r)
    case None
    then show ?thesis by (subst receive_packets.simps) (simp add: fr)
  next
    case (Some p)
    then have "queued (c_frames (frames_packet api p (s\<lparr>c_frames := f\<rparr>))) < queued (c_frames s)"
      using receive_takes fr packet_keeps [of p "s\<lparr>c_frames := f\<rparr>"] by fastforce
    from less [OF this] Some show ?thesis by (subst receive_packets.simps) (simp add: fr)
  qed
qed

lemma data_returns: "0 < frame_size s \<Longrightarrow> \<exists>s'. frames_data api d s = Some s'"
  using read_frames_total [of "frame_size s" api "c_frames s" "readbuf s @ d"] receive_packets_returns
  by (auto simp: frames_data_def)

lemma pending_take_frame: "api_pending api (take_frame api f d) = api_pending api f"
  by (simp add: take_frame_def Let_def pending_clear pending_inbox)

lemma pending_read_frames:
  "read_frames api n f buf = Some (f', buf') \<Longrightarrow> api_pending api f' = api_pending api f"
proof -
  assume r: "read_frames api n f buf = Some (f', buf')"
  then have n: "0 < n" using read_frames_zero [of api f buf] by (cases n) auto
  have "api_pending api (foldl (take_frame api) g ds) = api_pending api g" for g ds
    by (induction ds arbitrary: g) (simp_all add: pending_take_frame)
  then show ?thesis using r by (auto simp: read_frames_full [OF n])
qed

end

text \<open>
  C26. With a frame size above 0 the handler of \<open>'data'\<close> returns, whatever the data and whatever the
  packets make the mesh do, and with a frame size of 0 it never does.
\<close>

theorem frames_data_returns:
  assumes "frames_laws api queued"
  shows "frames_data api d s \<noteq> None \<longleftrightarrow> 0 < frame_size s"
proof
  assume "frames_data api d s \<noteq> None"
  then show "0 < frame_size s"
    using read_frames_zero [of api "c_frames s" "readbuf s @ d"]
    by (cases "frame_size s") (auto simp: frames_data_def)
next
  assume "0 < frame_size s"
  from frames_laws.data_returns [OF assms this] show "frames_data api d s \<noteq> None" by auto
qed

section \<open>No lost wake-up\<close>

text \<open>Something to write has a write under way, or a timer set to look again.\<close>

definition awake :: "('f, 'p, 'm) frames_api \<Rightarrow> ('f, 'm) frames_port \<Rightarrow> bool" where
  "awake api s \<longleftrightarrow> (api_pending api (c_frames s) \<longrightarrow> flushing s \<or> 0 < fp_timers s)"

lemma awake_flush: "awake api (frames_flush api s)"
  by (auto simp: awake_def frames_flush_def split: prod.split)

sublocale frames_laws \<subseteq> aw: port_invariant api "awake api" no_close
  by unfold_locales
    (auto simp: awake_flush frames_timer_def no_close_def, auto simp: awake_def
      frames_written_def Let_def pending_receive dest: pending_read_frames)

context frames_laws
begin

lemma awake_run:
  "runs (frames_step api) s es s' \<Longrightarrow> list_all no_close es \<Longrightarrow> awake api s \<Longrightarrow> awake api s'"
  by (rule aw.runs_inv)

end



section \<open>The library of this repository\<close>

text \<open>
  The functions of \<open>src/util/frames.c\<close> behind the names the class calls, as the bridge passes its
  arguments: \<open>util_frames_new(frame_size)\<close> has the frame size for the magic number and 0 for the
  largest packet; \<open>util_frames_inbox(frames, frame, null)\<close> has a length of 0;
  \<open>util_frames_outbox(frames, frame, null)\<close> takes the block for the place of the length, stores it
  there and returns a pointer that is dropped. \<open>junk\<close> is what a fresh block holds. A fault ends the
  library's service.
\<close>

definition on_frames :: "(frames \<Rightarrow> c_fault + frames) \<Rightarrow> c_fault + frames \<Rightarrow> c_fault + frames" where
  "on_frames g r = (case r of Inl e \<Rightarrow> Inl e | Inr f \<Rightarrow> g f)"

definition c_inbox :: "c_fault + frames \<Rightarrow> bytes \<Rightarrow> c_fault + frames" where
  "c_inbox r frame = on_frames (\<lambda>f. ret_state (util_frames_inbox f (take 0 frame))) r"

definition c_outbox :: "(nat \<Rightarrow> bytes) \<Rightarrow> c_fault + frames \<Rightarrow> nat \<Rightarrow> (c_fault + frames) \<times> bytes" where
  "c_outbox junk r n =
     (case r of
        Inl e \<Rightarrow> (Inl e, take n (junk n))
      | Inr f \<Rightarrow>
          (let (f', _) = util_frames_outbox f
           in (Inr f', take n (le32 (of_nat (outlen f')) @ drop 4 (junk n)))))"

definition c_receive :: "c_fault + frames \<Rightarrow> (c_fault + frames) \<times> lob option" where
  "c_receive r =
     (case r of
        Inl e \<Rightarrow> (Inl e, None)
      | Inr f \<Rightarrow> (let (f', p) = util_frames_receive f in (Inr f', p)))"

definition c_pending :: "c_fault + frames \<Rightarrow> bool" where
  "c_pending r \<longleftrightarrow> (case r of Inl _ \<Rightarrow> False | Inr f \<Rightarrow> util_frames_pending f)"

definition c_frames_api ::
  "(nat \<Rightarrow> bytes) \<Rightarrow> (c_fault + frames, lob, 'm) frames_api \<Rightarrow> (c_fault + frames, lob, 'm) frames_api" where
  "c_frames_api junk api =
     api\<lparr>api_new := \<lambda>n. Inr (util_frames_new (of_nat n) 0),
         api_inbox := c_inbox,
         api_ok := \<lambda>r. (case r of Inl _ \<Rightarrow> False | Inr f \<Rightarrow> util_frames_ok f),
         api_clear := on_frames (\<lambda>f. Inr (util_frames_clear f)),
         api_pending := c_pending,
         api_outbox := c_outbox junk,
         api_sent := on_frames (\<lambda>f. ret_state (util_frames_sent f)),
         api_send := \<lambda>r p. on_frames (\<lambda>f. Inr (fst (util_frames_send f (Some p)))) r,
         api_receive := c_receive\<rparr>"

definition c_queued :: "c_fault + frames \<Rightarrow> nat" where
  "c_queued r = (case r of Inl _ \<Rightarrow> 0 | Inr f \<Rightarrow> length (qlob_packets (inbox f)))"

lemma c_inbox_same [simp]: "c_inbox r d = r"
  by (cases r) (simp_all add: c_inbox_def on_frames_def util_frames_inbox.simps)

lemma sent_inbox: "util_frames_sent f = Inr (f', b) \<Longrightarrow> inbox f' = inbox f"
  by (auto simp: util_frames_sent_def Let_def split: list.splits if_splits out_ptr.splits)

lemma outbox_inbox: "inbox (fst (util_frames_outbox f)) = inbox f"
  by (auto simp: util_frames_outbox_def Let_def split: list.splits out_ptr.splits)

interpretation cl: frames_laws "c_frames_api junk api" c_queued
  for junk and api :: "(c_fault + frames, lob, 'm) frames_api"
proof
  fix r r' :: "c_fault + frames" and p n d
  show "c_queued r' < c_queued r" if t: "api_receive (c_frames_api junk api) r = (r', Some p)"
  proof (cases r)
    case (Inr f)
    then obtain q ps where "qlob_packets (inbox f) = q # ps"
      using t qlob_take_packets(1) [of "inbox f"]
      by (cases "qlob_packets (inbox f)")
        (auto simp: c_frames_api_def c_receive_def util_frames_receive_def Let_def)
    with Inr t qlob_take_packets(2) [OF this] show ?thesis
      by (auto simp: c_frames_api_def c_receive_def util_frames_receive_def Let_def c_queued_def
          case_prod_unfold)
  qed (use t in \<open>simp add: c_frames_api_def c_receive_def\<close>)
  show "c_queued (api_send (c_frames_api junk api) r p) \<le> c_queued r"
    by (cases r) (simp_all add: c_frames_api_def c_queued_def on_frames_def util_frames_send_def Let_def)
  show "c_queued (api_sent (c_frames_api junk api) (fst (api_outbox (c_frames_api junk api) r n))) \<le> c_queued r"
    using outbox_inbox
    by (auto simp: c_frames_api_def c_queued_def on_frames_def c_outbox_def Let_def case_prod_unfold
        ret_state_Inr dest: sent_inbox split: sum.splits)
  show "api_pending (c_frames_api junk api) (fst (api_receive (c_frames_api junk api) r)) =
      api_pending (c_frames_api junk api) r"
    by (auto simp: c_frames_api_def c_pending_def c_receive_def util_frames_receive_def Let_def
        case_prod_unfold util_frames_pending_def util_frames_outlen_def split: sum.splits)
  show "api_pending (c_frames_api junk api) (api_inbox (c_frames_api junk api) r d) =
      api_pending (c_frames_api junk api) r"
    by (simp add: c_frames_api_def)
  show "api_pending (c_frames_api junk api) (api_clear (c_frames_api junk api) r) =
      api_pending (c_frames_api junk api) r"
    by (auto simp: c_frames_api_def c_pending_def on_frames_def util_frames_clear_def
        util_frames_pending_def util_frames_outlen_def split: sum.splits)
qed


section \<open>A port on this library hears nothing\<close>

definition deaf :: "(nat \<Rightarrow> bytes) \<Rightarrow> nat \<Rightarrow> (c_fault + frames, 'm) frames_port \<Rightarrow> bool" where
  "deaf junk n s \<longleftrightarrow> frame_size s = n \<and> c_queued (c_frames s) = 0 \<and>
     list_all (\<lambda>b. drop 4 b = drop 4 (take n (junk n))) (fp_out s)"

lemma c_queued_simps:
  "c_queued (api_sent (c_frames_api junk api) (fst (api_outbox (c_frames_api junk api) r n))) = 0"
  "c_queued (api_send (c_frames_api junk api) r p) = 0"
  "c_queued (fst (api_receive (c_frames_api junk api) r)) = 0"
  "snd (api_receive (c_frames_api junk api) r) = None"
  if "c_queued r = 0"
proof -
  show "c_queued (api_sent (c_frames_api junk api) (fst (api_outbox (c_frames_api junk api) r n))) = 0"
    using cl.write_keeps [of junk api r n] that by simp
  show "c_queued (api_send (c_frames_api junk api) r p) = 0"
    using cl.send_keeps [of junk api r p] that by simp
  have "\<exists>r'. api_receive (c_frames_api junk api) r = (r', None) \<and> c_queued r' = 0"
    using that qlob_take_packets(1)
    by (auto simp: c_frames_api_def c_receive_def util_frames_receive_def c_queued_def Let_def
        split: sum.splits)
  then show "c_queued (fst (api_receive (c_frames_api junk api) r)) = 0"
    "snd (api_receive (c_frames_api junk api) r) = None" by auto
qed

lemma c_outbox_block:
  "drop 4 (snd (api_outbox (c_frames_api junk api) r n)) = drop 4 (take n (junk n))"
proof (cases "n \<le> 4")
  case True
  then show ?thesis by (auto simp: c_frames_api_def c_outbox_def Let_def case_prod_unfold split: sum.split)
next
  case False
  then show ?thesis
    by (auto simp: c_frames_api_def c_outbox_def Let_def case_prod_unfold drop_take split: sum.split)
qed

lemma deaf_flush: "deaf junk n s \<Longrightarrow> deaf junk n (frames_flush (c_frames_api junk api) s)"
  using c_queued_simps(1) [of "c_frames s" junk api "frame_size s"]
    c_outbox_block [of junk api "c_frames s" "frame_size s"]
  by (auto simp: deaf_def frames_flush_def case_prod_unfold Let_def)

lemma deaf_read:
  assumes "read_frames (c_frames_api junk api) k r buf = Some (r', buf')" and "c_queued r = 0"
  shows "c_queued r' = 0"
proof -
  have k: "0 < k" using assms(1) read_frames_zero [of "c_frames_api junk api" r buf] by (cases k) auto
  have "c_queued (take_frame (c_frames_api junk api) r d) = 0" if "c_queued r = 0" for r d
    using that
    by (auto simp: take_frame_def c_frames_api_def c_queued_def on_frames_def util_frames_clear_def
        split: sum.splits)
  then have "c_queued (foldl (take_frame (c_frames_api junk api)) r ds) = 0" if "c_queued r = 0" for r ds
    using that by (induction ds arbitrary: r) simp_all
  then show ?thesis using assms by (auto simp: read_frames_full [OF k])
qed

interpretation df: port_invariant "c_frames_api junk api" "deaf junk n" "\<lambda>_. True"
  for junk and api :: "(c_fault + frames, lob, 'm) frames_api" and n
proof
  fix s :: "(c_fault + frames, 'm) frames_port" and p k buf f buf'
  assume s: "deaf junk n s"
  show "deaf junk n (frames_flush (c_frames_api junk api) s)" using s by (rule deaf_flush)
  show "deaf junk n (frames_flush (c_frames_api junk api)
      (s\<lparr>c_frames := api_send (c_frames_api junk api) (c_frames s) p\<rparr>))"
    by (rule deaf_flush) (use s in \<open>simp add: deaf_def c_queued_simps(2)\<close>)
  show "deaf junk n (s\<lparr>c_frames := fst (api_receive (c_frames_api junk api) (c_frames s))\<rparr>)"
    using s by (simp add: deaf_def c_queued_simps(3))
  show "deaf junk n (frames_timer (c_frames_api junk api) s)"
    unfolding frames_timer_def by (rule deaf_flush) (use s in \<open>simp add: deaf_def\<close>)
  show "read_frames (c_frames_api junk api) k (c_frames s) buf = Some (f, buf') \<Longrightarrow>
      deaf junk n (s\<lparr>c_frames := f, readbuf := buf'\<rparr>)"
    using s deaf_read [of junk api k "c_frames s" buf f buf'] by (simp add: deaf_def)
qed (auto simp: deaf_def frames_written_def frames_close_def Let_def split: option.splits)

definition no_accept :: "'p frames_event \<Rightarrow> bool" where
  "no_accept e \<longleftrightarrow> (case e of FAccept _ \<Rightarrow> False | _ \<Rightarrow> True)"

definition unlinked :: "(nat \<Rightarrow> bytes) \<Rightarrow> nat \<Rightarrow> (c_fault + frames, 'm) frames_port \<Rightarrow> bool" where
  "unlinked junk n s \<longleftrightarrow> deaf junk n s \<and> linked s = None"

lemma deaf_receive:
  assumes "deaf junk n s" and "receive_packets (c_frames_api junk api) s = Some s'"
  shows "linked s' = linked s"
  using assms(2) c_queued_simps(4) [of "c_frames s" junk api] assms(1)
  by (subst (asm) receive_packets.simps) (auto simp: deaf_def split: prod.splits)

lemma unlinked_data:
  assumes "frames_data (c_frames_api junk api) d s = Some s'" and "unlinked junk n s"
  shows "unlinked junk n s'"
proof -
  obtain f buf where r: "read_frames (c_frames_api junk api) (frame_size s) (c_frames s) (readbuf s @ d) = Some (f, buf)"
    and q: "receive_packets (c_frames_api junk api)
      (frames_flush (c_frames_api junk api) (s\<lparr>c_frames := f, readbuf := buf\<rparr>)) = Some s'"
    using assms(1) by (auto simp: frames_data_def split: option.splits)
  have "deaf junk n (frames_flush (c_frames_api junk api) (s\<lparr>c_frames := f, readbuf := buf\<rparr>))"
    using assms(2) deaf_read [OF r] by (intro deaf_flush) (auto simp: unlinked_def deaf_def)
  from deaf_receive [OF this q] show ?thesis
    using df.data_inv [OF assms(1)] assms(2) by (simp add: unlinked_def)
qed

interpretation ul: event_invariant "frames_step (c_frames_api junk api)" no_accept "unlinked junk n"
  for junk and api :: "(c_fault + frames, lob, 'm) frames_api" and n
proof
  fix s s' :: "(c_fault + frames, 'm) frames_port" and e
  assume st: "frames_step (c_frames_api junk api) s e s'" and e: "no_accept e" and u: "unlinked junk n s"
  have d: "deaf junk n s'" using df.port_step_inv [OF st] u by (simp add: unlinked_def)
  show "unlinked junk n s'"
    using st
  proof cases
    case (fs_data d m)
    then show ?thesis
      using unlinked_data [of junk api d "s\<lparr>c_mesh := m\<rparr>" s' n] u by (simp add: unlinked_def deaf_def)
  next
    case (fs_accept d m)
    then show ?thesis using e by (simp add: no_accept_def)
  qed (use u d in \<open>auto simp: unlinked_def frames_written_def frames_timer_def frames_close_def
        Let_def split: option.splits\<close>)
qed

text \<open>
  C27. On the library of this repository the port never hears its peer and never says anything to
  it: whatever arrives, no packet comes out and no link is made unless the application accepts a
  discovery, and every block written is, after its first four bytes, what a fresh block of memory
  held.
\<close>

theorem frames_port_deaf:
  assumes "runs (frames_step (c_frames_api junk api)) (new_Frames (c_frames_api junk api) mesh n) es s"
    and "list_all no_accept es"
  shows "linked s = None \<and> snd (api_receive (c_frames_api junk api) (c_frames s)) = None \<and>
    list_all (\<lambda>b. drop 4 b = drop 4 (take n (junk n))) (fp_out s)"
proof -
  have "deaf junk n (new_Frames (c_frames_api junk api) mesh n)"
    unfolding new_Frames_def frames_greeting_def Let_def
    by (rule deaf_flush) (simp add: deaf_def c_queued_simps(2), simp add: c_frames_api_def
        c_queued_def on_frames_def util_frames_send_def util_frames_new_def Let_def)
  then have "unlinked junk n (new_Frames (c_frames_api junk api) mesh n)"
    by (simp add: unlinked_def) (simp add: new_Frames_def frames_greeting_def Let_def)
  from ul.runs_inv [OF assms this] show ?thesis
    using c_queued_simps(4) [of "c_frames s" junk api] by (simp add: unlinked_def deaf_def)
qed

section \<open>A port at work\<close>

text \<open>A mesh of one link, on the library above, for the concrete runs below.\<close>

definition demo_packet :: lob where
  "demo_packet = \<lparr>raw = [0, 0, 1, 2, 3, 4, 5, 6, 7], head_len = 0, body_len = 7\<rparr>"

definition demo_mesh :: "(c_fault + frames, lob, nat) frames_api" where
  "demo_mesh =
     \<lparr>api_new = \<lambda>n. Inl OverRead, api_inbox = \<lambda>r d. r, api_ok = \<lambda>r. True, api_clear = \<lambda>r. r,
      api_pending = \<lambda>r. True, api_outbox = \<lambda>r n. (r, []), api_sent = \<lambda>r. r,
      api_send = \<lambda>r p. r, api_receive = \<lambda>r. (r, None),
      api_mesh_receive = \<lambda>m p. (m, [], Some 5), api_mesh_link = \<lambda>m l. (m + 1, [None]),
      api_link_pipe = \<lambda>m l. (m, [Some demo_packet]), api_mesh_add = \<lambda>m p. (m, [], Some 7),
      api_mesh_json = \<lambda>m. demo_packet\<rparr>"

abbreviation "demo_api \<equiv> c_frames_api (\<lambda>n. replicate n 170) demo_mesh"

definition demo_0 :: "(c_fault + frames, nat) frames_port" where
  "demo_0 = new_Frames demo_api 0 16"

definition demo_1 :: "(c_fault + frames, nat) frames_port" where
  "demo_1 = frames_accept demo_api demo_packet (demo_0\<lparr>c_mesh := 3\<rparr>)"

definition demo_2 :: "(c_fault + frames, nat) frames_port" where
  "demo_2 = frames_written False demo_1"

definition demo_3 :: "(c_fault + frames, nat) frames_port" where
  "demo_3 = frames_timer demo_api demo_2"

lemma demo_values:
  "fp_writes demo_1 = 1" "fp_timers demo_2 = 1" "linked demo_1 = Some 7" "fp_writes demo_3 = 1"
  "api_pending demo_api (c_frames demo_3)"
  by code_simp+

lemma demo_runs:
  "runs (frames_step demo_api) demo_0 [FAccept demo_packet] demo_1"
  "runs (frames_step demo_api) demo_1 [FWritten False, FTimer] demo_3"
  "runs (frames_step demo_api) demo_0 [FAccept demo_packet, FWritten False, FTimer] demo_3"
proof -
  have 1: "frames_step demo_api demo_0 (FAccept demo_packet) demo_1"
    unfolding demo_1_def by (rule fs_accept)
  have 2: "frames_step demo_api demo_1 (FWritten False) demo_2"
    unfolding demo_2_def by (rule fs_written) (simp add: demo_values)
  have 3: "frames_step demo_api demo_2 FTimer demo_3"
    unfolding demo_3_def by (rule fs_timer) (simp add: demo_values)
  show "runs (frames_step demo_api) demo_0 [FAccept demo_packet] demo_1" using 1 by blast
  show "runs (frames_step demo_api) demo_1 [FWritten False, FTimer] demo_3" using 2 3 by blast
  show "runs (frames_step demo_api) demo_0 [FAccept demo_packet, FWritten False, FTimer] demo_3"
    using 1 2 3 by blast
qed

lemma demo_allowed: "list_all no_close [FAccept demo_packet, FWritten False, FTimer]"
  by (simp add: no_close_def)

theorem frames_one_write_witness:
  "fp_writes demo_3 \<le> 1 \<and> (flushing demo_3 \<or> fp_writes demo_3 = 0)"
  using frames_one_write [OF demo_runs(3) [unfolded demo_0_def] demo_allowed] by linarith

theorem frames_write_error_stuck_witness:
  "fp_out (frames_pipe demo_api (Some demo_packet) (frames_written True demo_3\<lparr>c_mesh := 0\<rparr>)) = fp_out demo_3"
proof (rule frames_write_error_stuck [OF demo_runs(3) [unfolded demo_0_def] demo_allowed])
  show "frames_step demo_api demo_3 (FWritten True) (frames_written True demo_3)"
    by (rule fs_written) (simp add: demo_values)
  have "fp_piped (frames_written True demo_3) = [7]" by code_simp
  then have "frames_step demo_api (frames_written True demo_3) (FPipe (Some demo_packet))
      (frames_pipe demo_api (Some demo_packet) (frames_written True demo_3\<lparr>c_mesh := 0\<rparr>))"
    by (intro fs_pipe) simp
  then show "runs (frames_step demo_api) (frames_written True demo_3) [FPipe (Some demo_packet)]
      (frames_pipe demo_api (Some demo_packet) (frames_written True demo_3\<lparr>c_mesh := 0\<rparr>))" by blast
qed (simp add: no_close_def)

theorem frames_one_link_witness:
  "linked demo_3 = Some 7 \<and> port_c_link demo_3 = Some 7 \<and> fp_piped demo_3 = [7] \<and> set (fp_downs demo_3) \<subseteq> {7}"
  by (rule frames_one_link [OF demo_runs(1) [unfolded demo_0_def] demo_values(3) demo_runs(2)])

theorem frames_read_fragments_witness:
  "foldl (frames_read demo_api 4) (Inr (util_frames_new 4 0), []) [[1], [2, 3, 4, 5], [6]] =
    (foldl (take_frame demo_api) (Inr (util_frames_new 4 0)) [[1, 2, 3, 4]], [5, 6])"
proof -
  have "full_frames 4 (concat [[1], [2, 3, 4, 5], [6 :: u8]]) = [[1, 2, 3, 4]]"
    "partial_frame 4 (concat [[1], [2, 3, 4, 5], [6 :: u8]]) = [5, 6]"
    by (simp_all add: full_frames_def partial_frame_def)
  then show ?thesis
    using frames_read_fragments [of 4 demo_api "Inr (util_frames_new 4 0)" "[[1], [2, 3, 4, 5], [6]]"]
    by simp
qed

theorem frames_data_returns_witness:
  "frames_data demo_api [1, 2, 3] demo_3 \<noteq> None \<longleftrightarrow> 0 < frame_size demo_3"
  by (rule frames_data_returns [OF cl.frames_laws_axioms])


theorem frames_port_deaf_witness:
  "\<exists>s. runs (frames_step demo_api) demo_0 [FData (replicate 16 1)] s \<and> linked s = None \<and>
    snd (api_receive demo_api (c_frames s)) = None \<and>
    list_all (\<lambda>b. drop 4 b = drop 4 (take 16 (replicate 16 170))) (fp_out s)"
proof -
  have "0 < frame_size (demo_0\<lparr>c_mesh := 0\<rparr>)" by (simp add: demo_0_def new_Frames_def frames_greeting_def Let_def)
  then obtain s where "frames_data demo_api (replicate 16 1) (demo_0\<lparr>c_mesh := 0\<rparr>) = Some s"
    using cl.data_returns by blast
  then have "frames_step demo_api demo_0 (FData (replicate 16 1)) s" by (rule fs_data)
  then have r: "runs (frames_step demo_api) demo_0 [FData (replicate 16 1)] s" by blast
  have a: "list_all no_accept [FData (replicate 16 1)]" by (simp add: no_accept_def)
  show ?thesis using frames_port_deaf [OF r [unfolded demo_0_def] a] r by blast
qed

end
