(* ===== verification/JsChunks.thy ===== *)
theory JsChunks
  imports JsBridge
begin

text \<open>
  The class \<open>Chunks\<close> of \<open>js/core.js\<close>: a mesh over a stream, through the chunking stream of the
  package \<open>lob-enc\<close>, which is not part of this repository. What that stream does appears as events:
  a block to write (\<open>KData\<close>), a packet or an error (\<open>KPacket\<close>); what the port hands to it is listed
  in \<open>ck_sent\<close>.

  The variables the handlers share are the fields of \<open>chunks_port\<close>; \<open>link\<close> is the variable that each
  received packet assigns. \<open>ck_writes\<close>, \<open>ck_drains\<close> and \<open>ck_timers\<close> count the callbacks the event
  loop still owes, \<open>ck_closers\<close> the handlers of \<open>'close'\<close>, and \<open>ck_downs\<close> lists the link each of
  them looked up (\<open>None\<close> for NULL).
\<close>

record ('p, 'm) chunks_api =
  ck_mesh_receive :: "'m \<Rightarrow> 'p \<Rightarrow> 'm \<times> 'p option list \<times> nat option"
  ck_mesh_link :: "'m \<Rightarrow> nat \<Rightarrow> 'm \<times> 'p option list"
  ck_link_pipe :: "'m \<Rightarrow> nat \<Rightarrow> 'm \<times> 'p option list"
  ck_greeting :: "'m \<Rightarrow> 'p"

record ('p, 'm) chunks_port =
  ck_mesh :: 'm
  datas :: "bytes list"
  ck_flushing :: bool
  link :: "nat option"
  ck_linked :: bool
  ck_c_link :: "nat option"
  ck_writes :: nat
  ck_drains :: nat
  ck_timers :: nat
  ck_closers :: nat
  ck_out :: "bytes list"
  ck_sent :: "'p list"
  ck_piped :: "nat list"
  ck_downs :: "nat option list"

section \<open>Writing\<close>

text \<open>\<open>push\<close> and \<open>shift\<close> of the array \<open>datas\<close>.\<close>

definition arr_push :: "'a list \<Rightarrow> 'a \<Rightarrow> 'a list" where
  "arr_push xs x = xs @ [x]"

fun arr_shift :: "'a list \<Rightarrow> 'a option \<times> 'a list" where
  "arr_shift [] = (None, [])"
| "arr_shift (x # xs) = (Some x, xs)"

interpretation dq: fifo arr_push arr_shift "\<lambda>xs. xs"
  by unfold_locales (auto simp: arr_push_def)

definition chunks_flush :: "('p, 'm) chunks_port \<Rightarrow> ('p, 'm) chunks_port" where
  "chunks_flush s =
     (if \<not> ck_flushing s \<and> datas s \<noteq> [] then
        (case arr_shift (datas s) of
           (None, ds) \<Rightarrow> s
         | (Some d, ds) \<Rightarrow>
             s\<lparr>ck_flushing := True, datas := ds, ck_out := ck_out s @ [d], ck_writes := ck_writes s + 1\<rparr>)
      else s)"

text \<open>The callback of \<open>stream.write\<close>: without an error the stream is drained next.\<close>

definition chunks_written :: "bool \<Rightarrow> ('p, 'm) chunks_port \<Rightarrow> ('p, 'm) chunks_port" where
  "chunks_written err s =
     (let s = s\<lparr>ck_writes := ck_writes s - 1\<rparr> in
      if err then s else s\<lparr>ck_drains := ck_drains s + 1\<rparr>)"

definition chunks_drained :: "bool \<Rightarrow> ('p, 'm) chunks_port \<Rightarrow> ('p, 'm) chunks_port" where
  "chunks_drained err s =
     (let s = s\<lparr>ck_drains := ck_drains s - 1, ck_flushing := False\<rparr> in
      if err then s else s\<lparr>ck_timers := ck_timers s + 1\<rparr>)"

definition chunks_timer :: "('p, 'm) chunks_port \<Rightarrow> ('p, 'm) chunks_port" where
  "chunks_timer s = chunks_flush (s\<lparr>ck_timers := ck_timers s - 1\<rparr>)"

text \<open>The handler of \<open>'data'\<close> of the chunking stream.\<close>

definition chunks_data :: "bytes \<Rightarrow> ('p, 'm) chunks_port \<Rightarrow> ('p, 'm) chunks_port" where
  "chunks_data d s = chunks_flush (s\<lparr>datas := arr_push (datas s) d\<rparr>)"

section \<open>Linking\<close>

text \<open>The callback given to \<open>link_pipe\<close>, and a call into the mesh with the packets it passed there.\<close>

definition chunks_pipe :: "'p option \<Rightarrow> ('p, 'm) chunks_port \<Rightarrow> ('p, 'm) chunks_port" where
  "chunks_pipe packet s =
     (case packet of None \<Rightarrow> s | Some p \<Rightarrow> s\<lparr>ck_sent := ck_sent s @ [p]\<rparr>)"

definition chunks_call :: "'m \<times> 'p option list \<Rightarrow> ('p, 'm) chunks_port \<Rightarrow> ('p, 'm) chunks_port" where
  "chunks_call r s = fold chunks_pipe (snd r) (s\<lparr>ck_mesh := fst r\<rparr>)"

text \<open>\<open>receive(err, packet)\<close>, with \<open>None\<close> for an error or no packet.\<close>

definition chunks_receive ::
  "('p, 'm) chunks_api \<Rightarrow> 'p option \<Rightarrow> ('p, 'm) chunks_port \<Rightarrow> ('p, 'm) chunks_port" where
  "chunks_receive api packet s =
     (case packet of
        None \<Rightarrow> s
      | Some p \<Rightarrow>
          (let (m, sent, r) = ck_mesh_receive api (ck_mesh s) p;
               s = (chunks_call (m, sent) s)\<lparr>link := r\<rparr> in
           case link s of
             None \<Rightarrow> s
           | Some l \<Rightarrow>
               if ck_linked s then s
               else
                 let s = chunks_call (ck_mesh_link api (ck_mesh s) l) s;
                     s = s\<lparr>ck_c_link := Some l, ck_linked := True, ck_piped := ck_piped s @ [l]\<rparr>;
                     s = chunks_call (ck_link_pipe api (ck_mesh s) l) s
                 in s\<lparr>ck_closers := ck_closers s + 1\<rparr>))"

text \<open>\<open>'close'\<close> runs every handler registered; each looks up the value \<open>link\<close> has then.\<close>

definition chunks_close :: "('p, 'm) chunks_port \<Rightarrow> ('p, 'm) chunks_port" where
  "chunks_close s = s\<lparr>ck_downs := ck_downs s @ replicate (ck_closers s) (link s)\<rparr>"

definition chunks_cleanup :: "nat option \<Rightarrow> ('p, 'm) chunks_port \<Rightarrow> bool" where
  "chunks_cleanup c_link s \<longleftrightarrow> c_link = ck_c_link s"

definition new_Chunks :: "('p, 'm) chunks_api \<Rightarrow> 'm \<Rightarrow> ('p, 'm) chunks_port" where
  "new_Chunks api mesh =
     \<lparr>ck_mesh = mesh, datas = [], ck_flushing = False, link = None, ck_linked = False,
      ck_c_link = None, ck_writes = 0, ck_drains = 0, ck_timers = 0, ck_closers = 0, ck_out = [],
      ck_sent = [ck_greeting api mesh], ck_piped = [], ck_downs = []\<rparr>"

section \<open>Events\<close>

datatype 'p chunks_event =
    KData bytes | KPacket "'p option" | KWritten bool | KDrained bool | KTimer | KPipe "'p option"
  | KClose

inductive chunks_step ::
  "('p, 'm) chunks_api \<Rightarrow> ('p, 'm) chunks_port \<Rightarrow> 'p chunks_event \<Rightarrow> ('p, 'm) chunks_port \<Rightarrow> bool"
  for api where
  ks_data: "chunks_step api s (KData d) (chunks_data d s)"
| ks_packet: "chunks_step api s (KPacket p) (chunks_receive api p (s\<lparr>ck_mesh := m\<rparr>))"
| ks_written: "0 < ck_writes s \<Longrightarrow> chunks_step api s (KWritten err) (chunks_written err s)"
| ks_drained: "0 < ck_drains s \<Longrightarrow> chunks_step api s (KDrained err) (chunks_drained err s)"
| ks_timer: "0 < ck_timers s \<Longrightarrow> chunks_step api s KTimer (chunks_timer s)"
| ks_pipe: "ck_piped s \<noteq> [] \<Longrightarrow> chunks_step api s (KPipe p) (chunks_pipe p s)"
| ks_close: "chunks_step api s KClose (chunks_close s)"

inductive_cases chunks_stepE: "chunks_step api s e s'"

lemma chunks_call_frame [simp]:
  "datas (chunks_call r s) = datas s" "ck_flushing (chunks_call r s) = ck_flushing s"
  "ck_writes (chunks_call r s) = ck_writes s" "ck_drains (chunks_call r s) = ck_drains s"
  "ck_timers (chunks_call r s) = ck_timers s" "ck_out (chunks_call r s) = ck_out s"
  "ck_linked (chunks_call r s) = ck_linked s" "ck_c_link (chunks_call r s) = ck_c_link s"
  "ck_piped (chunks_call r s) = ck_piped s" "ck_closers (chunks_call r s) = ck_closers s"
  "ck_downs (chunks_call r s) = ck_downs s" "link (chunks_call r s) = link s"
proof -
  define same where "same t u \<longleftrightarrow> datas t = datas u \<and> ck_flushing t = ck_flushing u \<and>
      ck_writes t = ck_writes u \<and> ck_drains t = ck_drains u \<and> ck_timers t = ck_timers u \<and>
      ck_out t = ck_out u \<and> ck_linked t = ck_linked u \<and> ck_c_link t = ck_c_link u \<and>
      ck_piped t = ck_piped u \<and> ck_closers t = ck_closers u \<and> ck_downs t = ck_downs u \<and>
      link t = link u" for t u :: "('a, 'b) chunks_port"
  have "same (fold chunks_pipe ps s) s" for ps s
  proof (induction ps arbitrary: s)
    case (Cons p ps)
    from Cons [of "chunks_pipe p s"] show ?case
      by (cases p) (simp_all add: chunks_pipe_def same_def)
  qed (simp add: same_def)
  from this [of "snd r" "s\<lparr>ck_mesh := fst r\<rparr>"] have "same (chunks_call r s) s"
    by (simp add: chunks_call_def same_def)
  then show "datas (chunks_call r s) = datas s" "ck_flushing (chunks_call r s) = ck_flushing s"
    "ck_writes (chunks_call r s) = ck_writes s" "ck_drains (chunks_call r s) = ck_drains s"
    "ck_timers (chunks_call r s) = ck_timers s" "ck_out (chunks_call r s) = ck_out s"
    "ck_linked (chunks_call r s) = ck_linked s" "ck_c_link (chunks_call r s) = ck_c_link s"
    "ck_piped (chunks_call r s) = ck_piped s" "ck_closers (chunks_call r s) = ck_closers s"
    "ck_downs (chunks_call r s) = ck_downs s" "link (chunks_call r s) = link s"
    by (simp_all add: same_def)
qed

text \<open>Receiving leaves the writing side alone.\<close>

lemma chunks_receive_frame [simp]:
  "datas (chunks_receive api p s) = datas s" "ck_flushing (chunks_receive api p s) = ck_flushing s"
  "ck_writes (chunks_receive api p s) = ck_writes s" "ck_drains (chunks_receive api p s) = ck_drains s"
  "ck_timers (chunks_receive api p s) = ck_timers s" "ck_out (chunks_receive api p s) = ck_out s"
  by (auto simp: chunks_receive_def Let_def split: option.split prod.split)

lemma chunks_pipe_frame [simp]:
  "datas (chunks_pipe p s) = datas s" "ck_flushing (chunks_pipe p s) = ck_flushing s"
  "ck_writes (chunks_pipe p s) = ck_writes s" "ck_drains (chunks_pipe p s) = ck_drains s"
  "ck_timers (chunks_pipe p s) = ck_timers s" "ck_out (chunks_pipe p s) = ck_out s"
  "ck_linked (chunks_pipe p s) = ck_linked s" "ck_c_link (chunks_pipe p s) = ck_c_link s"
  "ck_piped (chunks_pipe p s) = ck_piped s" "ck_closers (chunks_pipe p s) = ck_closers s"
  by (auto simp: chunks_pipe_def split: option.split)

lemma chunks_flush_cases:
  obtains "ck_flushing s \<or> datas s = []" and "chunks_flush s = s"
  | d ds where "\<not> ck_flushing s" and "datas s = d # ds"
    and "chunks_flush s = s\<lparr>ck_flushing := True, datas := ds, ck_out := ck_out s @ [d],
      ck_writes := ck_writes s + 1\<rparr>"
  by (cases "datas s") (auto simp: chunks_flush_def)

section \<open>Order of the blocks\<close>

text \<open>The blocks the chunking stream gave, in order.\<close>

definition block_of :: "'p chunks_event \<Rightarrow> bytes list" where
  "block_of e = (case e of KData d \<Rightarrow> [d] | _ \<Rightarrow> [])"

definition blocks_given :: "'p chunks_event list \<Rightarrow> bytes list" where
  "blocks_given es = concat (map block_of es)"

lemma chunks_flush_order [simp]: "ck_out (chunks_flush s) @ datas (chunks_flush s) = ck_out s @ datas s"
  by (cases s rule: chunks_flush_cases) auto

lemma chunks_step_order:
  "chunks_step api s e s' \<Longrightarrow> ck_out s' @ datas s' = ck_out s @ datas s @ block_of e"
  by (erule chunks_stepE)
    (auto simp: block_of_def chunks_data_def chunks_written_def chunks_drained_def chunks_timer_def
      chunks_close_def Let_def dq.items_enq)

lemma chunks_run_order:
  "runs (chunks_step api) s es s' \<Longrightarrow> ck_out s' @ datas s' = ck_out s @ datas s @ blocks_given es"
proof (induction rule: runs.induct)
  case (runs_Cons s e s1 es s2)
  then show ?case
    using chunks_step_order [OF runs_Cons.hyps(1)] by (simp add: blocks_given_def)
qed (simp add: blocks_given_def)

section \<open>One write at a time\<close>

definition ck_one_write :: "('p, 'm) chunks_port \<Rightarrow> bool" where
  "ck_one_write s \<longleftrightarrow>
     ck_writes s + ck_drains s \<le> 1 \<and> (\<not> ck_flushing s \<longrightarrow> ck_writes s + ck_drains s = 0)"

lemma ck_one_write_flush: "ck_one_write s \<Longrightarrow> ck_one_write (chunks_flush s)"
  by (cases s rule: chunks_flush_cases) (auto simp: ck_one_write_def)

interpretation kw: event_invariant "chunks_step api" "\<lambda>_. True" ck_one_write
  for api :: "('p, 'm) chunks_api"
proof
  fix s s' :: "('p, 'm) chunks_port" and e
  assume st: "chunks_step api s e s'" and inv: "ck_one_write s"
  have "ck_one_write (s\<lparr>datas := ds\<rparr>)" "ck_one_write (s\<lparr>ck_timers := k\<rparr>)" for ds k
    using inv by (simp_all add: ck_one_write_def)
  with st inv show "ck_one_write s'"
    by (elim chunks_stepE)
      (auto simp: chunks_data_def chunks_timer_def ck_one_write_flush,
        auto simp: ck_one_write_def chunks_written_def chunks_drained_def chunks_close_def Let_def)
qed

lemma ck_one_write_new: "ck_one_write (new_Chunks api mesh)"
  by (simp add: ck_one_write_def new_Chunks_def)

text \<open>
  C31. The chunk port writes what the chunking stream gives it in order and without loss: at every
  moment what has been written, followed by what waits, is all that was given; and a write is
  started only when the one before has been written and drained.
\<close>

theorem chunks_written_in_order:
  assumes "runs (chunks_step api) (new_Chunks api mesh) es s"
  shows "ck_out s @ datas s = blocks_given es \<and> ck_writes s + ck_drains s \<le> 1"
proof -
  have "ck_out s @ datas s = blocks_given es"
    using chunks_run_order [OF assms] by (simp add: new_Chunks_def)
  moreover have "ck_one_write s"
    using kw.runs_inv [OF assms _ ck_one_write_new] by (simp add: list_all_iff)
  ultimately show ?thesis by (simp add: ck_one_write_def)
qed

section \<open>Failures of the stream\<close>

definition ck_stuck :: "bytes list \<Rightarrow> ('p, 'm) chunks_port \<Rightarrow> bool" where
  "ck_stuck bs s \<longleftrightarrow> ck_flushing s \<and> ck_writes s = 0 \<and> ck_drains s = 0 \<and> ck_out s = bs"

interpretation ks: event_invariant "chunks_step api" "\<lambda>_. True" "ck_stuck bs"
  for api :: "('p, 'm) chunks_api" and bs
  by unfold_locales
    (auto elim!: chunks_stepE simp: ck_stuck_def chunks_data_def chunks_timer_def chunks_flush_def
      chunks_close_def)

text \<open>
  When a write fails, the chunk port never writes again, not even after the stream has closed:
  what comes later only waits.
\<close>

theorem chunks_write_error_stuck:
  assumes "runs (chunks_step api) (new_Chunks api mesh) es s"
    and "chunks_step api s (KWritten True) s1" and "runs (chunks_step api) s1 es' s2"
  shows "ck_out s2 = ck_out s \<and> datas s2 = datas s @ blocks_given es'"
proof -
  have s1: "0 < ck_writes s" "s1 = chunks_written True s" using assms(2) by (auto elim: chunks_stepE)
  have "ck_one_write s" using kw.runs_inv [OF assms(1) _ ck_one_write_new] by (simp add: list_all_iff)
  then have "ck_stuck (ck_out s) s1"
    using s1 by (auto simp: ck_stuck_def ck_one_write_def chunks_written_def Let_def)
  then have "ck_out s2 = ck_out s"
    using ks.runs_inv [OF assms(3)] by (simp add: ck_stuck_def list_all_iff)
  moreover have "ck_out s2 @ datas s2 = ck_out s @ datas s @ blocks_given es'"
    using chunks_run_order [OF assms(3)] s1 by (simp add: chunks_written_def Let_def)
  ultimately show ?thesis by simp
qed

text \<open>Something to write has a write or a drain under way, or a timer set.\<close>

definition ck_awake :: "('p, 'm) chunks_port \<Rightarrow> bool" where
  "ck_awake s \<longleftrightarrow> (datas s \<noteq> [] \<longrightarrow> ck_flushing s \<or> 0 < ck_timers s)"

definition drain_ok :: "'p chunks_event \<Rightarrow> bool" where
  "drain_ok e \<longleftrightarrow> e \<noteq> KDrained True"

lemma ck_awake_flush: "ck_awake (chunks_flush s)"
  by (cases s rule: chunks_flush_cases) (auto simp: ck_awake_def)

interpretation ka: event_invariant "chunks_step api" drain_ok ck_awake
  for api :: "('p, 'm) chunks_api"
  by unfold_locales
    (auto elim!: chunks_stepE simp: chunks_data_def chunks_timer_def ck_awake_flush drain_ok_def,
      auto simp: ck_awake_def chunks_written_def chunks_drained_def chunks_close_def Let_def
        split: if_splits)


section \<open>The link\<close>

text \<open>
  The handler of \<open>'close'\<close> is registered with the first link, once; \<open>_c_link\<close> and the pipe are that
  link's.
\<close>

definition ck_one_link :: "('p, 'm) chunks_port \<Rightarrow> bool" where
  "ck_one_link s \<longleftrightarrow>
     (if ck_linked s then \<exists>l. ck_c_link s = Some l \<and> ck_piped s = [l] \<and> ck_closers s = 1
      else ck_c_link s = None \<and> ck_piped s = [] \<and> ck_closers s = 0)"

lemma ck_one_link_cong:
  "ck_one_link s \<Longrightarrow> ck_linked s' = ck_linked s \<Longrightarrow> ck_c_link s' = ck_c_link s \<Longrightarrow>
     ck_piped s' = ck_piped s \<Longrightarrow> ck_closers s' = ck_closers s \<Longrightarrow> ck_one_link s'"
  unfolding ck_one_link_def by (simp only:)

lemma ck_one_link_receive: "ck_one_link s \<Longrightarrow> ck_one_link (chunks_receive api p s)"
  by (auto simp: chunks_receive_def Let_def ck_one_link_def split: option.split prod.split)

lemma chunks_flush_link:
  "ck_linked (chunks_flush s) = ck_linked s" "ck_c_link (chunks_flush s) = ck_c_link s"
  "ck_piped (chunks_flush s) = ck_piped s" "ck_closers (chunks_flush s) = ck_closers s"
  by (cases s rule: chunks_flush_cases; simp)+

interpretation kl: event_invariant "chunks_step api" "\<lambda>_. True" ck_one_link
  for api :: "('p, 'm) chunks_api"
proof
  fix s s' :: "('p, 'm) chunks_port" and e
  assume st: "chunks_step api s e s'" and inv: "ck_one_link s"
  show "ck_one_link s'"
    using st
  proof cases
    case (ks_packet p m)
    have "ck_one_link (s\<lparr>ck_mesh := m\<rparr>)" by (rule ck_one_link_cong [OF inv]) simp_all
    then show ?thesis using ks_packet(2) by (simp add: ck_one_link_receive)
  qed (auto intro: ck_one_link_cong [OF inv] simp: chunks_data_def chunks_timer_def
      chunks_flush_link chunks_written_def chunks_drained_def chunks_close_def Let_def)
qed

text \<open>What a received packet does to a port that has its link: it assigns the variable \<open>link\<close>.\<close>

lemma chunks_receive_linked:
  assumes "ck_linked s"
  shows "link (chunks_receive api (Some p) s) = snd (snd (ck_mesh_receive api (ck_mesh s) p)) \<and>
    ck_c_link (chunks_receive api (Some p) s) = ck_c_link s \<and>
    ck_piped (chunks_receive api (Some p) s) = ck_piped s \<and>
    ck_closers (chunks_receive api (Some p) s) = ck_closers s \<and>
    ck_downs (chunks_receive api (Some p) s) = ck_downs s"
  using assms by (auto simp: chunks_receive_def Let_def split: option.split prod.split)

text \<open>
  A linked chunk port that closes takes down the link its last packet came from, not the link it
  serves: if \<open>mesh_receive\<close> gave the packet to another link, or to none, that one is looked up, and
  the link the port was opened for (\<open>_c_link\<close>, whose packets go out through it) stays up.
\<close>

theorem chunks_close_last_link:
  assumes "runs (chunks_step api) (new_Chunks api mesh) es s" and "ck_linked s"
  shows "\<exists>l. ck_c_link s = Some l \<and> ck_piped s = [l] \<and>
    ck_downs (chunks_close (chunks_receive api (Some p) s)) =
      ck_downs s @ [snd (snd (ck_mesh_receive api (ck_mesh s) p))]"
proof -
  have "ck_one_link s"
    using kl.runs_inv [OF assms(1)]
    by (simp add: list_all_iff) (simp add: ck_one_link_def new_Chunks_def)
  then show ?thesis
    using chunks_receive_linked [OF assms(2), of api p] assms(2)
    by (auto simp: chunks_close_def ck_one_link_def)
qed

section \<open>A port at work\<close>

definition demo_chunks :: "(nat, nat) chunks_api" where
  "demo_chunks =
     \<lparr>ck_mesh_receive = \<lambda>m p. (m, [], if p = 0 then None else Some p),
      ck_mesh_link = \<lambda>m l. (m + 1, []), ck_link_pipe = \<lambda>m l. (m, [Some 9]),
      ck_greeting = \<lambda>m. 100\<rparr>"

definition demo_ck1 :: "(nat, nat) chunks_port" where
  "demo_ck1 = chunks_receive demo_chunks (Some 4) (new_Chunks demo_chunks 0\<lparr>ck_mesh := 2\<rparr>)"

definition demo_ck3 :: "(nat, nat) chunks_port" where
  "demo_ck3 = chunks_data [2] (chunks_data [1] demo_ck1)"

lemma demo_ck_runs:
  "runs (chunks_step demo_chunks) (new_Chunks demo_chunks 0) [KPacket (Some 4)] demo_ck1"
  "runs (chunks_step demo_chunks) (new_Chunks demo_chunks 0) [KPacket (Some 4), KData [1], KData [2]] demo_ck3"
proof -
  have 1: "chunks_step demo_chunks (new_Chunks demo_chunks 0) (KPacket (Some 4)) demo_ck1"
    unfolding demo_ck1_def by (rule ks_packet)
  then show "runs (chunks_step demo_chunks) (new_Chunks demo_chunks 0) [KPacket (Some 4)] demo_ck1" by blast
  show "runs (chunks_step demo_chunks) (new_Chunks demo_chunks 0) [KPacket (Some 4), KData [1], KData [2]] demo_ck3"
    using 1 unfolding demo_ck3_def by (blast intro: ks_data)
qed

lemma demo_ck_values:
  "ck_linked demo_ck1" "ck_mesh demo_ck1 = 3" "ck_downs demo_ck1 = []" "ck_writes demo_ck3 = 1"
  "datas demo_ck3 = [[2]]" "ck_out demo_ck3 = [[1]]"
  by code_simp+

theorem chunks_written_in_order_witness:
  "ck_out demo_ck3 @ datas demo_ck3 = [[1], [2]] \<and> ck_writes demo_ck3 + ck_drains demo_ck3 \<le> 1"
  using chunks_written_in_order [OF demo_ck_runs(2)] by (simp add: blocks_given_def block_of_def)

theorem chunks_write_error_stuck_witness:
  "ck_out (chunks_data [3] (chunks_written True demo_ck3)) = ck_out demo_ck3 \<and>
   datas (chunks_data [3] (chunks_written True demo_ck3)) = [[2], [3]]"
proof -
  have 1: "chunks_step demo_chunks demo_ck3 (KWritten True) (chunks_written True demo_ck3)"
    by (rule ks_written) (simp add: demo_ck_values)
  have 2: "runs (chunks_step demo_chunks) (chunks_written True demo_ck3) [KData [3]]
      (chunks_data [3] (chunks_written True demo_ck3))"
    by (blast intro: ks_data)
  show ?thesis
    using chunks_write_error_stuck [OF demo_ck_runs(2) 1 2]
    by (simp add: blocks_given_def block_of_def demo_ck_values)
qed


theorem chunks_close_last_link_witness:
  "\<exists>l. ck_c_link demo_ck1 = Some l \<and> ck_piped demo_ck1 = [l] \<and>
    ck_downs (chunks_close (chunks_receive demo_chunks (Some 0) demo_ck1)) = [None]"
  using chunks_close_last_link [OF demo_ck_runs(1) demo_ck_values(1), of 0]
  by (simp add: demo_ck_values) (simp add: demo_chunks_def)

end
