(* ===== verification/JsLinks.thy ===== *)
theory JsLinks
  imports JsBridge
begin

text \<open>
  The links of a mesh as JavaScript objects: the class \<open>Link\<close> of \<open>js/core.js\<close>, the handlers the
  class \<open>Mesh\<close> registers for links and discoveries, and the discovery handler of \<open>Frames\<close>.

  Objects live in the store \<open>m_objs\<close> and are named by their place in it; a Link keeps both the C
  link its constructor was given (captured by the handler of \<open>'down'\<close>) and the one assigned last.
  \<open>m_links\<close> and \<open>m_dead\<close> are the maps \<open>_links\<close> and \<open>_deadLinks\<close>; \<open>m_ticks\<close> is the queue of
  \<open>process.nextTick\<close>; \<open>m_emitted\<close> lists the events emitted and \<open>m_freed\<close> the C links given to
  \<open>link_free\<close>. The text of a C link's hashname is a parameter, \<open>hn\<close>.
\<close>

record link_obj =
  lk_ctor_link :: nat
  lk_c_link :: nat
  lk_hashname :: js_string
  lk_id :: js_string

datatype mesh_emit =
    ELink nat \<comment> \<open>\<open>'link'\<close> of the mesh, with the object\<close>
  | ELinkUp nat \<comment> \<open>\<open>'up'\<close> of a Link\<close>
  | EOpen "nat option" nat \<comment> \<open>\<open>'open'\<close> with the object or \<open>undefined\<close>, and the packet\<close>
  | EDiscover js_string
  | EUp \<comment> \<open>\<open>'up'\<close> of the mesh\<close>
  | EError nat

datatype tick =
    TLink js_string nat bool \<comment> \<open>id, object, \<open>no_emit\<close>\<close>
  | TOpen nat nat \<comment> \<open>C link and packet\<close>
  | TDiscover js_string

record mesh_js =
  m_accept :: "js_string set"
  m_reject :: "js_string set"
  m_links :: "js_string \<rightharpoonup> nat"
  m_dead :: "js_string \<rightharpoonup> nat"
  m_objs :: "link_obj list"
  m_discover_listeners :: nat
  m_ticks :: "tick list"
  m_emitted :: "mesh_emit list"
  m_freed :: "nat list"

definition emit :: "mesh_emit \<Rightarrow> mesh_js \<Rightarrow> mesh_js" where
  "emit e s = s\<lparr>m_emitted := m_emitted s @ [e]\<rparr>"

definition nextTick :: "tick \<Rightarrow> mesh_js \<Rightarrow> mesh_js" where
  "nextTick t s = s\<lparr>m_ticks := m_ticks s @ [t]\<rparr>"

definition new_Mesh :: mesh_js where
  "new_Mesh =
     \<lparr>m_accept = {}, m_reject = {}, m_links = Map.empty, m_dead = Map.empty, m_objs = [],
      m_discover_listeners = 0, m_ticks = [], m_emitted = [], m_freed = []\<rparr>"

section \<open>Link\<close>

text \<open>\<open>hashname.substr(0, 8)\<close>.\<close>

definition short_id :: "js_string \<Rightarrow> js_string" where
  "short_id h = take 8 h"

text \<open>The constructor; the result is the state with the reference of the new object.\<close>

definition new_Link :: "(nat \<Rightarrow> js_string) \<Rightarrow> nat \<Rightarrow> mesh_js \<Rightarrow> mesh_js \<times> nat" where
  "new_Link hn c s =
     (let h = hn c; i = short_id h; r = length (m_objs s);
          ob = \<lparr>lk_ctor_link = c, lk_c_link = c, lk_hashname = h, lk_id = i\<rparr>
      in (s\<lparr>m_objs := m_objs s @ [ob], m_links := (m_links s)(i \<mapsto> r)\<rparr>, r))"

definition link_c_link :: "nat \<Rightarrow> nat \<Rightarrow> mesh_js \<Rightarrow> mesh_js" where
  "link_c_link r c s = s\<lparr>m_objs := (m_objs s)[r := (m_objs s ! r)\<lparr>lk_c_link := c\<rparr>]\<rparr>"

text \<open>
  The handler of \<open>'down'\<close>: the id and the C link are those of the constructor. An exception of the
  calls into the library is caught; none of them throws.
\<close>

definition link_down_handler :: "nat \<Rightarrow> mesh_js \<Rightarrow> mesh_js" where
  "link_down_handler r s =
     (let ob = m_objs s ! r
      in s\<lparr>m_links := (m_links s)(lk_id ob := None), m_dead := (m_dead s)(lk_id ob \<mapsto> r),
           m_freed := m_freed s @ [lk_ctor_link ob]\<rparr>)"

text \<open>\<open>get up\<close>, on the library's \<open>link_up\<close>.\<close>

definition link_up_getter :: "(nat \<Rightarrow> bool) \<Rightarrow> nat \<Rightarrow> mesh_js \<Rightarrow> bool" where
  "link_up_getter c_up r s = c_up (lk_c_link (m_objs s ! r))"

text \<open>
  \<open>close\<close>: \<open>Mesh\<close> names the class there, which has no \<open>_frames\<close>, so reading \<open>forEach\<close> of \<open>undefined\<close>
  throws.
\<close>

definition link_close :: "nat \<Rightarrow> mesh_js \<Rightarrow> js_error + mesh_js" where
  "link_close r s = Inl TypeError"

section \<open>The handlers of the mesh\<close>

text \<open>The handler of \<open>mesh_on_link\<close>; \<open>up\<close> is what \<open>link_up(c_link)\<close> says.\<close>

definition on_link_up :: "(nat \<Rightarrow> js_string) \<Rightarrow> nat \<Rightarrow> mesh_js \<Rightarrow> mesh_js" where
  "on_link_up hn c s =
     (let i = short_id (hn c);
          no_emit = (m_dead s i \<noteq> None);
          (s, r) = (case m_dead s i of Some r \<Rightarrow> (s, r) | None \<Rightarrow> new_Link hn c s);
          s = link_c_link r c s
      in nextTick (TLink i r no_emit) s)"

definition on_link_down :: "js_string \<Rightarrow> mesh_js \<Rightarrow> mesh_js" where
  "on_link_down i s = s\<lparr>m_dead := (m_dead s)(i := m_links s i), m_links := (m_links s)(i := None)\<rparr>"

definition on_link :: "(nat \<Rightarrow> js_string) \<Rightarrow> nat \<Rightarrow> bool \<Rightarrow> mesh_js \<Rightarrow> mesh_js" where
  "on_link hn c up s =
     (let i = short_id (hn c);
          s = (if up \<and> m_links s i = None then on_link_up hn c s else s)
      in if \<not> up \<and> m_links s i \<noteq> None then on_link_down i s else s)"

text \<open>The handler of \<open>mesh_on_open\<close>.\<close>

definition on_open :: "nat \<Rightarrow> nat \<Rightarrow> mesh_js \<Rightarrow> mesh_js" where
  "on_open c packet s = nextTick (TOpen c packet) s"

text \<open>What a queued callback does.\<close>

definition run_tick :: "(nat \<Rightarrow> js_string) \<Rightarrow> tick \<Rightarrow> mesh_js \<Rightarrow> mesh_js" where
  "run_tick hn t s =
     (case t of
        TLink i r no_emit \<Rightarrow>
          (let s = s\<lparr>m_links := (m_links s)(i \<mapsto> r)\<rparr>;
               s = (if \<not> no_emit then emit (ELink r) s else s)
           in emit (ELinkUp r) s)
      | TOpen c packet \<Rightarrow> emit (EOpen (m_links s (short_id (hn c))) packet) s
      | TDiscover h \<Rightarrow> emit (EDiscover h) s)"

text \<open>
  A stream closes: both transports look their link up under its short id and send it \<open>'down'\<close>, or
  write a line to the console if there is none.
\<close>

definition transport_closed :: "js_string \<Rightarrow> mesh_js \<Rightarrow> mesh_js" where
  "transport_closed h s =
     (case m_links s (short_id h) of None \<Rightarrow> s | Some r \<Rightarrow> link_down_handler r s)"

section \<open>Whom to let in\<close>

definition accept :: "js_string \<Rightarrow> mesh_js \<Rightarrow> mesh_js" where
  "accept h s = s\<lparr>m_accept := insert h (m_accept s)\<rparr>"

definition reject :: "js_string \<Rightarrow> mesh_js \<Rightarrow> mesh_js" where
  "reject h s = s\<lparr>m_reject := insert h (m_reject s)\<rparr>"

definition open_mesh :: "mesh_js \<Rightarrow> bool" where
  "open_mesh s \<longleftrightarrow> m_accept s = {} \<and> m_discover_listeners s = 0"

text \<open>The global handler of discoveries: whether it calls \<open>mesh_add\<close>.\<close>

definition on_discover :: "js_string \<Rightarrow> mesh_js \<Rightarrow> bool" where
  "on_discover h s =
     (if h \<in> m_reject s then False
      else if open_mesh s \<or> h \<in> m_accept s then True
      else False)"

text \<open>The handler of a \<open>Frames\<close>: it may queue the event \<open>'discover'\<close>.\<close>

definition frames_discover :: "js_string \<Rightarrow> mesh_js \<Rightarrow> mesh_js" where
  "frames_discover h s =
     (if h \<in> m_reject s then s
      else if open_mesh s \<or> h \<in> m_accept s then s
      else nextTick (TDiscover h) s)"

section \<open>Events\<close>

datatype mesh_event =
    MLink nat bool | MOpen nat nat | MTick | MClosed js_string | MAccept js_string | MReject js_string
  | MDiscover js_string | MListen

fun mesh_handle :: "(nat \<Rightarrow> js_string) \<Rightarrow> mesh_event \<Rightarrow> mesh_js \<Rightarrow> mesh_js" where
  "mesh_handle hn (MLink c up) s = on_link hn c up s"
| "mesh_handle hn (MOpen c p) s = on_open c p s"
| "mesh_handle hn MTick s =
     (case m_ticks s of [] \<Rightarrow> s | t # ts \<Rightarrow> run_tick hn t (s\<lparr>m_ticks := ts\<rparr>))"
| "mesh_handle hn (MClosed h) s = transport_closed h s"
| "mesh_handle hn (MAccept h) s = accept h s"
| "mesh_handle hn (MReject h) s = reject h s"
| "mesh_handle hn (MDiscover h) s = frames_discover h s"
| "mesh_handle hn MListen s = s\<lparr>m_discover_listeners := m_discover_listeners s + 1\<rparr>"

definition mesh_run :: "(nat \<Rightarrow> js_string) \<Rightarrow> mesh_event list \<Rightarrow> mesh_js \<Rightarrow> mesh_js" where
  "mesh_run hn es s = fold (mesh_handle hn) es s"

inductive mesh_step :: "(nat \<Rightarrow> js_string) \<Rightarrow> mesh_js \<Rightarrow> mesh_event \<Rightarrow> mesh_js \<Rightarrow> bool" for hn where
  ms_handle: "mesh_step hn s e (mesh_handle hn e s)"

inductive_simps mesh_step_simps: "mesh_step hn s e s'"

lemma mesh_run_runs: "runs (mesh_step hn) s es (mesh_run hn es s)"
  by (induction es arbitrary: s) (auto simp: mesh_run_def intro: ms_handle)

section \<open>One object for a peer\<close>

text \<open>
  The objects have different ids, each under its own id in one of the maps; every reference in the
  maps and the queue is to an object with that id; and \<open>'link'\<close> has been or will be emitted once
  for each object.
\<close>

definition announced :: "mesh_js \<Rightarrow> nat list" where
  "announced s =
     concat (map (\<lambda>e. case e of ELink r \<Rightarrow> [r] | _ \<Rightarrow> []) (m_emitted s)) @
     concat (map (\<lambda>t. case t of TLink i r no_emit \<Rightarrow> if no_emit then [] else [r] | _ \<Rightarrow> []) (m_ticks s))"

definition has_id :: "mesh_js \<Rightarrow> js_string \<Rightarrow> nat \<Rightarrow> bool" where
  "has_id s i r \<longleftrightarrow> r < length (m_objs s) \<and> lk_id (m_objs s ! r) = i"

definition links_ok :: "mesh_js \<Rightarrow> bool" where
  "links_ok s \<longleftrightarrow>
     distinct (map lk_id (m_objs s)) \<and>
     (\<forall>i r. m_links s i = Some r \<or> m_dead s i = Some r \<longrightarrow> has_id s i r) \<and>
     (\<forall>i r b. TLink i r b \<in> set (m_ticks s) \<longrightarrow> has_id s i r) \<and>
     (\<forall>r < length (m_objs s). m_links s (lk_id (m_objs s ! r)) \<noteq> None \<or> m_dead s (lk_id (m_objs s ! r)) \<noteq> None) \<and>
     announced s = [0..<length (m_objs s)]"

lemma links_okI:
  assumes "distinct (map lk_id (m_objs s))"
    and "\<And>i r. m_links s i = Some r \<Longrightarrow> has_id s i r" and "\<And>i r. m_dead s i = Some r \<Longrightarrow> has_id s i r"
    and "\<And>i r b. TLink i r b \<in> set (m_ticks s) \<Longrightarrow> has_id s i r"
    and "\<And>r. r < length (m_objs s) \<Longrightarrow> m_links s (lk_id (m_objs s ! r)) = None \<Longrightarrow>
           m_dead s (lk_id (m_objs s ! r)) \<noteq> None"
    and "announced s = [0..<length (m_objs s)]"
  shows "links_ok s"
  using assms unfolding links_ok_def by blast

lemma links_okD:
  assumes "links_ok s"
  shows "distinct (map lk_id (m_objs s))"
    and "m_links s i = Some r \<Longrightarrow> has_id s i r" and "m_dead s i = Some r \<Longrightarrow> has_id s i r"
    and "TLink i r b \<in> set (m_ticks s) \<Longrightarrow> has_id s i r"
    and "r < length (m_objs s) \<Longrightarrow> m_links s (lk_id (m_objs s ! r)) = None \<Longrightarrow>
           m_dead s (lk_id (m_objs s ! r)) \<noteq> None"
    and "announced s = [0..<length (m_objs s)]"
  using assms unfolding links_ok_def by blast+

lemma nth_link_c_link:
  "m_objs (link_c_link r c s) ! k =
     (if k = r \<and> r < length (m_objs s) then (m_objs s ! k)\<lparr>lk_c_link := c\<rparr> else m_objs s ! k)"
  by (cases "r < length (m_objs s)") (auto simp: link_c_link_def nth_list_update list_update_beyond)

lemma link_c_link_frame [simp]:
  "m_links (link_c_link r c s) = m_links s" "m_dead (link_c_link r c s) = m_dead s"
  "m_ticks (link_c_link r c s) = m_ticks s" "m_emitted (link_c_link r c s) = m_emitted s"
  "m_freed (link_c_link r c s) = m_freed s" "length (m_objs (link_c_link r c s)) = length (m_objs s)"
  "announced (link_c_link r c s) = announced s"
  by (simp_all add: link_c_link_def announced_def)

lemma link_c_link_objs [simp]:
  "lk_id (m_objs (link_c_link r c s) ! k) = lk_id (m_objs s ! k)"
  "lk_ctor_link (m_objs (link_c_link r c s) ! k) = lk_ctor_link (m_objs s ! k)"
  "has_id (link_c_link r c s) i k = has_id s i k"
  "map lk_id (m_objs (link_c_link r c s)) = map lk_id (m_objs s)"
proof -
  show id: "lk_id (m_objs (link_c_link r c s) ! k) = lk_id (m_objs s ! k)"
    "lk_ctor_link (m_objs (link_c_link r c s) ! k) = lk_ctor_link (m_objs s ! k)" for k
    by (simp_all add: nth_link_c_link)
  show "has_id (link_c_link r c s) i k = has_id s i k" by (simp add: has_id_def id)
  show "map lk_id (m_objs (link_c_link r c s)) = map lk_id (m_objs s)"
    by (rule nth_equalityI) (simp_all add: id)
qed

lemma links_ok_c_link: "links_ok s \<Longrightarrow> links_ok (link_c_link r c s)"
  using links_okD [of s]
  by (intro links_okI) auto

lemma links_ok_new_Link:
  assumes ok: "links_ok s" and "m_links s (short_id (hn c)) = None" and "m_dead s (short_id (hn c)) = None"
    and "new_Link hn c s = (s', r)"
  shows "links_ok (nextTick (TLink (short_id (hn c)) r False) s')"
proof -
  let ?i = "short_id (hn c)" let ?n = "length (m_objs s)"
  let ?s = "nextTick (TLink ?i r False) s'"
  have r: "r = ?n" using assms(4) by (auto simp: new_Link_def Let_def)
  have objs: "m_objs ?s = m_objs s @ [\<lparr>lk_ctor_link = c, lk_c_link = c, lk_hashname = hn c, lk_id = ?i\<rparr>]"
    and ln: "m_links ?s = (m_links s)(?i \<mapsto> ?n)" and dd: "m_dead ?s = m_dead s"
    and tk: "m_ticks ?s = m_ticks s @ [TLink ?i ?n False]" and em: "m_emitted ?s = m_emitted s"
    using assms(4) by (auto simp: new_Link_def Let_def nextTick_def)
  have new: "?i \<notin> lk_id ` set (m_objs s)"
  proof
    assume "?i \<in> lk_id ` set (m_objs s)"
    then obtain k where "k < ?n" "lk_id (m_objs s ! k) = ?i" by (auto simp: in_set_conv_nth)
    with links_okD(5) [OF ok, of k] assms(2,3) show False by simp
  qed
  have id: "has_id ?s i k" if "has_id s i k" for i k using that by (simp add: has_id_def objs nth_append)
  have idn: "has_id ?s ?i ?n" by (simp add: has_id_def objs)
  show ?thesis
  proof (rule links_okI)
    show "distinct (map lk_id (m_objs ?s))" using links_okD(1) [OF ok] new by (simp add: objs)
    show "has_id ?s i k" if "m_links ?s i = Some k" for i k
      using that links_okD(2) [OF ok] id idn by (auto simp: ln split: if_splits)
    show "has_id ?s i k" if "m_dead ?s i = Some k" for i k
      using that links_okD(3) [OF ok] id by (auto simp: dd)
    show "has_id ?s i k" if "TLink i k b \<in> set (m_ticks ?s)" for i k b
      using that links_okD(4) [OF ok] id idn by (auto simp: tk)
    show "m_dead ?s (lk_id (m_objs ?s ! k)) \<noteq> None"
      if "k < length (m_objs ?s)" "m_links ?s (lk_id (m_objs ?s ! k)) = None" for k
      using that links_okD(5) [OF ok, of k]
      by (cases "k = ?n") (auto simp: ln dd objs nth_append split: if_splits)
    show "announced ?s = [0..<length (m_objs ?s)]"
      using links_okD(6) [OF ok] by (simp add: announced_def tk em objs)
  qed
qed

lemma links_ok_frame:
  assumes "links_ok s" and "m_objs s' = m_objs s"
    and "\<And>i r. m_links s' i = Some r \<Longrightarrow> has_id s i r" and "\<And>i r. m_dead s' i = Some r \<Longrightarrow> has_id s i r"
    and "\<And>i r b. TLink i r b \<in> set (m_ticks s') \<Longrightarrow> has_id s i r"
    and "\<And>i. m_links s' i = None \<Longrightarrow> m_dead s' i = None \<Longrightarrow> m_links s i = None \<and> m_dead s i = None"
    and "announced s' = announced s"
  shows "links_ok s'"
proof (rule links_okI)
  have h: "has_id s' i r = has_id s i r" for i r by (simp add: has_id_def assms(2))
  show "distinct (map lk_id (m_objs s'))" using links_okD(1) [OF assms(1)] by (simp add: assms(2))
  show "has_id s' i r" if "m_links s' i = Some r" for i r unfolding h by (rule assms(3) [OF that])
  show "has_id s' i r" if "m_dead s' i = Some r" for i r unfolding h by (rule assms(4) [OF that])
  show "has_id s' i r" if "TLink i r b \<in> set (m_ticks s')" for i r b
    unfolding h by (rule assms(5) [OF that])
  show "m_dead s' (lk_id (m_objs s' ! r)) \<noteq> None"
    if "r < length (m_objs s')" "m_links s' (lk_id (m_objs s' ! r)) = None" for r
    using links_okD(5) [OF assms(1), of r] assms(6) [of "lk_id (m_objs s ! r)"] that
    unfolding assms(2) by argo
  show "announced s' = [0..<length (m_objs s')]"
    using links_okD(6) [OF assms(1)] by (simp add: assms(2,7))
qed

lemma links_ok_on_link_up:
  assumes ok: "links_ok s" and "m_links s (short_id (hn c)) = None"
  shows "links_ok (on_link_up hn c s)"
proof (cases "m_dead s (short_id (hn c))")
  case None
  obtain s' r where n: "new_Link hn c s = (s', r)" by fastforce
  have "on_link_up hn c s = link_c_link r c (nextTick (TLink (short_id (hn c)) r False) s')"
    by (simp add: on_link_up_def Let_def None n nextTick_def link_c_link_def)
  then show ?thesis using links_ok_c_link [OF links_ok_new_Link [OF ok assms(2) None n]] by simp
next
  case (Some r)
  let ?s = "link_c_link r c s"
  have "on_link_up hn c s = nextTick (TLink (short_id (hn c)) r True) ?s"
    by (simp add: on_link_up_def Let_def Some)
  moreover have "links_ok (nextTick (TLink (short_id (hn c)) r True) ?s)"
    by (rule links_ok_frame [OF links_ok_c_link [OF ok, of r c]])
      (use links_okD [OF ok] Some in \<open>auto simp: nextTick_def announced_def\<close>)
  ultimately show ?thesis by simp
qed

lemma links_ok_down: "links_ok s \<Longrightarrow> m_links s i = Some r \<Longrightarrow> links_ok (on_link_down i s)"
  by (rule links_ok_frame, assumption)
    (use links_okD [of s] in \<open>auto simp: on_link_down_def announced_def split: if_splits\<close>)

lemma links_ok_closed: "links_ok s \<Longrightarrow> links_ok (transport_closed h s)"
proof (cases "m_links s (short_id h)")
  case (Some r)
  assume ok: "links_ok s"
  have "has_id s (short_id h) r" using links_okD(2) [OF ok] Some by simp
  then show ?thesis
    using links_okD [OF ok]
    by (intro links_ok_frame [OF ok])
      (auto simp: transport_closed_def Some link_down_handler_def Let_def has_id_def announced_def
        split: if_splits)
qed (simp add: transport_closed_def)

lemma announced_tick:
  assumes "m_ticks s = t # ts"
  shows "announced (run_tick hn t (s\<lparr>m_ticks := ts\<rparr>)) = announced s"
  using assms by (cases t) (simp_all add: run_tick_def Let_def emit_def announced_def)

lemma links_ok_tick:
  assumes ok: "links_ok s" and t: "m_ticks s = t # ts"
  shows "links_ok (run_tick hn t (s\<lparr>m_ticks := ts\<rparr>))"
proof (rule links_ok_frame [OF ok])
  show "announced (run_tick hn t (s\<lparr>m_ticks := ts\<rparr>)) = announced s" using t by (rule announced_tick)
  have id: "has_id s i r" if "t = TLink i r b" for i r b
    using links_okD(4) [OF ok, of i r b] t that by simp
  show "has_id s i r" if "m_links (run_tick hn t (s\<lparr>m_ticks := ts\<rparr>)) i = Some r" for i r
    using that links_okD(2) [OF ok] id
    by (cases t) (auto simp: run_tick_def Let_def emit_def split: if_splits)
  show "has_id s i r" if "TLink i r b \<in> set (m_ticks (run_tick hn t (s\<lparr>m_ticks := ts\<rparr>)))" for i r b
    using that links_okD(4) [OF ok, of i r b] t
    by (cases t) (auto simp: run_tick_def Let_def emit_def split: if_splits)
qed (cases t; use links_okD [OF ok] in \<open>auto simp: run_tick_def Let_def emit_def split: if_splits\<close>)+

interpretation lk: event_invariant "mesh_step hn" "\<lambda>_. True" links_ok for hn
proof
  fix s s' e
  assume st: "mesh_step hn s e s'" and ok: "links_ok s"
  have "links_ok (mesh_handle hn e s)"
  proof (cases e)
    case (MLink c up)
    then show ?thesis
      using ok links_ok_on_link_up [OF ok] links_ok_down
      by (auto simp: on_link_def Let_def)
  next
    case MTick
    then show ?thesis using ok links_ok_tick [OF ok] by (auto split: list.splits)
  next
    case (MClosed h)
    then show ?thesis using links_ok_closed [OF ok] by simp
  next
    case (MOpen c p)
    then show ?thesis
      using links_okD [OF ok]
      by (auto intro!: links_ok_frame [OF ok] simp: on_open_def nextTick_def announced_def)
  next
    case (MDiscover h)
    then show ?thesis
      using ok links_okD [OF ok]
      by (auto intro!: links_ok_frame [OF ok] simp: frames_discover_def nextTick_def announced_def)
  qed (use links_okD [OF ok] in
      \<open>auto intro!: links_ok_frame [OF ok] simp: accept_def reject_def announced_def\<close>)
  then show "links_ok s'" using st by (simp add: mesh_step_simps)
qed

lemma links_ok_new: "links_ok new_Mesh"
  by (simp add: links_ok_def new_Mesh_def announced_def)
definition links_emitted :: "mesh_js \<Rightarrow> nat list" where
  "links_emitted s = concat (map (\<lambda>e. case e of ELink r \<Rightarrow> [r] | _ \<Rightarrow> []) (m_emitted s))"

lemma append_eq_upt: "xs @ ys = [0..<n] \<Longrightarrow> xs = [0..<length xs]"
  by (metis add_0 append_eq_conv_conj length_append length_upt diff_zero le_add1 take_upt)

text \<open>
  C23. A peer has one Link object for the life of the mesh, whatever the order in which links come up,
  go down, streams close and callbacks run: no two objects have the same id, the maps hold each object
  under its own id, and \<open>'link'\<close> is emitted once for an object, in the order of their creation.
\<close>

theorem mesh_one_object_per_peer:
  assumes "runs (mesh_step hn) new_Mesh es s"
  shows "distinct (map lk_id (m_objs s)) \<and>
    (m_links s i = Some r \<or> m_dead s i = Some r \<longrightarrow> r < length (m_objs s) \<and> lk_id (m_objs s ! r) = i) \<and>
    links_emitted s = [0..<length (links_emitted s)] \<and> length (links_emitted s) \<le> length (m_objs s)"
proof -
  have ok: "links_ok s" using lk.runs_inv [OF assms _ links_ok_new] by (simp add: list_all_iff)
  then obtain ys where ys: "links_emitted s @ ys = [0..<length (m_objs s)]"
    using links_okD(6) [OF ok] unfolding announced_def links_emitted_def by blast
  then have "length (links_emitted s) \<le> length (m_objs s)"
    by (metis diff_zero le_add1 length_append length_upt)
  then show ?thesis
    using links_okD [OF ok] append_eq_upt [OF ys] unfolding has_id_def by blast
qed

section \<open>Going down twice\<close>

text \<open>An object keeps its id and the C link of its constructor, and what was freed stays so.\<close>

definition keeps :: "nat \<Rightarrow> js_string \<Rightarrow> nat \<Rightarrow> nat \<Rightarrow> mesh_js \<Rightarrow> bool" where
  "keeps r i c n s \<longleftrightarrow> r < length (m_objs s) \<and> lk_id (m_objs s ! r) = i \<and>
     lk_ctor_link (m_objs s ! r) = c \<and> n \<le> count_list (m_freed s) c"

lemma keeps_cong:
  "keeps r i c n s \<Longrightarrow> m_objs s' = m_objs s \<Longrightarrow> m_freed s' = m_freed s \<Longrightarrow> keeps r i c n s'"
  by (simp add: keeps_def)

lemma keeps_on_link_up: "keeps r i c n s \<Longrightarrow> keeps r i c n (on_link_up hn d s)"
  by (cases "m_dead s (short_id (hn d))")
    (auto simp: on_link_up_def new_Link_def keeps_def nextTick_def nth_link_c_link nth_append Let_def)

lemma keeps_closed: "keeps r i c n s \<Longrightarrow> keeps r i c n (transport_closed h s)"
  by (auto simp: transport_closed_def link_down_handler_def Let_def keeps_def split: option.split)

interpretation kp: event_invariant "mesh_step hn" "\<lambda>_. True" "keeps r i c n" for hn r i c n
proof
  fix s s' e
  assume st: "mesh_step hn s e s'" and k: "keeps r i c n s"
  note same = keeps_cong [OF k]
  have "keeps r i c n (mesh_handle hn e s)"
  proof (cases e)
    case (MLink d up)
    then show ?thesis
      using k keeps_on_link_up [OF k] by (auto simp: on_link_def on_link_down_def Let_def keeps_def)
  next
    case (MClosed h)
    then show ?thesis using keeps_closed [OF k] by simp
  next
    case MTick
    then show ?thesis
      by (auto intro!: same simp: run_tick_def emit_def Let_def split: list.split tick.split)
  qed (auto intro!: same simp: on_open_def nextTick_def accept_def reject_def frames_discover_def)
  then show "keeps r i c n s'" using st by (simp add: mesh_step_simps)
qed

text \<open>
  C34. A Link always releases the C link its constructor was given: when a peer's stream closes, the
  peer comes back (with a C link of its own, assigned to the same object) and its stream closes again,
  the first C link is given to \<open>link_free\<close> a second time.
\<close>

theorem link_freed_twice:
  assumes "runs (mesh_step hn) new_Mesh es s" and "m_links s (short_id h) = Some r"
    and "runs (mesh_step hn) (transport_closed h s) es' s'" and "m_links s' (short_id h) = Some r'"
  shows "r' = r \<and> count_list (m_freed (transport_closed h s')) (lk_ctor_link (m_objs s ! r)) \<ge> 2"
proof -
  let ?c = "lk_ctor_link (m_objs s ! r)" and ?i = "short_id h"
  have ok: "links_ok s" using lk.runs_inv [OF assms(1) _ links_ok_new] by (simp add: list_all_iff)
  have r: "r < length (m_objs s)" "lk_id (m_objs s ! r) = ?i"
    using links_okD(2) [OF ok assms(2)] by (simp_all add: has_id_def)
  have "keeps r ?i ?c 1 (transport_closed h s)"
    using r assms(2) by (simp add: keeps_def transport_closed_def link_down_handler_def Let_def)
  then have k: "keeps r ?i ?c 1 s'" using kp.runs_inv [OF assms(3)] by (simp add: list_all_iff)
  have ok': "links_ok s'"
    using lk.runs_inv [OF assms(3) _ links_ok_closed [OF ok]] by (simp add: list_all_iff)
  then have r': "r' < length (m_objs s')" "lk_id (m_objs s' ! r') = ?i"
    using links_okD(2) [OF ok' assms(4)] by (simp_all add: has_id_def)
  have "r' = r"
    using links_okD(1) [OF ok'] r' k
    by (metis distinct_conv_nth keeps_def length_map nth_map)
  then show ?thesis
    using k assms(4) by (auto simp: keeps_def transport_closed_def link_down_handler_def Let_def)
qed

section \<open>Rejected and accepted peers\<close>

text \<open>How often a hashname was or will be offered to the application.\<close>

definition offered :: "js_string \<Rightarrow> mesh_js \<Rightarrow> nat" where
  "offered h s = count_list (m_emitted s) (EDiscover h) + count_list (m_ticks s) (TDiscover h)"

definition kept_out :: "js_string \<Rightarrow> nat \<Rightarrow> mesh_js \<Rightarrow> bool" where
  "kept_out h n s \<longleftrightarrow> h \<in> m_reject s \<and> offered h s = n"

lemma kept_out_on_link_up: "kept_out h n s \<Longrightarrow> kept_out h n (on_link_up hn c s)"
  by (cases "m_dead s (short_id (hn c))")
    (auto simp: kept_out_def offered_def on_link_up_def new_Link_def link_c_link_def nextTick_def Let_def)

interpretation ko: event_invariant "mesh_step hn" "\<lambda>_. True" "kept_out h n" for hn h n
proof
  fix s s' e
  assume st: "mesh_step hn s e s'" and k: "kept_out h n s"
  have "kept_out h n (mesh_handle hn e s)"
  proof (cases e)
    case (MLink d up)
    then show ?thesis
      using k kept_out_on_link_up [OF k]
      by (auto simp: on_link_def on_link_down_def Let_def kept_out_def offered_def)
  next
    case MTick
    then show ?thesis
      using k by (auto simp: kept_out_def offered_def run_tick_def emit_def Let_def
          split: list.split tick.split)
  qed (use k in \<open>auto simp: kept_out_def offered_def on_open_def nextTick_def accept_def reject_def
        frames_discover_def transport_closed_def link_down_handler_def Let_def split: option.split\<close>)
  then show "kept_out h n s'" using st by (simp add: mesh_step_simps)
qed

text \<open>
  A rejected peer stays out: from then on, whatever happens, no discovery of it is added by the
  mesh, and none is offered to the application, also when its hashname has been accepted.
\<close>

theorem rejected_stays_out:
  assumes "runs (mesh_step hn) (reject h s) es s'"
  shows "\<not> on_discover h s' \<and> offered h s' = offered h s"
proof -
  have "kept_out h (offered h s) (reject h s)" by (simp add: kept_out_def reject_def offered_def)
  then have "kept_out h (offered h s) s'" using ko.runs_inv [OF assms] by (simp add: list_all_iff)
  then show ?thesis by (simp add: kept_out_def on_discover_def)
qed

text \<open>
  A discovery is dealt with once: a hashname that is not rejected is either added by the handler
  of the mesh or offered to the application by that of the stream, never both and never neither.
\<close>

theorem discovery_handled_once:
  "h \<in> m_reject s \<or> on_discover h s \<noteq> (m_ticks (frames_discover h s) = m_ticks s @ [TDiscover h])"
  by (auto simp: on_discover_def frames_discover_def nextTick_def)

definition has_accepted :: "mesh_js \<Rightarrow> bool" where
  "has_accepted s \<longleftrightarrow> m_accept s \<noteq> {} \<or> 0 < m_discover_listeners s"

lemma has_accepted_on_link_up: "has_accepted (on_link_up hn c s) = has_accepted s"
  by (cases "m_dead s (short_id (hn c))")
    (auto simp: has_accepted_def on_link_up_def new_Link_def link_c_link_def nextTick_def Let_def)

interpretation ha: event_invariant "mesh_step hn" "\<lambda>_. True" has_accepted for hn
proof
  fix s s' e
  assume st: "mesh_step hn s e s'" and k: "has_accepted s"
  have "has_accepted (mesh_handle hn e s)"
  proof (cases e)
    case (MLink d up)
    then show ?thesis
      using k has_accepted_on_link_up [of hn d s]
      by (auto simp: on_link_def on_link_down_def Let_def has_accepted_def)
  next
    case MTick
    then show ?thesis
      using k by (auto simp: has_accepted_def run_tick_def emit_def Let_def split: list.split tick.split)
  qed (use k in \<open>auto simp: has_accepted_def on_open_def nextTick_def accept_def reject_def
        frames_discover_def transport_closed_def link_down_handler_def Let_def split: option.split\<close>)
  then show "has_accepted s'" using st by (simp add: mesh_step_simps)
qed

text \<open>
  Naming one peer with \<open>accept\<close> closes the mesh to everyone else for good: afterwards a peer is
  added without the application's doing only if it was accepted by name.
\<close>

theorem accept_closes_mesh:
  assumes "runs (mesh_step hn) (accept a s) es s'" and "on_discover h s'"
  shows "h \<in> m_accept s' \<and> h \<notin> m_reject s'"
proof -
  have "has_accepted (accept a s)" by (simp add: has_accepted_def accept_def)
  then have "has_accepted s'" using ha.runs_inv [OF assms(1)] by (simp add: list_all_iff)
  then show ?thesis
    using assms(2) by (auto simp: on_discover_def open_mesh_def has_accepted_def split: if_splits)
qed

section \<open>A mesh at work\<close>

text \<open>Two C links of one peer, 1 and 2, and one of another peer, 3.\<close>

definition demo_hn :: "nat \<Rightarrow> js_string" where
  "demo_hn c = (if c < 3 then replicate 52 97 else replicate 52 98)"

definition demo_up :: "mesh_event list" where
  "demo_up = [MLink 1 True, MTick]"

definition demo_again :: "mesh_event list" where
  "demo_again = [MLink 2 True, MTick]"

lemmas demo_eval = demo_up_def demo_again_def mesh_run_def on_link_def on_link_up_def new_Link_def
  new_Mesh_def link_c_link_def nextTick_def run_tick_def emit_def demo_hn_def short_id_def
  transport_closed_def link_down_handler_def on_link_down_def Let_def

lemma demo_mesh_values:
  "m_links (mesh_run demo_hn demo_up new_Mesh) (short_id (demo_hn 1)) = Some 0"
  "m_links (mesh_run demo_hn demo_again (transport_closed (demo_hn 1)
      (mesh_run demo_hn demo_up new_Mesh))) (short_id (demo_hn 1)) = Some 0"
  "lk_ctor_link (m_objs (mesh_run demo_hn demo_up new_Mesh) ! 0) = 1"
  by (simp_all add: demo_eval)

theorem mesh_one_object_per_peer_witness:
  "distinct (map lk_id (m_objs (mesh_run demo_hn [MLink 1 True, MLink 3 True, MTick] new_Mesh))) \<and>
   links_emitted (mesh_run demo_hn [MLink 1 True, MLink 3 True, MTick] new_Mesh) = [0]"
  using mesh_one_object_per_peer [OF mesh_run_runs [of demo_hn new_Mesh "[MLink 1 True, MLink 3 True, MTick]"]]
  by (simp add: demo_eval links_emitted_def)

theorem link_freed_twice_witness:
  "count_list (m_freed (transport_closed (demo_hn 1) (mesh_run demo_hn demo_again
      (transport_closed (demo_hn 1) (mesh_run demo_hn demo_up new_Mesh))))) 1 \<ge> 2"
  using link_freed_twice [OF mesh_run_runs demo_mesh_values(1) mesh_run_runs demo_mesh_values(2)]
  by (simp add: demo_mesh_values(3))

theorem rejected_stays_out_witness:
  "\<not> on_discover [97] (mesh_run demo_hn [MAccept [97], MDiscover [97], MTick] (reject [97] new_Mesh)) \<and>
   offered [97] (mesh_run demo_hn [MAccept [97], MDiscover [97], MTick] (reject [97] new_Mesh)) =
     offered [97] new_Mesh"
  by (rule rejected_stays_out [OF mesh_run_runs])

theorem discovery_handled_once_witness:
  "on_discover [97] new_Mesh \<noteq> (m_ticks (frames_discover [97] new_Mesh) = m_ticks new_Mesh @ [TDiscover [97]])"
  using discovery_handled_once [of "[97]" new_Mesh] by (simp add: new_Mesh_def)

theorem accept_closes_mesh_witness:
  "[97] \<in> m_accept (mesh_run demo_hn [MListen] (accept [97] new_Mesh)) \<and>
   [97] \<notin> m_reject (mesh_run demo_hn [MListen] (accept [97] new_Mesh))"
proof (rule accept_closes_mesh [OF mesh_run_runs])
  show "on_discover [97] (mesh_run demo_hn [MListen] (accept [97] new_Mesh))"
    by (simp add: mesh_run_def on_discover_def accept_def new_Mesh_def)
qed

end
