(* ===== verification/JsMesh.thy ===== *)
theory JsMesh
  imports JsLinks
begin

text \<open>
  The rest of \<open>js/core.js\<close>: the exported function, starting a mesh, its transports and keys, and
  the class \<open>Channel\<close>.

  \<open>mesh_life\<close> holds the fields of a \<open>Mesh\<close> that its life cycle uses; functions of the application
  are named by numbers. \<open>ml_mesh\<close> is the C mesh the object uses, one of \<open>ml_meshes\<close> created so far;
  \<open>ml_calls\<close> lists the calls made into the library. A set keeps its elements in the order of their
  first insertion.
\<close>

datatype mesh_call =
    CDiscover nat | CLink nat | COpen nat \<comment> \<open>\<open>mesh_on_*\<close> on that mesh\<close>
  | CLoad nat js_string js_string
  | CGenerate nat
  | CStoreKeys nat \<comment> \<open>the function \<open>_storeKeys\<close>\<close>
  | CRandom nat

datatype life_emit = LUp | LError nat

record mesh_life =
  ml_meshes :: nat
  ml_mesh :: nat
  ml_listen :: "nat list"
  ml_connect :: "string \<rightharpoonup> nat"
  ml_aborts :: "nat list option"
  ml_aborted :: "nat list"
  ml_getKeys :: nat
  ml_storeKeys :: nat
  ml_open_handlers :: "nat list"
  ml_hashname :: bool
  ml_once_up :: "nat list" \<comment> \<open>handlers registered with \<open>once\<close>\<close>
  ml_up_calls :: "nat list"
  ml_emitted :: "life_emit list"
  ml_calls :: "mesh_call list"
  ml_frames :: nat
  ml_chunks :: nat

definition set_add :: "'a list \<Rightarrow> 'a \<Rightarrow> 'a list" where
  "set_add xs x = (if x \<in> set xs then xs else xs @ [x])"

definition ml_call :: "mesh_call \<Rightarrow> mesh_life \<Rightarrow> mesh_life" where
  "ml_call c s = s\<lparr>ml_calls := ml_calls s @ [c]\<rparr>"

text \<open>\<open>emit('up', this)\<close>: the handlers registered with \<open>once\<close> are called and gone.\<close>

definition emit_up :: "mesh_life \<Rightarrow> mesh_life" where
  "emit_up s =
     s\<lparr>ml_emitted := ml_emitted s @ [LUp], ml_up_calls := ml_up_calls s @ ml_once_up s, ml_once_up := []\<rparr>"

section \<open>Construction\<close>

text \<open>The options: a map, with those given over the defaults.\<close>

definition defaultOpts :: "string \<rightharpoonup> string" where
  "defaultOpts = [''id'' \<mapsto> ''./mesh.hashname'', ''chan'' \<mapsto> ''[]'', ''transport'' \<mapsto> ''[]'']"

definition construct_Mesh :: "nat \<Rightarrow> mesh_life" where
  "construct_Mesh on_up =
     \<lparr>ml_meshes = 1, ml_mesh = 0, ml_listen = [], ml_connect = Map.empty, ml_aborts = None,
      ml_aborted = [], ml_getKeys = 0, ml_storeKeys = 0, ml_open_handlers = [], ml_hashname = False,
      ml_once_up = [on_up], ml_up_calls = [], ml_emitted = [], ml_calls = [], ml_frames = 0, ml_chunks = 0\<rparr>"

definition Telehash ::
  "nat option \<Rightarrow> (string \<rightharpoonup> string) option \<Rightarrow> js_error + (mesh_life \<times> (string \<rightharpoonup> string))" where
  "Telehash on_up opts =
     (case on_up of
        None \<Rightarrow> Inl (Thrown ''must provide an on_link handler'')
      | Some f \<Rightarrow>
          (let opts = defaultOpts ++ (case opts of None \<Rightarrow> Map.empty | Some m \<Rightarrow> m)
           in Inr (construct_Mesh f, opts)))"

definition mesh_frames :: "mesh_life \<Rightarrow> mesh_life" where
  "mesh_frames s = s\<lparr>ml_frames := ml_frames s + 1\<rparr>"

definition mesh_chunks :: "mesh_life \<Rightarrow> mesh_life" where
  "mesh_chunks s = s\<lparr>ml_chunks := ml_chunks s + 1\<rparr>"

section \<open>Starting and listening\<close>

text \<open>
  \<open>listen\<close>, up to the settling of all promises: \<open>settle f\<close> is what the promise of the transport \<open>f\<close>
  comes to, an abort function or a reason. \<open>Promise.all\<close> rejects with the first reason (in the order
  of the promises where several are settled), and resolves with the list of results, which counts as
  true also when it is empty.
\<close>

fun promise_all :: "('a \<Rightarrow> nat + nat) \<Rightarrow> 'a list \<Rightarrow> nat + nat list" where
  "promise_all settle [] = Inr []"
| "promise_all settle (f # fs) =
     (case settle f of
        Inl e \<Rightarrow> Inl e
      | Inr a \<Rightarrow> (case promise_all settle fs of Inl e \<Rightarrow> Inl e | Inr as \<Rightarrow> Inr (a # as)))"

definition mesh_listen :: "(nat \<Rightarrow> nat + nat) \<Rightarrow> mesh_life \<Rightarrow> mesh_life" where
  "mesh_listen settle s =
     (case promise_all settle (ml_listen s) of
        Inr aborts \<Rightarrow> emit_up (s\<lparr>ml_aborts := Some aborts\<rparr>)
      | Inl e \<Rightarrow> s\<lparr>ml_emitted := ml_emitted s @ [LError e]\<rparr>)"

text \<open>
  \<open>start(listen)\<close> with the keys that \<open>_getKeys\<close> yields (an empty string counts as missing) and
  whether \<open>mesh_generate\<close> succeeds. The C mesh of the constructor is replaced.
\<close>

definition start_handlers :: "mesh_life \<Rightarrow> mesh_life" where
  "start_handlers s =
     (let s = s\<lparr>ml_meshes := ml_meshes s + 1, ml_mesh := ml_meshes s\<rparr>
      in ml_call (COpen (ml_mesh s)) (ml_call (CLink (ml_mesh s)) (ml_call (CDiscover (ml_mesh s)) s)))"

definition start_keys ::
  "js_string option \<times> js_string option \<Rightarrow> bool \<Rightarrow> mesh_life \<Rightarrow> (js_error \<times> mesh_life) + mesh_life" where
  "start_keys keyring generate_ok s =
     (case keyring of
        (Some (x # xs), Some (y # ys)) \<Rightarrow> Inr (ml_call (CLoad (ml_mesh s) (x # xs) (y # ys)) s)
      | _ \<Rightarrow>
          (let s = ml_call (CGenerate (ml_mesh s)) s
           in if generate_ok then Inr (ml_call (CStoreKeys (ml_storeKeys s)) s)
              else Inl (Thrown ''mesh generate failed'', s)))"

definition mesh_start ::
  "js_string option \<times> js_string option \<Rightarrow> bool \<Rightarrow> (nat \<Rightarrow> nat + nat) option \<Rightarrow> mesh_life \<Rightarrow>
   (js_error \<times> mesh_life) + mesh_life" where
  "mesh_start keyring generate_ok listen s =
     (case start_keys keyring generate_ok (start_handlers s) of
        Inl e \<Rightarrow> Inl e
      | Inr s \<Rightarrow>
          (let s = s\<lparr>ml_hashname := True\<rparr> in
           case listen of
             Some settle \<Rightarrow> Inr (mesh_listen settle s)
           | None \<Rightarrow> Inr (emit_up s)))"

text \<open>\<open>stopListen\<close>: \<open>_aborts\<close> is undefined until a listen has succeeded.\<close>

definition stopListen :: "mesh_life \<Rightarrow> js_error + mesh_life" where
  "stopListen s =
     (case ml_aborts s of
        None \<Rightarrow> Inl TypeError
      | Some as \<Rightarrow> Inr (s\<lparr>ml_aborted := ml_aborted s @ as, ml_aborts := Some []\<rparr>))"

section \<open>Middleware\<close>

text \<open>
  What a middleware function returned. The case for a random source falls through to the default,
  which does nothing.
\<close>

datatype middleware =
    Transport "nat option" "nat option" | ChannelType nat | Keystore nat nat | Rng nat | OtherType

definition mid_type :: "middleware \<Rightarrow> string" where
  "mid_type m =
     (case m of
        Transport _ _ \<Rightarrow> ''transport''
      | ChannelType _ \<Rightarrow> ''channel''
      | Keystore _ _ \<Rightarrow> ''keystore''
      | Rng _ \<Rightarrow> ''rng''
      | OtherType \<Rightarrow> ''other'')"

definition mesh_use :: "middleware \<Rightarrow> mesh_life \<Rightarrow> mesh_life" where
  "mesh_use mid s =
     (case mid of
        Transport listen connect \<Rightarrow>
          (let s = (case listen of None \<Rightarrow> s | Some f \<Rightarrow> s\<lparr>ml_listen := set_add (ml_listen s) f\<rparr>) in
           case connect of
             None \<Rightarrow> s
           | Some f \<Rightarrow> s\<lparr>ml_connect := (ml_connect s)(mid_type mid \<mapsto> f)\<rparr>)
      | ChannelType f \<Rightarrow> s\<lparr>ml_open_handlers := ml_open_handlers s @ [f]\<rparr>
      | Keystore g st \<Rightarrow> s\<lparr>ml_getKeys := g, ml_storeKeys := st\<rparr>
      | Rng f \<Rightarrow> ml_call (CRandom f) s
      | OtherType \<Rightarrow> s)"

section \<open>Life cycle\<close>

datatype life_event =
    LStart "js_string option \<times> js_string option" bool "(nat \<Rightarrow> nat + nat) option"
  | LListen "nat \<Rightarrow> nat + nat" | LStop | LUse middleware | LFrames | LChunks

definition life_step :: "life_event \<Rightarrow> mesh_life \<Rightarrow> mesh_life" where
  "life_step e s =
     (case e of
        LStart k g l \<Rightarrow> (case mesh_start k g l s of Inl (_, s') \<Rightarrow> s' | Inr s' \<Rightarrow> s')
      | LListen f \<Rightarrow> mesh_listen f s
      | LStop \<Rightarrow> (case stopListen s of Inl _ \<Rightarrow> s | Inr s' \<Rightarrow> s')
      | LUse m \<Rightarrow> mesh_use m s
      | LFrames \<Rightarrow> mesh_frames s
      | LChunks \<Rightarrow> mesh_chunks s)"

definition life_run :: "life_event list \<Rightarrow> mesh_life \<Rightarrow> mesh_life" where
  "life_run es s = fold life_step es s"

inductive life_rel :: "mesh_life \<Rightarrow> life_event \<Rightarrow> mesh_life \<Rightarrow> bool" where
  life_relI: "life_rel s e (life_step e s)"

inductive_simps life_rel_simps: "life_rel s e s'"

lemma life_run_runs: "runs life_rel s es (life_run es s)"
  by (induction es arbitrary: s) (auto simp: life_run_def intro: life_relI)

section \<open>Channel\<close>

text \<open>
  A packet as JavaScript has it, a JSON object and a body. \<open>encode\<close> and \<open>decode\<close> are those of
  \<open>lob-enc\<close>, with \<open>None\<close> for a packet that does not decode; the C channel is a parameter: its id, the
  next packet it has for its handler, and sending.
\<close>

type_synonym js_packet = "(string \<rightharpoonup> nat) \<times> bytes"

record 'c chan_api =
  ch_id :: "'c \<Rightarrow> nat"
  ch_receiving :: "'c \<Rightarrow> 'c \<times> bytes option"
  ch_send :: "'c \<Rightarrow> bytes \<Rightarrow> 'c"
  ch_encode :: "js_packet \<Rightarrow> bytes"
  ch_decode :: "bytes \<Rightarrow> js_packet option"

record 'c channel =
  c_chan :: 'c
  ch_open :: bytes
  ch_pushed :: "js_packet list"
  ch_bad :: "bytes list" \<comment> \<open>written to the console\<close>

text \<open>The constructor; \<open>link_chan\<close> is a parameter.\<close>

definition new_Channel :: "'c chan_api \<Rightarrow> (bytes \<Rightarrow> 'c) \<Rightarrow> js_packet \<Rightarrow> 'c channel" where
  "new_Channel api link_chan packet =
     (let c_lob = ch_encode api packet
      in \<lparr>c_chan = link_chan c_lob, ch_open = c_lob, ch_pushed = [], ch_bad = []\<rparr>)"

text \<open>The function given to \<open>chan_handle\<close>: everything received is pushed.\<close>

partial_function (option) channel_handle :: "'c chan_api \<Rightarrow> 'c channel \<Rightarrow> 'c channel option" where
  "channel_handle api s =
     (case ch_receiving api (c_chan s) of
        (c, None) \<Rightarrow> Some (s\<lparr>c_chan := c\<rparr>)
      | (c, Some p) \<Rightarrow>
          channel_handle api
            (case ch_decode api p of
               Some l \<Rightarrow> s\<lparr>c_chan := c, ch_pushed := ch_pushed s @ [l]\<rparr>
             | None \<Rightarrow> s\<lparr>c_chan := c, ch_bad := ch_bad s @ [p]\<rparr>))"

definition c_send :: "'c chan_api \<Rightarrow> bytes \<Rightarrow> 'c channel \<Rightarrow> 'c channel" where
  "c_send api c_lob s = s\<lparr>c_chan := ch_send api (c_chan s) c_lob\<rparr>"

definition channel_write :: "'c chan_api \<Rightarrow> js_packet \<Rightarrow> 'c channel \<Rightarrow> 'c channel" where
  "channel_write api packet s =
     (let packet = ((fst packet)(''c'' \<mapsto> ch_id api (c_chan s)), snd packet)
      in c_send api (ch_encode api packet) s)"

text \<open>\<open>init\<close> and \<open>console\<close> of a Link open a channel of their type and send its opening packet.\<close>

definition link_open_channel ::
  "'c chan_api \<Rightarrow> (bytes \<Rightarrow> 'c) \<Rightarrow> nat \<Rightarrow> bytes \<Rightarrow> 'c channel" where
  "link_open_channel api link_chan ty content =
     (let chan = new_Channel api link_chan ([''type'' \<mapsto> ty], content)
      in c_send api (ch_open chan) chan)"

text \<open>
  The answer to a console command: the body as JSON if it parses, else as text, or \<open>null\<close> if it is
  empty.
\<close>

definition console_result :: "(bytes \<Rightarrow> js_value option) \<Rightarrow> (bytes \<Rightarrow> js_string) \<Rightarrow> bytes \<Rightarrow> js_value" where
  "console_result json_parse to_string content =
     (case json_parse content of
        Some v \<Rightarrow> v
      | None \<Rightarrow> if length content \<noteq> 0 then JString (to_string content) else JNull)"


section \<open>What the life cycle guarantees\<close>

lemma ml_call_frame [simp]:
  "ml_once_up (ml_call c s) = ml_once_up s" "ml_up_calls (ml_call c s) = ml_up_calls s"
  "ml_emitted (ml_call c s) = ml_emitted s" "ml_mesh (ml_call c s) = ml_mesh s"
  "ml_meshes (ml_call c s) = ml_meshes s" "ml_connect (ml_call c s) = ml_connect s"
  "ml_listen (ml_call c s) = ml_listen s" "ml_calls (ml_call c s) = ml_calls s @ [c]"
  by (simp_all add: ml_call_def)

text \<open>The handler given to the constructor is still registered, or has been called by the first \<open>'up'\<close>.\<close>

definition up_ok :: "nat \<Rightarrow> mesh_life \<Rightarrow> bool" where
  "up_ok f s \<longleftrightarrow>
     (if LUp \<in> set (ml_emitted s) then ml_once_up s = [] \<and> ml_up_calls s = [f]
      else ml_once_up s = [f] \<and> ml_up_calls s = [])"

lemma up_ok_emit: "up_ok f s \<Longrightarrow> up_ok f (emit_up s)"
  by (auto simp: up_ok_def emit_up_def split: if_splits)

lemma up_ok_cong:
  "up_ok f s \<Longrightarrow> ml_emitted s' = ml_emitted s \<Longrightarrow> ml_once_up s' = ml_once_up s \<Longrightarrow>
     ml_up_calls s' = ml_up_calls s \<Longrightarrow> up_ok f s'"
  unfolding up_ok_def by (simp only:)

lemma up_ok_listen: "up_ok f s \<Longrightarrow> up_ok f (mesh_listen settle s)"
proof (cases "promise_all settle (ml_listen s)")
  case (Inl e)
  assume "up_ok f s"
  then show ?thesis by (auto simp: Inl mesh_listen_def up_ok_def split: if_splits)
next
  case (Inr as)
  assume ok: "up_ok f s"
  have "up_ok f (s\<lparr>ml_aborts := Some as\<rparr>)" by (rule up_ok_cong [OF ok]) simp_all
  then show ?thesis by (simp add: Inr mesh_listen_def up_ok_emit)
qed

lemma start_handlers_frame [simp]:
  "ml_once_up (start_handlers s) = ml_once_up s" "ml_up_calls (start_handlers s) = ml_up_calls s"
  "ml_emitted (start_handlers s) = ml_emitted s" "ml_connect (start_handlers s) = ml_connect s"
  "ml_listen (start_handlers s) = ml_listen s" "ml_mesh (start_handlers s) = ml_meshes s"
  "ml_meshes (start_handlers s) = ml_meshes s + 1"
  "ml_calls (start_handlers s) = ml_calls s @ [CDiscover (ml_meshes s), CLink (ml_meshes s), COpen (ml_meshes s)]"
  by (simp_all add: start_handlers_def Let_def)

text \<open>What the keys do to a started mesh.\<close>

lemma start_keys_cases:
  obtains e s' where "start_keys k g s = Inl (e, s')" and "s' = ml_call (CGenerate (ml_mesh s)) s"
  | x y where "start_keys k g s = Inr (ml_call (CLoad (ml_mesh s) x y) s)"
  | "start_keys k g s = Inr (ml_call (CStoreKeys (ml_storeKeys s)) (ml_call (CGenerate (ml_mesh s)) s))"
proof (cases "\<exists>x xs y ys. k = (Some (x # xs), Some (y # ys))")
  case True
  then show thesis using that(2) by (auto simp: start_keys_def)
next
  case False
  obtain a b where k: "k = (a, b)" by fastforce
  have "start_keys k g s =
      (if g then Inr (ml_call (CStoreKeys (ml_storeKeys s)) (ml_call (CGenerate (ml_mesh s)) s))
       else Inl (Thrown ''mesh generate failed'', ml_call (CGenerate (ml_mesh s)) s))"
  proof (cases "a = None \<or> a = Some []")
    case True
    then show ?thesis by (auto simp: k start_keys_def Let_def ml_call_def)
  next
    case a: False
    then obtain x xs where ax: "a = Some (x # xs)" by (metis list.exhaust option.exhaust)
    with False k have "b = None \<or> b = Some []" by (metis list.exhaust option.exhaust)
    then show ?thesis by (auto simp: k ax start_keys_def Let_def ml_call_def)
  qed
  then show thesis using that(1,3) by (cases g) auto
qed

lemma up_ok_step: "up_ok f s \<Longrightarrow> up_ok f (life_step e s)"
proof (cases e)
  case (LStart k g l)
  assume ok: "up_ok f s"
  let ?h = "start_handlers s"
  have h: "up_ok f s'" if "ml_emitted s' = ml_emitted ?h" "ml_once_up s' = ml_once_up ?h"
    "ml_up_calls s' = ml_up_calls ?h" for s'
    using that by (intro up_ok_cong [OF ok]) simp_all
  show ?thesis
    by (cases rule: start_keys_cases [of k g ?h]; cases l)
      (simp_all add: LStart life_step_def mesh_start_def h up_ok_listen up_ok_emit)
next
  case (LListen g)
  assume "up_ok f s"
  then show ?thesis by (simp add: LListen life_step_def up_ok_listen)
next
  case LStop
  assume ok: "up_ok f s"
  show ?thesis
    by (rule up_ok_cong [OF ok]) (simp_all add: LStop life_step_def stopListen_def split: option.split)
next
  case (LUse m)
  assume ok: "up_ok f s"
  show ?thesis
    by (rule up_ok_cong [OF ok]) (cases m; simp add: LUse life_step_def mesh_use_def Let_def split: option.split)+
next
  case LFrames
  assume ok: "up_ok f s"
  show ?thesis by (rule up_ok_cong [OF ok]) (simp_all add: LFrames life_step_def mesh_frames_def)
next
  case LChunks
  assume ok: "up_ok f s"
  show ?thesis by (rule up_ok_cong [OF ok]) (simp_all add: LChunks life_step_def mesh_chunks_def)
qed

interpretation up: event_invariant life_rel "\<lambda>_. True" "up_ok f" for f
  by unfold_locales (auto simp: life_rel_simps up_ok_step)

text \<open>
  The handler the application gave is called once, by the first \<open>'up'\<close>, however often the mesh is
  started, listens or fails to; before that it has not been called.
\<close>

theorem on_up_called_once:
  assumes "runs life_rel (construct_Mesh f) es s"
  shows "ml_up_calls s = (if LUp \<in> set (ml_emitted s) then [f] else [])"
proof -
  have "up_ok f (construct_Mesh f)" by (simp add: up_ok_def construct_Mesh_def)
  then have "up_ok f s" using up.runs_inv [OF assms] by (simp add: list_all_iff)
  then show ?thesis by (simp add: up_ok_def split: if_splits)
qed

text \<open>The mesh a call is made on.\<close>

definition call_mesh :: "mesh_call \<Rightarrow> nat list" where
  "call_mesh c =
     (case c of
        CDiscover m \<Rightarrow> [m] | CLink m \<Rightarrow> [m] | COpen m \<Rightarrow> [m] | CLoad m _ _ \<Rightarrow> [m] | CGenerate m \<Rightarrow> [m]
      | CStoreKeys _ \<Rightarrow> [] | CRandom _ \<Rightarrow> [])"

definition first_mesh_idle :: "mesh_life \<Rightarrow> bool" where
  "first_mesh_idle s \<longleftrightarrow> 0 < ml_meshes s \<and> 0 \<notin> set (concat (map call_mesh (ml_calls s)))"

lemma listen_calls [simp]:
  "ml_calls (mesh_listen g s) = ml_calls s" "ml_meshes (mesh_listen g s) = ml_meshes s"
  "ml_connect (mesh_listen g s) = ml_connect s" "ml_listen (mesh_listen g s) = ml_listen s"
  "ml_calls (emit_up s) = ml_calls s" "ml_meshes (emit_up s) = ml_meshes s"
  "ml_connect (emit_up s) = ml_connect s" "ml_listen (emit_up s) = ml_listen s"
  by (simp_all add: mesh_listen_def emit_up_def split: sum.split)

lemma first_mesh_idle_step: "first_mesh_idle s \<Longrightarrow> first_mesh_idle (life_step e s)"
proof (cases e)
  case (LStart k g l)
  assume "first_mesh_idle s"
  then show ?thesis
    by (cases rule: start_keys_cases [of k g "start_handlers s"]; cases l)
      (simp_all add: LStart life_step_def mesh_start_def first_mesh_idle_def call_mesh_def)
qed (auto simp: first_mesh_idle_def life_step_def stopListen_def mesh_use_def mesh_frames_def
    mesh_chunks_def call_mesh_def Let_def split: option.split middleware.split)

interpretation fm: event_invariant life_rel "\<lambda>_. True" first_mesh_idle
  by unfold_locales (auto simp: life_rel_simps first_mesh_idle_step)

text \<open>
  The C mesh made by the constructor (number 0) never gets a handler or keys: \<open>start\<close> makes
  another, and each later start another one still. A transport opened before the start is on a mesh
  that has neither.
\<close>

theorem first_mesh_never_used:
  assumes "runs life_rel (construct_Mesh f) es s"
  shows "0 \<notin> set (concat (map call_mesh (ml_calls s)))"
proof -
  have "first_mesh_idle (construct_Mesh f)" by (simp add: first_mesh_idle_def construct_Mesh_def)
  then have "first_mesh_idle s" using fm.runs_inv [OF assms] by (simp add: list_all_iff)
  then show ?thesis by (simp add: first_mesh_idle_def)
qed

section \<open>Transports\<close>

definition connects_of :: "life_event \<Rightarrow> nat list" where
  "connects_of e = (case e of LUse (Transport _ (Some f)) \<Rightarrow> [f] | _ \<Rightarrow> [])"

definition listens_of :: "life_event \<Rightarrow> nat list" where
  "listens_of e = (case e of LUse (Transport (Some f) _) \<Rightarrow> [f] | _ \<Rightarrow> [])"

lemma life_step_connect:
  "ml_connect (life_step e s) =
     (case connects_of e of [] \<Rightarrow> ml_connect s | f # _ \<Rightarrow> (ml_connect s)(''transport'' \<mapsto> f))"
proof (cases e)
  case (LStart k g l)
  then show ?thesis
    by (cases rule: start_keys_cases [of k g "start_handlers s"]; cases l)
      (simp_all add: life_step_def mesh_start_def connects_of_def)
qed (auto simp: life_step_def stopListen_def mesh_use_def mesh_frames_def mesh_chunks_def connects_of_def
    mid_type_def Let_def split: option.split middleware.split)

lemma life_step_listen:
  "ml_listen (life_step e s) =
     (case listens_of e of [] \<Rightarrow> ml_listen s | f # _ \<Rightarrow> set_add (ml_listen s) f)"
proof (cases e)
  case (LStart k g l)
  then show ?thesis
    by (cases rule: start_keys_cases [of k g "start_handlers s"]; cases l)
      (simp_all add: life_step_def mesh_start_def listens_of_def)
qed (auto simp: life_step_def stopListen_def mesh_use_def mesh_frames_def mesh_chunks_def listens_of_def
    Let_def split: option.split middleware.split)

definition only_last :: "nat list \<Rightarrow> string \<rightharpoonup> nat" where
  "only_last fs = (if fs = [] then Map.empty else [''transport'' \<mapsto> last fs])"

lemma one_of: "connects_of e = [] \<or> (\<exists>f. connects_of e = [f])" "listens_of e = [] \<or> (\<exists>f. listens_of e = [f])"
  by (auto simp: connects_of_def listens_of_def split: life_event.split middleware.split option.split)

lemma transports_run:
  assumes "runs life_rel s es s'"
  shows "ml_connect s = only_last fs \<Longrightarrow> ml_connect s' = only_last (fs @ concat (map connects_of es))"
    and "ml_listen s' = foldl set_add (ml_listen s) (concat (map listens_of es))"
proof -
  show "ml_connect s = only_last fs \<Longrightarrow> ml_connect s' = only_last (fs @ concat (map connects_of es))"
    using assms
  proof (induction arbitrary: fs rule: runs.induct)
    case (runs_Cons s e s1 es s2)
    then have "ml_connect s1 = only_last (fs @ connects_of e)"
      using one_of(1) [of e] by (auto simp: life_rel_simps life_step_connect only_last_def)
    from runs_Cons.IH [OF this] show ?case by simp
  qed simp
  show "ml_listen s' = foldl set_add (ml_listen s) (concat (map listens_of es))"
    using assms
  proof (induction rule: runs.induct)
    case (runs_Cons s e s1 es s2)
    then show ?case
      using one_of(2) [of e] by (auto simp: life_rel_simps life_step_listen)
  qed simp
qed

lemma foldl_set_add:
  "set (foldl set_add xs ys) = set xs \<union> set ys \<and> (distinct xs \<longrightarrow> distinct (foldl set_add xs ys))"
  by (induction ys arbitrary: xs) (auto simp: set_add_def)

text \<open>
  Every transport that can listen is listened on, once; but of the transports that can connect
  only the one used last is known, because all of them are filed under the name of their type.
\<close>

theorem transports_kept:
  assumes "runs life_rel (construct_Mesh f) es s"
  shows "set (ml_listen s) = set (concat (map listens_of es)) \<and> distinct (ml_listen s) \<and>
    ml_connect s = only_last (concat (map connects_of es))"
  using transports_run(1) [OF assms, of "[]"] transports_run(2) [OF assms]
    foldl_set_add [of "[]" "concat (map listens_of es)"]
  by (simp add: construct_Mesh_def only_last_def)

text \<open>
  When every transport listens, \<open>stopListen\<close> calls the abort function of each, once and in order,
  and a second call does nothing; but the abort functions of an earlier round that was not stopped are
  dropped uncalled.
\<close>

theorem stopListen_aborts:
  assumes "\<And>t. t \<in> set (ml_listen s) \<Longrightarrow> settle t = Inr (g t)"
  shows "\<exists>s1. stopListen (mesh_listen settle s) = Inr s1 \<and>
    ml_aborted s1 = ml_aborted s @ map g (ml_listen s) \<and> stopListen s1 = Inr s1"
proof -
  have "promise_all settle ts = Inr (map g ts)" if "\<And>t. t \<in> set ts \<Longrightarrow> settle t = Inr (g t)" for ts
    using that by (induction ts) auto
  then show ?thesis
    using assms by (simp add: mesh_listen_def emit_up_def stopListen_def)
qed

section \<open>What a channel delivers\<close>

lemma channel_handle_step:
  "channel_handle api s =
     (case snd (ch_receiving api (c_chan s)) of
        None \<Rightarrow> Some (s\<lparr>c_chan := fst (ch_receiving api (c_chan s))\<rparr>)
      | Some p \<Rightarrow>
          channel_handle api
            (case ch_decode api p of
               Some l \<Rightarrow> s\<lparr>c_chan := fst (ch_receiving api (c_chan s)), ch_pushed := ch_pushed s @ [l]\<rparr>
             | None \<Rightarrow> s\<lparr>c_chan := fst (ch_receiving api (c_chan s)), ch_bad := ch_bad s @ [p]\<rparr>))"
proof -
  obtain c r where cr: "ch_receiving api (c_chan s) = (c, r)" by fastforce
  show ?thesis by (subst channel_handle.simps) (cases r; simp add: cr split: option.split)
qed

section \<open>A mesh at work\<close>

definition demo_life :: "life_event list" where
  "demo_life =
     [LUse (Transport (Some 3) (Some 4)), LUse (Transport (Some 5) (Some 6)),
      LStart (None, Some []) True (Some (\<lambda>t. Inr (t + 10))),
      LStart (Some [115], Some [107]) True None]"

lemmas demo_life_eval = demo_life_def life_run_def life_step_def mesh_start_def start_keys_def
  start_handlers_def mesh_listen_def mesh_use_def construct_Mesh_def ml_call_def emit_up_def
  set_add_def Let_def

theorem on_up_called_once_witness:
  "LUp \<in> set (ml_emitted (life_run demo_life (construct_Mesh 9))) \<and>
   ml_up_calls (life_run demo_life (construct_Mesh 9)) = [9]"
proof -
  have "LUp \<in> set (ml_emitted (life_run demo_life (construct_Mesh 9)))" by (simp add: demo_life_eval)
  then show ?thesis using on_up_called_once [OF life_run_runs [of "construct_Mesh 9" demo_life]] by simp
qed

theorem first_mesh_never_used_witness:
  "0 \<notin> set (concat (map call_mesh (ml_calls (life_run demo_life (construct_Mesh 9)))))"
  by (rule first_mesh_never_used [OF life_run_runs [of "construct_Mesh 9" demo_life]])

theorem transports_kept_witness:
  "set (ml_listen (life_run demo_life (construct_Mesh 9))) = {3, 5} \<and>
   ml_connect (life_run demo_life (construct_Mesh 9)) = [''transport'' \<mapsto> 6]"
  using transports_kept [OF life_run_runs [of "construct_Mesh 9" demo_life]]
  by (simp add: demo_life_def listens_of_def connects_of_def only_last_def insert_commute)

theorem stopListen_aborts_witness:
  "\<exists>s1. stopListen (mesh_listen (\<lambda>t. Inr (t + 1)) (construct_Mesh 9\<lparr>ml_listen := [3, 5]\<rparr>)) = Inr s1 \<and>
    ml_aborted s1 = [4, 6] \<and> stopListen s1 = Inr s1"
  using stopListen_aborts [of "construct_Mesh 9\<lparr>ml_listen := [3, 5]\<rparr>" "\<lambda>t. Inr (t + 1)" "\<lambda>t. t + 1"]
  by (simp add: construct_Mesh_def)

end
