(* ===== verification/Xht.thy ===== *)
theory Xht
  imports Prelude
begin

text \<open>
  The string hash table of \<open>src/lib/xht.c\<close>. A pointer to a C string, or to a block, is the pair
  of its address and the bytes there (up to the terminating NUL for a string); \<open>NULL\<close> is
  \<open>None\<close>. \<open>zen\<close> lists the buckets, each the chain that starts with the node embedded in the
  array. \<open>released\<close> lists the addresses handed to \<open>free\<close>. Allocation succeeds, and gives the
  addresses that the operations take as arguments.
\<close>

type_synonym c_ptr = "nat \<times> bytes"

record xhn =
  xflag :: bool
  xkey :: "c_ptr option"
  xval :: "c_ptr option"

record xht =
  prime :: u32
  iter :: nat
  zen :: "xhn list list"
  released :: "nat list"

text \<open>The ELF hash.\<close>

fun xhter_loop :: "u32 \<Rightarrow> bytes \<Rightarrow> u32" where
  "xhter_loop h [] = h"
| "xhter_loop h (c # name) =
     (let h = push_bit 4 h + ucast c;
          g = h AND 0xF0000000;
          h = (if g \<noteq> 0 then h XOR drop_bit 24 g else h)
      in xhter_loop (h AND NOT g) name)"

definition xhter :: "bytes \<Rightarrow> u32" where
  "xhter s = xhter_loop 0 s"

text \<open>The place in a chain of the node that has the key.\<close>

fun xht_node_find :: "xhn list \<Rightarrow> bytes \<Rightarrow> nat option" where
  "xht_node_find [] key = None"
| "xht_node_find (n # ns) key =
     (if map_option snd (xkey n) = Some key then Some 0 else map_option Suc (xht_node_find ns key))"

definition empty_node :: xhn where
  "empty_node = \<lparr>xflag = False, xkey = None, xval = None\<rparr>"

definition xht_new :: "u32 \<Rightarrow> xht" where
  "xht_new p = \<lparr>prime = p, iter = 0, zen = replicate (unat p) [empty_node], released = []\<rparr>"

definition xht_index :: "xht \<Rightarrow> bytes \<Rightarrow> nat" where
  "xht_index h key = unat (xhter key mod prime h)"

text \<open>The first node of a chain whose value was cleared or never set.\<close>

fun unused_node :: "xhn list \<Rightarrow> nat option" where
  "unused_node [] = None"
| "unused_node (n # ns) = (if xval n = None then Some 0 else map_option Suc (unused_node ns))"

text \<open>
  The node to write: that of the key, else an unused one, else a new one linked in behind the
  first.
\<close>

definition xht_node :: "xhn list \<Rightarrow> bytes \<Rightarrow> nat \<times> xhn list" where
  "xht_node ns key =
     (case xht_node_find ns key of
        Some j \<Rightarrow> (j, ns)
      | None \<Rightarrow>
          (case unused_node ns of
             Some j \<Rightarrow> (j, ns)
           | None \<Rightarrow> (1, take 1 ns @ [empty_node] @ drop 1 ns)))"

definition node_blocks :: "xhn \<Rightarrow> nat list" where
  "node_blocks n =
     (if xflag n then map fst (case xkey n of None \<Rightarrow> [] | Some k \<Rightarrow> [k]) @
        map fst (case xval n of None \<Rightarrow> [] | Some v \<Rightarrow> [v])
      else [])"

definition xht_set_flag :: "xht \<Rightarrow> c_ptr \<Rightarrow> c_ptr option \<Rightarrow> bool \<Rightarrow> xht" where
  "xht_set_flag h key val flag =
     (let i = xht_index h (snd key);
          (j, ns) = xht_node (zen h ! i) (snd key)
      in h\<lparr>zen := (zen h)[i := ns[j := \<lparr>xflag = flag, xkey = Some key, xval = val\<rparr>]],
           released := released h @ node_blocks (ns ! j)\<rparr>)"

definition xht_set :: "xht \<Rightarrow> c_ptr option \<Rightarrow> c_ptr option \<Rightarrow> xht" where
  "xht_set h key val = (case key of None \<Rightarrow> h | Some k \<Rightarrow> xht_set_flag h k val False)"

text \<open>\<open>ckey\<close> and \<open>cval\<close> are the addresses of the two blocks the copies are put in.\<close>

definition xht_store :: "nat \<Rightarrow> nat \<Rightarrow> xht \<Rightarrow> c_ptr option \<Rightarrow> bytes \<Rightarrow> nat \<Rightarrow> xht" where
  "xht_store ckey cval h key val vlen =
     (case key of
        None \<Rightarrow> h
      | Some k \<Rightarrow>
          if snd k = [] then h
          else xht_set_flag h (ckey, snd k) (Some (cval, take vlen val)) True)"

definition xht_get :: "xht \<Rightarrow> c_ptr option \<Rightarrow> c_ptr option" where
  "xht_get h key =
     (case key of
        None \<Rightarrow> None
      | Some k \<Rightarrow>
          let ns = zen h ! xht_index h (snd k) in
          case xht_node_find ns (snd k) of None \<Rightarrow> None | Some j \<Rightarrow> xval (ns ! j))"

text \<open>The blocks \<open>xht_free\<close> gives back beside the nodes: the loop starts behind the first node.\<close>

definition xht_free :: "xht \<Rightarrow> nat list" where
  "xht_free h = concat (map (\<lambda>ns. concat (map node_blocks (tl ns))) (zen h))"

text \<open>What the walker is called with, in order.\<close>

definition node_entry :: "xhn \<Rightarrow> (c_ptr \<times> c_ptr) list" where
  "node_entry n =
     (case xkey n of None \<Rightarrow> [] | Some k \<Rightarrow> (case xval n of None \<Rightarrow> [] | Some v \<Rightarrow> [(k, v)]))"

definition xht_walk :: "xht \<Rightarrow> (c_ptr \<times> c_ptr) list" where
  "xht_walk h = concat (map (\<lambda>ns. concat (map node_entry ns)) (zen h))"

text \<open>
  \<open>xht_iter\<close> compares pointers, not strings. \<open>iter_chain\<close> is the inner loop: the key still
  looked for, \<open>None\<close> once it is behind, and the key found after it.
\<close>

fun iter_chain :: "xhn list \<Rightarrow> nat option \<Rightarrow> c_ptr option" where
  "iter_chain [] key = None"
| "iter_chain (n # ns) None = (case xkey n of Some k \<Rightarrow> Some k | None \<Rightarrow> iter_chain ns None)"
| "iter_chain (n # ns) (Some p) =
     iter_chain ns (if map_option fst (xkey n) = Some p then None else Some p)"

fun iter_buckets :: "xhn list list \<Rightarrow> nat \<Rightarrow> nat option \<Rightarrow> nat \<times> c_ptr option" where
  "iter_buckets [] i key = (i, None)"
| "iter_buckets (ns # nss) i key =
     (case iter_chain ns key of
        Some k \<Rightarrow> (i, Some k)
      | None \<Rightarrow> iter_buckets nss (i + 1) None)"

definition xht_iter :: "xht \<Rightarrow> nat option \<Rightarrow> xht \<times> c_ptr option" where
  "xht_iter h key =
     (let i = (if key = None then 0 else iter h);
          (i, ret) = iter_buckets (drop i (zen h)) i key
      in (h\<lparr>iter := i\<rparr>, ret))"

section \<open>The table is a map\<close>

text \<open>
  The invariant: every bucket has its first node, a key is in the bucket of its hash and in one
  node only, and a node without a key has no value.
\<close>

definition node_txts :: "xhn \<Rightarrow> bytes list" where
  "node_txts n = (case xkey n of None \<Rightarrow> [] | Some k \<Rightarrow> [snd k])"

definition chain_txts :: "xhn list \<Rightarrow> bytes list" where
  "chain_txts ns = concat (map node_txts ns)"

definition chain_ok :: "xht \<Rightarrow> nat \<Rightarrow> xhn list \<Rightarrow> bool" where
  "chain_ok h i ns \<longleftrightarrow> ns \<noteq> [] \<and> distinct (chain_txts ns) \<and>
     list_all (\<lambda>k. xht_index h k = i) (chain_txts ns) \<and>
     list_all (\<lambda>n. xkey n = None \<longrightarrow> xval n = None) ns"

definition xht_ok :: "xht \<Rightarrow> bool" where
  "xht_ok h \<longleftrightarrow> 0 < prime h \<and> length (zen h) = unat (prime h) \<and>
     list_all (\<lambda>i. chain_ok h i (zen h ! i)) [0..<length (zen h)]"

text \<open>The contents of a chain, and of the table, as a map.\<close>

definition chain_map :: "xhn list \<Rightarrow> bytes \<Rightarrow> c_ptr option" where
  "chain_map ns k = map_of (map (apfst snd) (concat (map node_entry ns))) k"

definition xht_map :: "xht \<Rightarrow> bytes \<Rightarrow> c_ptr option" where
  "xht_map h = map_of (map (apfst snd) (xht_walk h))"

lemma node_txts [simp]:
  "k \<in> set (node_txts n) \<longleftrightarrow> map_option snd (xkey n) = Some k"
  "distinct (node_txts n)"
  by (cases "xkey n"; auto simp: node_txts_def)+

lemma chain_txts_simps [simp]:
  "chain_txts [] = []"
  "chain_txts (n # ns) = node_txts n @ chain_txts ns"
  "chain_txts (ms @ ns) = chain_txts ms @ chain_txts ns"
  by (simp_all add: chain_txts_def)

lemma chain_map_simps [simp]:
  "chain_map [] k = None"
  "chain_map (n # ns) k =
     (if map_option snd (xkey n) = Some k \<and> xval n \<noteq> None then xval n else chain_map ns k)"
  by (auto simp: chain_map_def node_entry_def split: option.split)

lemma chain_map_append:
  "chain_map (ms @ ns) k = (case chain_map ms k of None \<Rightarrow> chain_map ns k | Some v \<Rightarrow> Some v)"
  by (induction ms) (auto split: option.split)

lemma chain_map_None: "k \<notin> set (chain_txts ns) \<Longrightarrow> chain_map ns k = None"
  by (induction ns) (auto split: option.splits)

text \<open>A node found splits its chain.\<close>

lemma node_find_Some:
  "xht_node_find ns k = Some j \<Longrightarrow>
     \<exists>ms n ls. ns = ms @ n # ls \<and> j = length ms \<and> map_option snd (xkey n) = Some k \<and>
       k \<notin> set (chain_txts ms)"
proof (induction ns arbitrary: j)
  case (Cons n ns)
  show ?case
  proof (cases "map_option snd (xkey n) = Some k")
    case True
    then show ?thesis using Cons.prems by (intro exI [of _ "[]"]) auto
  next
    case False
    then obtain i where "xht_node_find ns k = Some i" "j = Suc i" using Cons.prems by auto
    then obtain ms m ls where "ns = ms @ m # ls" "i = length ms" "map_option snd (xkey m) = Some k"
      "k \<notin> set (chain_txts ms)"
      using Cons.IH by blast
    then show ?thesis
      using False \<open>j = Suc i\<close> by (intro exI [of _ "n # ms"]) (auto split: option.splits)
  qed
qed simp

lemma node_find_None: "xht_node_find ns k = None \<longleftrightarrow> k \<notin> set (chain_txts ns)"
  by (induction ns) (auto split: option.splits)

lemma unused_node_Some:
  "unused_node ns = Some j \<Longrightarrow> \<exists>ms n ls. ns = ms @ n # ls \<and> j = length ms \<and> xval n = None"
proof (induction ns arbitrary: j)
  case (Cons n ns)
  show ?case
  proof (cases "xval n = None")
    case True
    then show ?thesis using Cons.prems by (intro exI [of _ "[]"]) auto
  next
    case False
    then obtain i where "unused_node ns = Some i" "j = Suc i" using Cons.prems by auto
    then obtain ms m ls where "ns = ms @ m # ls" "i = length ms" "xval m = None"
      using Cons.IH by blast
    then show ?thesis using \<open>j = Suc i\<close> by (intro exI [of _ "n # ms"]) auto
  qed
qed simp

text \<open>
  The node to write splits the chain; it holds no other live key, and outside it the key does
  not occur.
\<close>

lemma xht_node_split:
  assumes "ns \<noteq> []" and "distinct (chain_txts ns)" and "xht_node ns k = (j, ns')"
  obtains ms n ls where "ns' = ms @ n # ls" and "j = length ms"
    and "k \<notin> set (chain_txts ms)" and "k \<notin> set (chain_txts ls)"
    and "xval n = None \<or> map_option snd (xkey n) = Some k"
    and "chain_map ns = chain_map ns'" and "chain_txts ns' = chain_txts ns"
    and "set ns' \<subseteq> insert empty_node (set ns)"
proof (cases "xht_node_find ns k")
  case (Some i)
  then obtain ms n ls where s: "ns = ms @ n # ls" "i = length ms" "map_option snd (xkey n) = Some k"
    "k \<notin> set (chain_txts ms)"
    using node_find_Some by blast
  then have "k \<notin> set (chain_txts ls)" using assms(2) by auto
  moreover have "j = i" "ns' = ns" using Some assms(3) by (simp_all add: xht_node_def)
  ultimately show ?thesis using s by (intro that [of ms n ls]) auto
next
  case None
  then have k: "k \<notin> set (chain_txts ns)" by (simp add: node_find_None)
  show ?thesis
  proof (cases "unused_node ns")
    case (Some i)
    then obtain ms n ls where s: "ns = ms @ n # ls" "i = length ms" "xval n = None"
      using unused_node_Some by blast
    moreover have "j = i" "ns' = ns" using None Some assms(3) by (simp_all add: xht_node_def)
    ultimately show ?thesis using k by (intro that [of ms n ls]) auto
  next
    case un: None
    obtain m ls where ns: "ns = m # ls" using assms(1) by (cases ns) auto
    have "j = 1" "ns' = m # empty_node # ls" using None un assms(3) ns by (simp_all add: xht_node_def)
    moreover have "chain_map (m # empty_node # ls) = chain_map ns"
      by (rule ext) (simp add: ns empty_node_def)
    ultimately show ?thesis
      using k ns
      by (intro that [of "[m]" empty_node ls]) (auto simp: empty_node_def node_txts_def)
  qed
qed

text \<open>Looking up and writing, on a chain.\<close>

lemma chain_lookup:
  assumes "distinct (chain_txts ns)"
  shows "(case xht_node_find ns k of None \<Rightarrow> None | Some j \<Rightarrow> xval (ns ! j)) = chain_map ns k"
proof (cases "xht_node_find ns k")
  case None
  then have "k \<notin> set (chain_txts ns)" by (simp add: node_find_None)
  then show ?thesis by (simp add: None chain_map_None)
next
  case (Some j)
  then obtain ms n ls where s: "ns = ms @ n # ls" "j = length ms" "map_option snd (xkey n) = Some k"
    "k \<notin> set (chain_txts ms)"
    using node_find_Some by blast
  then have "k \<notin> set (chain_txts ls)" using assms by auto
  then show ?thesis using Some s by (cases "xval n") (auto simp: chain_map_append chain_map_None)
qed

lemma chain_write:
  fixes flag val
  assumes "chain_ok h (xht_index h (snd key)) ns" and "xht_node ns (snd key) = (j, ns')"
  defines "ns2 \<equiv> ns'[j := \<lparr>xflag = flag, xkey = Some key, xval = val\<rparr>]"
  shows "chain_map ns2 = (chain_map ns)(snd key := val)"
    and "chain_ok h (xht_index h (snd key)) ns2"
proof -
  let ?n = "\<lparr>xflag = flag, xkey = Some key, xval = val\<rparr>"
  have ok: "ns \<noteq> []" "distinct (chain_txts ns)"
    "list_all (\<lambda>k. xht_index h k = xht_index h (snd key)) (chain_txts ns)"
    "list_all (\<lambda>n. xkey n = None \<longrightarrow> xval n = None) ns"
    using assms(1) by (simp_all add: chain_ok_def)
  obtain ms n ls where s: "ns' = ms @ n # ls" "j = length ms" "snd key \<notin> set (chain_txts ms)"
    "snd key \<notin> set (chain_txts ls)" "xval n = None \<or> map_option snd (xkey n) = Some (snd key)"
    "chain_map ns = chain_map ns'" "chain_txts ns' = chain_txts ns"
    "set ns' \<subseteq> insert empty_node (set ns)"
    using xht_node_split [OF ok(1,2) assms(2)] by blast
  have ns2: "ns2 = ms @ ?n # ls" by (simp add: ns2_def s(1,2))
  show "chain_map ns2 = (chain_map ns)(snd key := val)"
    using s(3-5)
    by (cases val) (auto simp: ns2 s(1,6) chain_map_append chain_map_None fun_eq_iff split: option.split)
  have txts: "distinct (chain_txts ms @ node_txts n @ chain_txts ls)"
    "list_all (\<lambda>k. xht_index h k = xht_index h (snd key)) (chain_txts ms @ node_txts n @ chain_txts ls)"
    using ok(2,3) s(7) by (simp_all add: s(1))
  have nodes: "list_all (\<lambda>n. xkey n = None \<longrightarrow> xval n = None) ns'"
    using ok(4) s(8) by (auto simp: list_all_iff empty_node_def)
  show "chain_ok h (xht_index h (snd key)) ns2"
    using txts nodes s(3,4) by (auto simp: chain_ok_def ns2 s(1) node_txts_def)
qed

text \<open>From the chains to the table.\<close>

lemma map_of_concat_None: "(\<And>xs. xs \<in> set xss \<Longrightarrow> map_of xs k = None) \<Longrightarrow> map_of (concat xss) k = None"
  by (induction xss) (simp_all add: map_add_def)

lemma map_of_concat_at:
  "i < length xss \<Longrightarrow> (\<And>j. j < length xss \<Longrightarrow> j \<noteq> i \<Longrightarrow> map_of (xss ! j) k = None) \<Longrightarrow>
     map_of (concat xss) k = map_of (xss ! i) k"
proof (induction xss arbitrary: i)
  case (Cons xs xss)
  show ?case
  proof (cases i)
    case 0
    have "map_of xs' k = None" if "xs' \<in> set xss" for xs'
      using Cons.prems(2) [of "Suc n" for n] 0 that by (fastforce simp: in_set_conv_nth)
    then have "map_of (concat xss) k = None" by (rule map_of_concat_None)
    then show ?thesis using 0 by (simp add: map_add_def split: option.split)
  next
    case (Suc m)
    then have "map_of (concat xss) k = map_of (xss ! m) k"
      using Cons.prems(1) Cons.prems(2) [of "Suc n" for n] Suc by (intro Cons.IH) auto
    moreover have "map_of xs k = None" using Cons.prems(2) [of 0] Suc by simp
    ultimately show ?thesis using Suc by (simp add: map_add_def split: option.split)
  qed
qed simp

lemma xht_index_less: "xht_ok h \<Longrightarrow> xht_index h k < length (zen h)"
  by (simp add: xht_ok_def xht_index_def word_mod_less_divisor flip: word_less_nat_alt)

lemma xht_ok_chain: "xht_ok h \<Longrightarrow> i < length (zen h) \<Longrightarrow> chain_ok h i (zen h ! i)"
  by (simp add: xht_ok_def list_all_iff)

lemma xht_map_chain:
  assumes "xht_ok h"
  shows "xht_map h k = chain_map (zen h ! xht_index h k) k"
proof -
  let ?es = "map (\<lambda>ns. map (apfst snd) (concat (map node_entry ns))) (zen h)"
  have walk: "map (apfst snd) (xht_walk h) = concat ?es"
    by (simp add: xht_walk_def map_concat comp_def)
  have "map_of (?es ! j) k = None" if "j < length ?es" "j \<noteq> xht_index h k" for j
  proof -
    have "chain_ok h j (zen h ! j)" using xht_ok_chain [OF assms] that(1) by simp
    then have "k \<notin> set (chain_txts (zen h ! j))" using that(2) by (auto simp: chain_ok_def list_all_iff)
    then have "chain_map (zen h ! j) k = None" by (rule chain_map_None)
    then show ?thesis using that(1) by (simp add: chain_map_def)
  qed
  then have "map_of (concat ?es) k = map_of (?es ! xht_index h k) k"
    using xht_index_less [OF assms] by (intro map_of_concat_at) simp_all
  then show ?thesis using xht_index_less [OF assms] by (simp add: xht_map_def walk chain_map_def)
qed

lemma xht_ok_new: "0 < p \<Longrightarrow> xht_ok (xht_new p)"
  by (simp add: xht_ok_def xht_new_def chain_ok_def empty_node_def node_txts_def list_all_iff)

lemma xht_map_new: "xht_map (xht_new p) = Map.empty"
  by (simp add: xht_map_def xht_walk_def xht_new_def node_entry_def empty_node_def)

lemma xht_set_flag_ok:
  assumes "xht_ok h"
  shows "xht_ok (xht_set_flag h key val flag)"
    and "xht_map (xht_set_flag h key val flag) = (xht_map h)(snd key := val)"
proof -
  let ?i = "xht_index h (snd key)" and ?h = "xht_set_flag h key val flag"
  obtain j ns' where n: "xht_node (zen h ! ?i) (snd key) = (j, ns')" by fastforce
  define ns2 where "ns2 = ns'[j := \<lparr>xflag = flag, xkey = Some key, xval = val\<rparr>]"
  note i = xht_index_less [OF assms, of "snd key"]
  have ok: "chain_ok h ?i (zen h ! ?i)" using xht_ok_chain [OF assms i] .
  note w = chain_write [OF ok n, of flag val, folded ns2_def]
  have zen: "zen ?h = (zen h)[?i := ns2]" "prime ?h = prime h"
    by (simp_all add: xht_set_flag_def n ns2_def)
  have index: "xht_index ?h = xht_index h" by (rule ext) (simp add: xht_index_def zen)
  have "chain_ok h i (zen ?h ! i)" if "i < length (zen h)" for i
    using that w(2) xht_ok_chain [OF assms that] by (cases "i = ?i") (simp_all add: zen)
  moreover have "chain_ok ?h = chain_ok h" by (intro ext) (simp add: chain_ok_def index)
  ultimately show okh: "xht_ok ?h"
    using assms by (simp add: xht_ok_def zen list_all_iff)
  show "xht_map ?h = (xht_map h)(snd key := val)"
    using w(1) i
    by (auto simp: fun_eq_iff xht_map_chain [OF okh] xht_map_chain [OF assms] index zen nth_list_update)
qed

lemma xht_get_map: "xht_ok h \<Longrightarrow> xht_get h (Some key) = xht_map h (snd key)"
  using chain_lookup [of "zen h ! xht_index h (snd key)" "snd key"]
    xht_ok_chain [OF _ xht_index_less, of h "snd key"]
  by (simp add: xht_get_def Let_def xht_map_chain chain_ok_def)

text \<open>The calls that change a table, and what they do to the map.\<close>

datatype xht_call = XSet "c_ptr option" "c_ptr option" | XStore nat nat "c_ptr option" bytes nat | XIter "nat option"

fun xht_op :: "xht \<Rightarrow> xht_call \<Rightarrow> xht" where
  "xht_op h (XSet key val) = xht_set h key val"
| "xht_op h (XStore ck cv key val vlen) = xht_store ck cv h key val vlen"
| "xht_op h (XIter key) = fst (xht_iter h key)"

fun map_call :: "(bytes \<Rightarrow> c_ptr option) \<Rightarrow> xht_call \<Rightarrow> bytes \<Rightarrow> c_ptr option" where
  "map_call m (XSet (Some key) val) = m(snd key := val)"
| "map_call m (XStore ck cv (Some key) val vlen) =
     (if snd key = [] then m else m(snd key \<mapsto> (cv, take vlen val)))"
| "map_call m _ = m"

lemma xht_ok_iter: "xht_ok (h\<lparr>iter := i\<rparr>) = xht_ok h" "xht_map (h\<lparr>iter := i\<rparr>) = xht_map h"
  by (simp_all add: xht_ok_def xht_map_def xht_walk_def chain_ok_def xht_index_def)

interpretation xt: refines_calls xht_op map_call "\<lambda>_. True" xht_ok xht_map
proof unfold_locales
  fix h c assume "xht_ok h"
  then show "xht_ok (xht_op h c)"
    by (cases "(h, c)" rule: xht_op.cases)
      (auto simp: xht_set_def xht_store_def xht_iter_def Let_def case_prod_unfold xht_set_flag_ok
        xht_ok_iter split: option.split)
next
  fix h c assume "xht_ok h"
  then show "xht_map (xht_op h c) = map_call (xht_map h) c"
    by (cases "(xht_map h, c)" rule: map_call.cases)
      (auto simp: xht_set_def xht_store_def xht_iter_def Let_def case_prod_unfold xht_set_flag_ok
        xht_ok_iter split: option.split)
qed




section \<open>Iteration\<close>

definition node_keys :: "xhn \<Rightarrow> c_ptr list" where
  "node_keys n = (case xkey n of None \<Rightarrow> [] | Some k \<Rightarrow> [k])"

definition chain_keys :: "xhn list \<Rightarrow> c_ptr list" where
  "chain_keys ns = concat (map node_keys ns)"

text \<open>All keys of the table, those without a value among them, in the order of the buckets.\<close>

definition all_keys :: "xhn list list \<Rightarrow> c_ptr list" where
  "all_keys nss = concat (map chain_keys nss)"

definition xht_keys :: "xht \<Rightarrow> c_ptr list" where
  "xht_keys h = all_keys (zen h)"

text \<open>The keys of up to \<open>n\<close> calls of the iterator, each with the key the last one gave.\<close>

fun iter_all :: "nat \<Rightarrow> xht \<Rightarrow> nat option \<Rightarrow> c_ptr list" where
  "iter_all 0 h key = []"
| "iter_all (Suc n) h key =
     (case xht_iter h key of
        (h', None) \<Rightarrow> []
      | (h', Some k) \<Rightarrow> k # iter_all n h' (Some (fst k)))"

lemma chain_keys_simps [simp]:
  "chain_keys [] = []"
  "chain_keys (n # ns) = node_keys n @ chain_keys ns"
  by (simp_all add: chain_keys_def)

lemma all_keys_simps [simp]:
  "all_keys [] = []"
  "all_keys (ns # nss) = chain_keys ns @ all_keys nss"
  "all_keys (mss @ nss) = all_keys mss @ all_keys nss"
  by (simp_all add: all_keys_def)

lemma iter_chain_first: "iter_chain ns None = (case chain_keys ns of [] \<Rightarrow> None | k # ks \<Rightarrow> Some k)"
  by (induction ns) (auto simp: node_keys_def split: option.split)

lemma iter_chain_next:
  "chain_keys ns = ks @ k # ls \<Longrightarrow> fst k \<notin> set (map fst ks) \<Longrightarrow>
     iter_chain ns (Some (fst k)) = (case ls of [] \<Rightarrow> None | l # _ \<Rightarrow> Some l)"
proof (induction ns arbitrary: ks)
  case (Cons n ns)
  show ?case
  proof (cases "xkey n")
    case None
    then show ?thesis using Cons by (simp add: node_keys_def)
  next
    case (Some m)
    then show ?thesis
      using Cons by (cases ks) (auto simp: node_keys_def iter_chain_first)
  qed
qed simp

lemma iter_buckets_first:
  "iter_buckets nss i None = (i', r) \<Longrightarrow>
     (case all_keys nss of
        [] \<Rightarrow> r = None
      | k # ks \<Rightarrow> r = Some k \<and>
          (\<exists>d ls. i' = i + d \<and> d < length nss \<and> chain_keys (nss ! d) = k # ls \<and>
             ks = ls @ all_keys (drop (d + 1) nss)))"
proof (induction nss arbitrary: i)
  case (Cons ns nss)
  show ?case
  proof (cases "chain_keys ns")
    case Nil
    then have "iter_buckets nss (i + 1) None = (i', r)"
      using Cons.prems by (simp add: iter_chain_first)
    from Cons.IH [OF this] show ?thesis
      by (auto simp: Nil split: list.splits intro: exI [of _ "Suc d" for d])
  next
    case (Cons k ls)
    then show ?thesis using Cons.prems by (auto simp: iter_chain_first intro: exI [of _ 0])
  qed
qed simp

text \<open>Where the iterator stands after it gave \<open>k\<close>, and what is still to come.\<close>

definition iter_at :: "xht \<Rightarrow> c_ptr \<Rightarrow> c_ptr list \<Rightarrow> bool" where
  "iter_at h k rest \<longleftrightarrow> iter h < length (zen h) \<and>
     (\<exists>ks ls. chain_keys (zen h ! iter h) = ks @ k # ls \<and> fst k \<notin> set (map fst ks) \<and>
        rest = ls @ all_keys (drop (iter h + 1) (zen h)))"

definition keys_apart :: "xht \<Rightarrow> bool" where
  "keys_apart h \<longleftrightarrow> distinct (map fst (xht_keys h))"

lemma keys_apart_chain:
  assumes "keys_apart h" and "i < length (zen h)"
  shows "distinct (map fst (chain_keys (zen h ! i)))"
proof -
  have "xht_keys h = all_keys (take i (zen h)) @ chain_keys (zen h ! i) @
      all_keys (drop (i + 1) (zen h))"
    unfolding xht_keys_def by (subst id_take_nth_drop [OF assms(2)]) simp
  then show ?thesis using assms(1) by (simp add: keys_apart_def)
qed

lemma iter_continue:
  assumes "iter_buckets (drop i (zen h)) i None = (i', r)" and "keys_apart h"
  shows "case all_keys (drop i (zen h)) of
      [] \<Rightarrow> r = None
    | k # rest \<Rightarrow> r = Some k \<and> iter_at (h\<lparr>iter := i'\<rparr>) k rest"
proof (cases "all_keys (drop i (zen h))")
  case Nil
  then show ?thesis using iter_buckets_first [OF assms(1)] by simp
next
  case (Cons k rest)
  then obtain d ls where d: "r = Some k" "i' = i + d" "d < length (drop i (zen h))"
    "chain_keys (drop i (zen h) ! d) = k # ls"
    "rest = ls @ all_keys (drop (d + 1) (drop i (zen h)))"
    using iter_buckets_first [OF assms(1)] by auto
  then have "iter_at (h\<lparr>iter := i'\<rparr>) k rest"
    by (auto simp: iter_at_def add.commute intro!: exI [of _ "[]"])
  then show ?thesis using Cons d(1) by simp
qed

lemma iter_next:
  assumes "iter_at h k rest" and "keys_apart h" and "xht_iter h (Some (fst k)) = (h', r)"
  shows "zen h' = zen h \<and> (case rest of [] \<Rightarrow> r = None | l # ls \<Rightarrow> r = Some l \<and> iter_at h' l ls)"
proof -
  let ?i = "iter h"
  obtain ks ls where at: "?i < length (zen h)" "chain_keys (zen h ! ?i) = ks @ k # ls"
    "fst k \<notin> set (map fst ks)" "rest = ls @ all_keys (drop (?i + 1) (zen h))"
    using assms(1) by (auto simp: iter_at_def)
  have drop: "drop ?i (zen h) = zen h ! ?i # drop (Suc ?i) (zen h)" using at(1) by (simp add: Cons_nth_drop_Suc)
  note nxt = iter_chain_next [OF at(2,3)]
  show ?thesis
  proof (cases ls)
    case Nil
    then show ?thesis
      using assms(3) nxt at(4) iter_continue [OF _ assms(2), of "Suc ?i"]
      by (cases "iter_buckets (drop (Suc ?i) (zen h)) (Suc ?i) None")
        (auto simp: xht_iter_def drop)
  next
    case (Cons l ls')
    have "fst l \<notin> set (map fst (ks @ [k]))"
      using keys_apart_chain [OF assms(2) at(1)] by (auto simp: at(2) Cons)
    then have "iter_at (h\<lparr>iter := ?i\<rparr>) l (ls' @ all_keys (drop (?i + 1) (zen h)))"
      using at(1,2) by (auto simp: iter_at_def Cons intro!: exI [of _ "ks @ [k]"])
    then show ?thesis using assms(3) nxt at(4) Cons by (auto simp: xht_iter_def drop)
  qed
qed

lemma iter_all_from:
  "iter_at h k rest \<Longrightarrow> keys_apart h \<Longrightarrow> iter_all n h (Some (fst k)) = take n rest"
proof (induction n arbitrary: h k rest)
  case (Suc n)
  obtain h' r where it: "xht_iter h (Some (fst k)) = (h', r)" by fastforce
  note nx = iter_next [OF Suc.prems it]
  show ?case
  proof (cases rest)
    case (Cons l ls)
    then have "keys_apart h'" using nx Suc.prems(2) by (simp add: keys_apart_def xht_keys_def)
    then show ?thesis using Suc.IH [of h' l ls] nx it Cons by simp
  qed (use nx it in simp)
qed simp

text \<open>
  As long as no two keys of the table are the same pointer, calling the iterator with the
  key it gave last yields every key of the table once, in the order of the buckets, and then
  ends; the keys whose value was cleared are among them.
\<close>

theorem xht_iter_complete:
  assumes "distinct (map fst (xht_keys h))"
  shows "iter_all n h None = take n (xht_keys h)"
proof (cases n)
  case (Suc m)
  have apart: "keys_apart h" using assms by (simp add: keys_apart_def)
  obtain i r where it: "iter_buckets (drop 0 (zen h)) 0 None = (i, r)" by fastforce
  note first = iter_continue [OF it apart]
  show ?thesis
  proof (cases "xht_keys h")
    case Nil
    then show ?thesis using first it Suc by (simp add: xht_iter_def xht_keys_def)
  next
    case (Cons k ks)
    have "keys_apart (h\<lparr>iter := i\<rparr>)" using apart by (simp add: keys_apart_def xht_keys_def)
    then show ?thesis
      using first it Suc Cons iter_all_from [of "h\<lparr>iter := i\<rparr>" k ks m]
      by (simp add: xht_iter_def xht_keys_def)
  qed
qed simp

theorem xht_iter_complete_witness:
  "iter_all 5 (foldl xht_op (xht_new 2) [XSet (Some (1, [65])) (Some (9, [7])),
      XSet (Some (2, [67])) (Some (8, [6])), XSet (Some (3, [66])) None]) None =
    [(3, [66]), (1, [65]), (2, [67])]"
proof -
  let ?h = "foldl xht_op (xht_new 2) [XSet (Some (1, [65])) (Some (9, [7])),
      XSet (Some (2, [67])) (Some (8, [6])), XSet (Some (3, [66])) None]"
  have keys: "xht_keys ?h = [(3, [66]), (1, [65]), (2, [67])]" by code_simp
  have "distinct (map fst (xht_keys ?h))" "take 5 (xht_keys ?h) = [(3, [66]), (1, [65]), (2, [67])]"
    unfolding keys by simp_all
  then show ?thesis by (metis xht_iter_complete)
qed

section \<open>Keys the table owns\<close>

text \<open>
  Setting an entry anew by the pointer the table itself gave out (by the iterator or the walk)
  releases the copy of the key and then goes on using it: the released block is the key of the
  table.
\<close>

lemma xht_set_own_key:
  assumes "xht_ok h" and "n \<in> set (zen h ! xht_index h (snd k))"
    and "xflag n" and "xkey n = Some k"
  shows "fst k \<in> set (released (xht_set h (Some k) v)) \<and> k \<in> set (xht_keys (xht_set h (Some k) v))"
proof -
  let ?i = "xht_index h (snd k)" and ?n = "\<lparr>xflag = False, xkey = Some k, xval = v\<rparr>"
  let ?ns = "zen h ! ?i"
  note i = xht_index_less [OF assms(1), of "snd k"]
  have ok: "distinct (chain_txts ?ns)" using xht_ok_chain [OF assms(1) i] by (simp add: chain_ok_def)
  have "snd k \<in> set (node_txts n)" using assms(4) by (simp add: exI [of _ "fst k"])
  then have "snd k \<in> set (chain_txts ?ns)"
    using assms(2) unfolding chain_txts_def by auto
  then obtain j where j: "xht_node_find ?ns (snd k) = Some j" using node_find_None by fastforce
  then obtain ms m ls where s: "?ns = ms @ m # ls" "j = length ms" "map_option snd (xkey m) = Some (snd k)"
    "snd k \<notin> set (chain_txts ms)"
    using node_find_Some by blast
  have "snd k \<notin> set (chain_txts ls)" using ok s(3) by (auto simp: s(1))
  then have m: "n = m"
    using assms(2) \<open>snd k \<in> set (node_txts n)\<close> s(4) by (auto simp: s(1) chain_txts_def)
  have set: "xht_set h (Some k) v =
      h\<lparr>zen := (zen h)[?i := ms @ ?n # ls], released := released h @ node_blocks m\<rparr>"
    using j by (simp add: xht_set_def xht_set_flag_def xht_node_def s(1,2))
  have "ms @ ?n # ls \<in> set ((zen h)[?i := ms @ ?n # ls])" using i by (rule set_update_memI)
  moreover have "k \<in> set (chain_keys (ms @ ?n # ls))" by (simp add: chain_keys_def node_keys_def)
  ultimately have "k \<in> set (all_keys ((zen h)[?i := ms @ ?n # ls]))" by (auto simp: all_keys_def)
  then show ?thesis using assms(3,4) m by (simp add: set xht_keys_def node_blocks_def)
qed

text \<open>The copies in the first node of a bucket are never given back.\<close>

lemma xht_free_leaks: "0 < p \<Longrightarrow> xht_free (xht_store ck cv (xht_new p) (Some k) val n) = []"
proof -
  assume "0 < p"
  then have "xht_index (xht_new p) (snd k) < unat p"
    using xht_index_less [OF xht_ok_new] by (simp add: xht_new_def)
  then show ?thesis
    by (auto simp: xht_free_def xht_store_def xht_set_flag_def xht_node_def xht_new_def empty_node_def
        Let_def dest: set_update_subset_insert [THEN subsetD])
qed

end
