(* ===== verification/JsonText.thy ===== *)
theory JsonText
  imports Js0n
begin

text \<open>
  What the scanner of \<open>Js0n\<close> does on the JSON objects this program writes: no white space, the
  keys and values one after the other. A value is any string, bare word, object or array; the
  grammar below is that of the scanner, which takes a colon or a comma for white space and does
  not match the kinds of brackets.
\<close>

section \<open>The grammar\<close>

definition sep_byte :: "u8 \<Rightarrow> bool" where
  "sep_byte c \<longleftrightarrow> c \<in> {9, 32, 13, 10, 58, 44}"

definition open_byte :: "u8 \<Rightarrow> bool" where
  "open_byte c \<longleftrightarrow> c = 91 \<or> c = 123"

definition close_byte :: "u8 \<Rightarrow> bool" where
  "close_byte c \<longleftrightarrow> c = 93 \<or> c = 125"

definition bare_start :: "u8 \<Rightarrow> bool" where
  "bare_start c \<longleftrightarrow> c = 45 \<or> (48 \<le> c \<and> c \<le> 57) \<or> (65 \<le> c \<and> c \<le> 90) \<or> (97 \<le> c \<and> c \<le> 122)"

definition bare_char :: "u8 \<Rightarrow> bool" where
  "bare_char c \<longleftrightarrow> 32 \<le> c \<and> c \<le> 126 \<and> c \<notin> {32, 44, 93, 125, 58}"

definition bare_word :: "bytes \<Rightarrow> bool" where
  "bare_word b \<longleftrightarrow> (case b of [] \<Rightarrow> False | c # cs \<Rightarrow> bare_start c \<and> list_all bare_char cs)"

definition str_char :: "u8 \<Rightarrow> bool" where
  "str_char c \<longleftrightarrow> 32 \<le> c \<and> c \<le> 126 \<and> c \<noteq> 34 \<and> c \<noteq> 92"

definition utf8_tail :: "u8 \<Rightarrow> bool" where
  "utf8_tail c \<longleftrightarrow> 128 \<le> c \<and> c \<le> 191"

text \<open>The inside of a string: plain characters, escapes, and UTF-8 sequences.\<close>

fun str_body :: "bytes \<Rightarrow> bool" where
  "str_body [] = True"
| "str_body (c # cs) =
     (if c = 92 then (case cs of [] \<Rightarrow> False | e # es \<Rightarrow> goesc e = LUnesc \<and> str_body es)
      else if 192 \<le> c \<and> c \<le> 223 then (case cs of a # as \<Rightarrow> utf8_tail a \<and> str_body as | _ \<Rightarrow> False)
      else if 224 \<le> c \<and> c \<le> 239 then
        (case cs of a # b # as \<Rightarrow> utf8_tail a \<and> utf8_tail b \<and> str_body as | _ \<Rightarrow> False)
      else if 240 \<le> c \<and> c \<le> 247 then
        (case cs of a # b # d # as \<Rightarrow> utf8_tail a \<and> utf8_tail b \<and> utf8_tail d \<and> str_body as | _ \<Rightarrow> False)
      else str_char c \<and> str_body cs)"

text \<open>The inside of brackets, and a value.\<close>

inductive json_items :: "bytes \<Rightarrow> bool" where
  items_Nil: "json_items []"
| items_sep: "sep_byte c \<Longrightarrow> json_items ts \<Longrightarrow> json_items (c # ts)"
| items_str: "str_body s \<Longrightarrow> json_items ts \<Longrightarrow> json_items (34 # s @ 34 # ts)"
| items_bare: "bare_word b \<Longrightarrow> sep_byte c \<Longrightarrow> json_items ts \<Longrightarrow> json_items (b @ c # ts)"
| items_nest: "open_byte c \<Longrightarrow> json_items a \<Longrightarrow> b = [] \<or> bare_word b \<Longrightarrow> close_byte d \<Longrightarrow> json_items ts \<Longrightarrow>
     json_items (c # a @ b @ d # ts)"

inductive json_value :: "bytes \<Rightarrow> bool" where
  value_str: "str_body s \<Longrightarrow> json_value (34 # s @ [34])"
| value_bare: "bare_word b \<Longrightarrow> json_value b"
| value_nest: "open_byte c \<Longrightarrow> json_items a \<Longrightarrow> b = [] \<or> bare_word b \<Longrightarrow> close_byte d \<Longrightarrow>
     json_value (c # a @ b @ [d])"

section \<open>Scanning a piece of the text\<close>

text \<open>Over the piece \<open>xs\<close> the scanner goes from the state \<open>s\<close> to \<open>t\<close>, whatever follows.\<close>

definition scans :: "bytes \<Rightarrow> bytes \<Rightarrow> nat \<Rightarrow> bytes \<Rightarrow> js_state \<Rightarrow> js_state \<Rightarrow> bool" where
  "scans key json cur xs s t \<longleftrightarrow>
     (\<forall>ys. js0n_loop key json (xs @ ys) cur s = js0n_loop key json ys (cur + length xs) t)"

named_theorems scan_intros \<open>pieces of text and what the scanner does over them\<close>

lemma scans_Nil [simp, scan_intros]: "scans key json cur [] s s"
  by (simp add: scans_def)

lemma scans_Cons:
  "js_byte key json cur c s = JsNext s1 \<Longrightarrow> scans key json (cur + 1) xs s1 t \<Longrightarrow>
     scans key json cur (c # xs) s t"
  by (simp add: scans_def)

lemma scans_append:
  "scans key json cur xs s s1 \<Longrightarrow> scans key json (cur + length xs) ys s1 t \<Longrightarrow>
     scans key json cur (xs @ ys) s t"
  by (simp add: scans_def add.assoc)

lemma scansD: "scans key json cur xs s t \<Longrightarrow>
   js0n_loop key json (xs @ ys) cur s = js0n_loop key json ys (cur + length xs) t"
  by (simp add: scans_def)

text \<open>The jump tables on the classes of bytes.\<close>

lemma table_string [simp]:
  "str_char c \<Longrightarrow> gostring c = LLoop"
  "192 \<le> c \<Longrightarrow> c \<le> 223 \<Longrightarrow> gostring c = LUtf8_2"
  "224 \<le> c \<Longrightarrow> c \<le> 239 \<Longrightarrow> gostring c = LUtf8_3"
  "240 \<le> c \<Longrightarrow> c \<le> 247 \<Longrightarrow> gostring c = LUtf8_4"
  "utf8_tail c \<Longrightarrow> goutf8_continue c = LUtfContinue"
  "gostring 92 = LEsc" "gostring 34 = LQdown"
  by (auto simp: gostring_def goutf8_continue_def str_char_def utf8_tail_def word_le_nat_alt)

lemma table_struct [simp]:
  "sep_byte c \<Longrightarrow> gostruct c = LLoop"
  "open_byte c \<Longrightarrow> gostruct c = LUp"
  "close_byte c \<Longrightarrow> gostruct c = LDown"
  "bare_start c \<Longrightarrow> gostruct c = LBare"
  "gostruct 34 = LQup"
  by (auto simp: gostruct_def sep_byte_def open_byte_def close_byte_def bare_start_def)

lemma table_bare [simp]:
  "bare_char c \<Longrightarrow> gobare c = LLoop"
  "sep_byte c \<Longrightarrow> gobare c = LUnbare"
  "close_byte c \<Longrightarrow> gobare c = LUnbare"
  by (auto simp: gobare_def bare_char_def sep_byte_def close_byte_def)

text \<open>Inside a string the scanner only moves on.\<close>

abbreviation "in_string s \<equiv> js_go s = GoString \<and> js_utf8 s = 0"

lemma js_go_same: "js_go s = g \<Longrightarrow> s\<lparr>js_go := g\<rparr> = s"
  by (cases s) simp

lemma js_utf8_same: "js_utf8 s = n \<Longrightarrow> s\<lparr>js_utf8 := n\<rparr> = s"
  by (cases s) simp

lemma scans_utf8:
  assumes "in_string s"
  shows "192 \<le> c \<Longrightarrow> c \<le> 223 \<Longrightarrow> utf8_tail a \<Longrightarrow> scans key json cur [c, a] s s"
    and "224 \<le> c \<Longrightarrow> c \<le> 239 \<Longrightarrow> utf8_tail a \<Longrightarrow> utf8_tail b \<Longrightarrow> scans key json cur [c, a, b] s s"
    and "240 \<le> c \<Longrightarrow> c \<le> 247 \<Longrightarrow> utf8_tail a \<Longrightarrow> utf8_tail b \<Longrightarrow> utf8_tail d \<Longrightarrow>
      scans key json cur [c, a, b, d] s s"
  using assms
  by (cases s; simp add: scans_def js_byte_def js_jump_def js_label_step_def Let_def)+

lemma scans_string [scan_intros]:
  "str_body b \<Longrightarrow> in_string s \<Longrightarrow> scans key json cur b s s"
proof (induction b arbitrary: cur rule: str_body.induct)
  case 1
  show ?case by (rule scans_Nil)
next
  case (2 c cs)
  have join: "scans key json cur (xs @ ys) s s"
    if "scans key json cur xs s s" "scans key json (cur + length xs) ys s s" for xs ys
    using that by (rule scans_append)
  show ?case
  proof (cases "c = 92")
    case True
    then obtain e es where e: "cs = e # es" "goesc e = LUnesc" "str_body es"
      using "2.prems"(1) by (cases cs) auto
    have "scans key json cur [c, e] s s"
      using "2.prems"(2) e(2) True
      by (cases s) (simp add: scans_def js_byte_def js_jump_def js_label_step_def)
    from join [OF this "2.IH"(1) [OF True e(1,3) "2.prems"(2)]] show ?thesis by (simp add: e(1))
  next
    case esc: False
    show ?thesis
    proof (cases "192 \<le> c \<and> c \<le> 223")
      case True
      then obtain a as where a: "cs = a # as" "utf8_tail a" "str_body as"
        using "2.prems"(1) esc by (cases cs) auto
      from join [OF scans_utf8(1) "2.IH"(2)] show ?thesis
        using True a esc "2.prems"(2) by simp
    next
      case two: False
      show ?thesis
      proof (cases "224 \<le> c \<and> c \<le> 239")
        case True
        then obtain a b as where a: "cs = a # b # as" "utf8_tail a" "utf8_tail b" "str_body as"
          using "2.prems"(1) esc two by (auto split: list.splits)
        from join [OF scans_utf8(2) "2.IH"(3)] show ?thesis
          using True a esc two "2.prems"(2) by simp
      next
        case three: False
        show ?thesis
        proof (cases "240 \<le> c \<and> c \<le> 247")
          case True
          then obtain a b d as where a: "cs = a # b # d # as" "utf8_tail a" "utf8_tail b"
            "utf8_tail d" "str_body as"
            using "2.prems"(1) esc two three by (auto split: list.splits)
          from join [OF scans_utf8(3) "2.IH"(4)] show ?thesis
            using True a esc two three "2.prems"(2) by simp
        next
          case False
          then have c: "str_char c" "str_body cs" using "2.prems"(1) esc two three by auto
          have "js_byte key json cur c s = JsNext s"
            using c(1) "2.prems"(2) by (simp add: js_byte_def js_jump_def js_label_step_def)
          then show ?thesis
            using "2.IH"(5) c(2) esc two three False "2.prems"(2) by (intro scans_Cons) auto
        qed
      qed
    qed
  qed
qed

text \<open>A bare word, from its first byte to its last.\<close>

lemma scans_bare_chars: "list_all bare_char b \<Longrightarrow> js_go s = GoBare \<Longrightarrow> scans key json cur b s s"
proof (induction b arbitrary: cur)
  case (Cons c b)
  have "js_byte key json cur c s = JsNext s"
    using Cons.prems by (simp add: js_byte_def js_jump_def js_label_step_def)
  then show ?case using Cons by (intro scans_Cons) auto
qed (rule scans_Nil)

lemma scans_bare:
  assumes "bare_word b" and "js_go s = GoStruct"
  shows "scans key json cur b s ((js_push 0 cur s)\<lparr>js_go := GoBare\<rparr>)"
proof -
  obtain c cs where b: "b = c # cs" "bare_start c" "list_all bare_char cs"
    using assms(1) by (auto simp: bare_word_def split: list.splits)
  have "js_byte key json cur c s = JsNext ((js_push 0 cur s)\<lparr>js_go := GoBare\<rparr>)"
    using b(2) assms(2) by (simp add: js_byte_def js_jump_def js_label_step_def)
  then show ?thesis unfolding b(1) by (rule scans_Cons) (simp add: b(3) scans_bare_chars)
qed

section \<open>Inside nested brackets\<close>

text \<open>Deeper than one level the scanner records nothing.\<close>

abbreviation "nested s \<equiv> js_go s = GoStruct \<and> js_utf8 s = 0 \<and> 2 \<le> js_depth s"

lemma deep_simps [simp]:
  "js_depth s \<noteq> 1 \<Longrightarrow> js_push i cur s = s"
  "js_depth s \<noteq> 1 \<Longrightarrow> js_CAP key json e cur s = JsNext s"
  by (auto simp: js_push_def js_CAP_def js_cap_def js_match_def split: option.split)

lemma struct_byte:
  "js_go s = GoStruct \<Longrightarrow> sep_byte c \<Longrightarrow> js_byte key json cur c s = JsNext s"
  "js_go s = GoStruct \<Longrightarrow> open_byte c \<Longrightarrow>
     js_byte key json cur c s = JsNext ((js_push 0 cur s)\<lparr>js_depth := js_depth s + 1\<rparr>)"
  "js_go s = GoStruct \<Longrightarrow> close_byte c \<Longrightarrow>
     js_byte key json cur c s = js_CAP key json 1 cur (s\<lparr>js_depth := js_depth s - 1\<rparr>)"
  "js_go s = GoStruct \<Longrightarrow>
     js_byte key json cur 34 s = JsNext ((js_push 1 cur s)\<lparr>js_go := GoString\<rparr>)"
  by (simp_all add: js_byte_def js_jump_def js_label_step_def)

text \<open>After a bare word a separator or bracket is read as if the word had not been there.\<close>

lemma bare_end:
  assumes "js_CAP key json 0 cur (s\<lparr>js_go := GoBare\<rparr>) = JsNext (s\<lparr>js_go := GoBare\<rparr>)"
    and "js_go s = GoStruct" and "sep_byte c \<or> close_byte c"
  shows "js_byte key json cur c (s\<lparr>js_go := GoBare\<rparr>) = js_byte key json cur c s"
proof -
  have "gobare c = LUnbare" using assms(3) by auto
  moreover have "gostruct c = LLoop \<or> gostruct c = LDown" using assms(3) by auto
  ultimately show ?thesis
    using assms(1,2) by (auto simp: js_byte_def js_jump_def js_go_same)
qed

lemma scans_nested_string:
  assumes "str_body b" and "nested s"
  shows "scans key json cur (34 # b @ [34]) s s"
proof (rule scans_Cons)
  show "js_byte key json cur 34 s = JsNext (s\<lparr>js_go := GoString\<rparr>)"
    using assms(2) by (simp add: struct_byte)
  have "js_byte key json (cur + 1 + length b) 34 (s\<lparr>js_go := GoString\<rparr>) = JsNext s"
    using assms(2) by (simp add: js_byte_def js_jump_def js_label_step_def js_go_same)
  then show "scans key json (cur + 1) (b @ [34]) (s\<lparr>js_go := GoString\<rparr>) s"
    using assms by (intro scans_append [OF scans_string] scans_Cons scans_Nil) auto
qed

lemma scans_nested_bare:
  assumes "b = [] \<or> bare_word b" and "nested s" and "sep_byte c \<or> close_byte c"
    and "js_byte key json (cur + length b) c s = JsNext t"
  shows "scans key json cur (b @ [c]) s t"
proof (cases "b = []")
  case True
  then show ?thesis using assms(4) by (auto intro: scans_Cons scans_Nil)
next
  case False
  have "scans key json cur b s (s\<lparr>js_go := GoBare\<rparr>)"
    using scans_bare [of b s key json cur] assms(1,2) False by simp
  moreover have "js_byte key json (cur + length b) c (s\<lparr>js_go := GoBare\<rparr>) = JsNext t"
    using bare_end [of key json "cur + length b" s c] assms(2-4) by simp
  ultimately show ?thesis by (intro scans_append scans_Cons scans_Nil) auto
qed

lemma scans_items: "json_items ts \<Longrightarrow> nested s \<Longrightarrow> scans key json cur ts s s"
proof (induction ts arbitrary: cur s rule: json_items.induct)
  case items_Nil
  show ?case by (rule scans_Nil)
next
  case (items_sep c ts)
  then show ?case by (intro scans_Cons [OF struct_byte(1)]) auto
next
  case (items_str b ts)
  have "scans key json cur ((34 # b @ [34]) @ ts) s s"
    using items_str by (intro scans_append [OF scans_nested_string]) auto
  then show ?case by simp
next
  case (items_bare b c ts)
  have "scans key json cur (b @ [c]) s s"
    using items_bare by (intro scans_nested_bare) (auto simp: struct_byte)
  then have "scans key json cur ((b @ [c]) @ ts) s s"
    using items_bare by (intro scans_append [of key json cur "b @ [c]" s s]) auto
  then show ?case by simp
next
  case (items_nest c a b d ts)
  let ?s = "s\<lparr>js_depth := js_depth s + 1\<rparr>"
  have up: "js_byte key json cur c s = JsNext ?s"
    using items_nest by (simp add: struct_byte)
  have in_: "scans key json (cur + 1) a ?s ?s" using items_nest.IH(1) items_nest.prems by simp
  have s: "s\<lparr>js_depth := js_depth s\<rparr> = s" by simp
  have down: "scans key json (cur + 1 + length a) (b @ [d]) ?s s"
    using items_nest by (intro scans_nested_bare) (auto simp: struct_byte)
  have "scans key json (cur + 1 + length a + length (b @ [d])) ts s s"
    using items_nest.IH(2) items_nest.prems by simp
  then have "scans key json (cur + 1 + length a) ((b @ [d]) @ ts) ?s s" by (rule scans_append [OF down])
  then have "scans key json (cur + 1) (a @ (b @ [d]) @ ts) ?s s" by (rule scans_append [OF in_])
  then have "scans key json cur (c # a @ (b @ [d]) @ ts) s s" by (rule scans_Cons [OF up])
  then show ?case by simp
qed

section \<open>The fields of an object\<close>

text \<open>The scanner between two fields of the object: looking for a key of length \<open>n\<close>.\<close>

definition at_field :: "nat \<Rightarrow> nat \<Rightarrow> nat option \<Rightarrow> js_state" where
  "at_field n i st = \<lparr>js_go = GoStruct, js_depth = 1, js_index = i, js_klen = n, js_val = None,
     js_start = st, js_utf8 = 0\<rparr>"

definition key_text :: "bytes \<Rightarrow> bytes" where
  "key_text k = 34 # k @ [34, 58]"

lemma scans_key:
  assumes "str_body k" and "key \<noteq> []" and "take (length k) (drop (cur + 1) json) = k"
  shows "scans key json cur (key_text k) (at_field (length key) 1 st)
    (at_field (length key) (if k = key then 0 else 2) None)"
proof -
  let ?s = "at_field (length key) 1 (Some (cur + 1))\<lparr>js_go := GoString\<rparr>"
  let ?t = "at_field (length key) (if k = key then 0 else 2) None"
  have quote: "js_byte key json cur 34 (at_field (length key) 1 st) = JsNext ?s"
    using assms(2) by (simp add: struct_byte at_field_def js_push_def)
  have in_: "scans key json (cur + 1) k ?s ?s" using assms(1) by (intro scans_string) (simp_all add: at_field_def)
  have "js_match key json (cur + 1 + length k) ?s = ?t\<lparr>js_go := GoString\<rparr>"
  proof (cases "k = key")
    case True
    then show ?thesis using assms(2,3) by (simp add: js_match_def at_field_def)
  next
    case False
    then have "\<not> (length key = length k \<and> take (length key) (drop (cur + 1) json) = key)"
      using assms(3) by (metis (no_types))
    then show ?thesis using assms(2) False by (simp add: js_match_def at_field_def)
  qed
  then have close: "js_byte key json (cur + 1 + length k) 34 ?s = JsNext ?t"
    by (simp add: js_byte_def js_jump_def js_label_step_def js_CAP_def js_cap_def at_field_def)
  have "js_byte key json (cur + 1 + length k + 1) 58 ?t = JsNext ?t"
    by (rule struct_byte(1)) (simp_all add: at_field_def sep_byte_def)
  then have "scans key json (cur + 1 + length k) [34, 58] ?s ?t"
    using close by (intro scans_Cons) (assumption | rule scans_Nil)+
  then show ?thesis
    unfolding key_text_def by (intro scans_Cons [OF quote] scans_append [OF in_])
qed

text \<open>
  A value that is not asked for, of another key or at an earlier place, is passed over and counted.
\<close>

lemma skip_element:
  assumes "json_value v" and "i \<noteq> 0" and "n = 0 \<or> i \<noteq> 1 \<and> st = None" and "sep_byte c \<or> close_byte c"
  shows "js0n_loop key json (v @ c # ys) cur (at_field n i st) =
    js0n_loop key json (c # ys) (cur + length v) (at_field n (i - 1) st)"
  using assms(1)
proof cases
  case (value_str b)
  let ?s = "at_field n (i - 1) st\<lparr>js_go := GoString\<rparr>"
  have "js_byte key json cur 34 (at_field n i st) = JsNext ?s"
    using assms(2,3) by (auto simp: struct_byte at_field_def js_push_def)
  moreover have "scans key json (cur + 1) b ?s ?s"
    using value_str by (intro scans_string) (simp_all add: at_field_def)
  moreover have "js_byte key json (cur + 1 + length b) 34 ?s = JsNext (at_field n (i - 1) st)"
    using assms(3)
    by (auto simp: js_byte_def js_jump_def js_label_step_def js_CAP_def js_cap_def js_match_def at_field_def
        split: option.splits)
  ultimately have "scans key json cur v (at_field n i st) (at_field n (i - 1) st)"
    unfolding value_str(1) by (intro scans_Cons scans_append) (assumption | rule scans_Nil)+
  then show ?thesis by (rule scansD)
next
  case value_bare
  have push: "js_push 0 cur (at_field n i st) = at_field n (i - 1) st"
    using assms(2,3) by (auto simp: at_field_def js_push_def)
  have "scans key json cur v (at_field n i st) (at_field n (i - 1) st\<lparr>js_go := GoBare\<rparr>)"
    using scans_bare [OF value_bare, of "at_field n i st" key json cur] push by (simp add: at_field_def)
  moreover have "js_byte key json (cur + length v) c (at_field n (i - 1) st\<lparr>js_go := GoBare\<rparr>) =
      js_byte key json (cur + length v) c (at_field n (i - 1) st)"
    using assms(3,4)
    by (intro bare_end) (auto simp: at_field_def js_CAP_def js_cap_def js_match_def split: option.splits)
  ultimately show ?thesis by (simp add: scansD)
next
  case (value_nest w a b d)
  let ?s = "at_field n (i - 1) st\<lparr>js_depth := 2\<rparr>"
  have "js_byte key json cur w (at_field n i st) = JsNext ?s"
    using assms(2,3) value_nest by (subst struct_byte(2)) (auto simp: at_field_def js_push_def)
  moreover have "scans key json (cur + 1) a ?s ?s"
    using value_nest by (intro scans_items) (simp_all add: at_field_def)
  moreover have "js_byte key json (cur + 1 + length a + length b) d ?s = JsNext (at_field n (i - 1) st)"
    using value_nest assms(3)
    by (simp add: struct_byte at_field_def) (auto simp: js_CAP_def js_cap_def js_match_def split: option.splits)
  then have "scans key json (cur + 1 + length a) (b @ [d]) ?s (at_field n (i - 1) st)"
    using value_nest by (intro scans_nested_bare) (auto simp: at_field_def)
  ultimately have "scans key json cur v (at_field n i st) (at_field n (i - 1) st)"
    unfolding value_nest(1) by (rule scans_Cons [OF _ scans_append])
  then show ?thesis by (rule scansD)
qed

lemma skip_value:
  assumes "json_value v" and "n \<noteq> 0" and "c = 44 \<or> c = 125"
  shows "js0n_loop key json (v @ c # ys) cur (at_field n 2 None) =
    js0n_loop key json (c # ys) (cur + length v) (at_field n 1 None)"
  using skip_element [OF assms(1), of 2 n None c key json ys cur] assms(3)
  by (auto simp: sep_byte_def close_byte_def)

text \<open>Where the value of the key lies: a string without its quotes, anything else as it is.\<close>

definition value_span :: "nat \<Rightarrow> bytes \<Rightarrow> nat option \<times> nat" where
  "value_span cur v = (if hd v = 34 then (Some (cur + 1), length v - 2) else (Some cur, length v))"

lemma take_element:
  assumes "json_value v" and "sep_byte c \<or> close_byte c"
  shows "js0n_loop key json (v @ c # ys) cur (at_field n 0 st) = value_span cur v"
  using assms(1)
proof cases
  case (value_str b)
  let ?s = "at_field n 0 st\<lparr>js_go := GoString, js_val := Some (cur + 1)\<rparr>"
  have "js_byte key json cur 34 (at_field n 0 st) = JsNext ?s"
    by (simp add: struct_byte at_field_def js_push_def)
  moreover have "scans key json (cur + 1) b ?s ?s"
    using value_str by (intro scans_string) (simp_all add: at_field_def)
  ultimately have "scans key json cur (34 # b) (at_field n 0 st) ?s" by (rule scans_Cons)
  from scansD [OF this, of "34 # c # ys"] show ?thesis
    by (simp add: value_str value_span_def)
      (simp add: js_byte_def js_jump_def js_label_step_def js_CAP_def js_cap_def at_field_def)
next
  case value_bare
  let ?s = "at_field n 0 st\<lparr>js_val := Some cur, js_go := GoBare\<rparr>"
  have "scans key json cur v (at_field n 0 st) ?s"
    using scans_bare [OF value_bare, of "at_field n 0 st" key json cur]
    by (simp add: at_field_def js_push_def)
  moreover have "gobare c = LUnbare" using assms(2) by auto
  moreover have "hd v \<noteq> 34"
    using value_bare by (auto simp: bare_word_def bare_start_def split: list.splits)
  ultimately show ?thesis
    by (simp add: scansD value_span_def)
      (simp add: js_byte_def js_jump_def js_label_step_def js_CAP_def js_cap_def at_field_def)
next
  case (value_nest w a b d)
  let ?s = "at_field n 0 st\<lparr>js_val := Some cur, js_depth := 2\<rparr>"
  have "js_byte key json cur w (at_field n 0 st) = JsNext ?s"
    using value_nest by (subst struct_byte(2)) (simp_all add: at_field_def js_push_def)
  moreover have "scans key json (cur + 1) a ?s ?s"
    using value_nest by (intro scans_items) (simp_all add: at_field_def)
  ultimately have up: "scans key json cur (w # a) (at_field n 0 st) ?s" by (rule scans_Cons)
  let ?e = "cur + 1 + length a + length b"
  have close: "js_byte key json ?e d ?s = JsReturn (Some cur) (length v)"
    using value_nest by (simp add: struct_byte at_field_def) (simp add: js_CAP_def js_cap_def)
  have "js0n_loop key json (b @ d # c # ys) (cur + 1 + length a) ?s =
      (Some cur, length v)"
  proof (cases "b = []")
    case True
    then show ?thesis using close by simp
  next
    case False
    have "scans key json (cur + 1 + length a) b ?s (?s\<lparr>js_go := GoBare\<rparr>)"
      using scans_bare [of b ?s key json] value_nest False by (simp add: at_field_def)
    moreover have "js_byte key json ?e d (?s\<lparr>js_go := GoBare\<rparr>) = js_byte key json ?e d ?s"
      using value_nest by (intro bare_end) (auto simp: at_field_def)
    ultimately show ?thesis using close by (simp add: scansD)
  qed
  moreover have "w \<noteq> 34" using value_nest by (auto simp: open_byte_def)
  ultimately show ?thesis
    using scansD [OF up, of "b @ d # c # ys"] by (simp add: value_nest(1) value_span_def)
qed

lemma take_value:
  assumes "json_value v" and "c = 44 \<or> c = 125"
  shows "js0n_loop key json (v @ c # ys) cur (at_field n 0 None) = value_span cur v"
  using assms by (intro take_element) (auto simp: sep_byte_def close_byte_def)

section \<open>Objects\<close>

text \<open>The text of a field, and of an object with the fields \<open>fs\<close>.\<close>

definition field_text :: "bytes \<times> bytes \<Rightarrow> bytes" where
  "field_text f = key_text (fst f) @ snd f"

definition object_text :: "(bytes \<times> bytes) list \<Rightarrow> bytes" where
  "object_text fs =
     123 # (case fs of [] \<Rightarrow> [] | f # gs \<Rightarrow> field_text f @ concat (map (\<lambda>g. 44 # field_text g) gs)) @ [125]"

text \<open>Keys and values the text can hold, each key once.\<close>

definition key_ok :: "bytes \<Rightarrow> bool" where
  "key_ok k \<longleftrightarrow> k \<noteq> [] \<and> str_body k"

definition fields_ok :: "(bytes \<times> bytes) list \<Rightarrow> bool" where
  "fields_ok fs \<longleftrightarrow> distinct (map fst fs) \<and> list_all (\<lambda>f. key_ok (fst f) \<and> json_value (snd f)) fs"

text \<open>The text around the value of one field.\<close>

definition text_before :: "(bytes \<times> bytes) list \<Rightarrow> bytes \<Rightarrow> bytes" where
  "text_before fs k = 123 # concat (map (\<lambda>f. field_text f @ [44]) fs) @ key_text k"

definition text_after :: "(bytes \<times> bytes) list \<Rightarrow> bytes" where
  "text_after gs = concat (map (\<lambda>g. 44 # field_text g) gs) @ [125]"

lemma shift_commas:
  "concat (map (\<lambda>g. 44 # field_text g) gs) @ 44 # r = 44 # concat (map (\<lambda>g. field_text g @ [44]) gs) @ r"
  by (induction gs) simp_all

lemma object_text_split: "object_text (fs @ (k, v) # gs) = text_before fs k @ v @ text_after gs"
proof (cases fs)
  case Nil
  then show ?thesis by (simp add: object_text_def text_before_def text_after_def field_text_def)
next
  case (Cons f hs)
  then show ?thesis
    using shift_commas [of hs "key_text k @ v @ text_after gs"]
    by (simp add: object_text_def text_before_def text_after_def field_text_def)
qed

lemma text_after_hd: "\<exists>c cs. text_after gs = c # cs \<and> (c = 44 \<or> c = 125)"
  by (cases gs) (auto simp: text_after_def)

text \<open>The fields before the one looked for.\<close>

lemma scans_comma: "scans key json cur [44] (at_field n 1 st) (at_field n 1 st)"
  by (rule scans_Cons [OF struct_byte(1)]) (simp_all add: at_field_def sep_byte_def)

lemma scans_field:
  assumes "key_ok k" and "json_value v" and "key \<noteq> []" and "k \<noteq> key"
    and "json = pre @ field_text (k, v) @ [44] @ rest"
  shows "scans key json (length pre) (field_text (k, v) @ [44]) (at_field (length key) 1 st)
    (at_field (length key) 1 None)"
proof -
  have "scans key json (length pre) (key_text k) (at_field (length key) 1 st) (at_field (length key) 2 None)"
    using scans_key [of k key "length pre" json st] assms by (simp add: key_ok_def field_text_def key_text_def)
  moreover have "js0n_loop key json (v @ 44 # ys) cur (at_field (length key) 2 None) =
      js0n_loop key json (44 # ys) (cur + length v) (at_field (length key) 1 None)" for cur ys
    using skip_value [OF assms(2)] assms(3) by simp
  moreover have "js0n_loop key json (44 # ys) cur (at_field (length key) 1 None) =
      js0n_loop key json ys (cur + 1) (at_field (length key) 1 None)" for cur ys
    using scansD [OF scans_comma] by simp
  ultimately show ?thesis
    by (simp add: scans_def field_text_def add.assoc)
qed

lemma scans_fields:
  assumes "list_all (\<lambda>f. key_ok (fst f) \<and> json_value (snd f)) fs" and "key \<noteq> []" and "key \<notin> set (map fst fs)"
    and "json = pre @ concat (map (\<lambda>f. field_text f @ [44]) fs) @ rest"
  shows "\<exists>st'. scans key json (length pre) (concat (map (\<lambda>f. field_text f @ [44]) fs))
    (at_field (length key) 1 st) (at_field (length key) 1 st')"
  using assms
proof (induction fs arbitrary: pre st)
  case (Cons f fs)
  obtain k v where f: "f = (k, v)" by fastforce
  have one: "scans key json (length pre) (field_text (k, v) @ [44]) (at_field (length key) 1 st)
      (at_field (length key) 1 None)"
    using Cons.prems by (intro scans_field [where rest = "concat (map (\<lambda>f. field_text f @ [44]) fs) @ rest"])
      (auto simp: f)
  obtain st' where "scans key json (length (pre @ field_text (k, v) @ [44]))
      (concat (map (\<lambda>f. field_text f @ [44]) fs)) (at_field (length key) 1 None) (at_field (length key) 1 st')"
    using Cons.IH [of "pre @ field_text (k, v) @ [44]" None] Cons.prems by (auto simp: f)
  then have "scans key json (length pre) ((field_text (k, v) @ [44]) @ concat (map (\<lambda>f. field_text f @ [44]) fs))
      (at_field (length key) 1 st) (at_field (length key) 1 st')"
    by (intro scans_append [OF one]) simp
  then show ?case by (auto simp: f)
next
  case Nil
  have "scans key json (length pre) [] (at_field (length key) 1 st) (at_field (length key) 1 st)"
    by (rule scans_Nil)
  then show ?case by (auto simp del: scans_Nil)
qed

text \<open>The brace that opens the object.\<close>

lemma js0n_open:
  assumes "key \<noteq> []" and "klen = 0 \<or> klen = length key" and "json = 123 # text"
  shows "js0n (Some key) klen json = js0n_loop key json text 1 (at_field (length key) 1 (Some 0))"
proof -
  have "js_byte key json 0 123 (at_field (length key) 1 (Some 0)\<lparr>js_depth := 0\<rparr>) =
      JsNext (at_field (length key) 1 (Some 0))"
    by (subst struct_byte(2)) (simp_all add: at_field_def open_byte_def)
  then show ?thesis using assms by (auto simp: js0n_def at_field_def)
qed

lemma fields_ok_split:
  "fields_ok (fs @ (k, v) # gs) \<Longrightarrow> key_ok k \<and> json_value v \<and> k \<notin> set (map fst fs) \<and>
     list_all (\<lambda>f. key_ok (fst f) \<and> json_value (snd f)) fs"
  by (simp add: fields_ok_def)

lemma js0n_object_Some:
  assumes "fields_ok (fs @ (k, v) # gs)" and "klen = 0 \<or> klen = length k"
  shows "js0n (Some k) klen (object_text (fs @ (k, v) # gs)) = value_span (length (text_before fs k)) v"
proof -
  note ok = fields_ok_split [OF assms(1)]
  let ?json = "object_text (fs @ (k, v) # gs)" and ?fs = "concat (map (\<lambda>f. field_text f @ [44]) fs)"
  have json: "?json = [123] @ ?fs @ key_text k @ v @ text_after gs"
    by (simp add: object_text_split text_before_def)
  obtain c cs where after: "text_after gs = c # cs" "c = 44 \<or> c = 125" using text_after_hd by blast
  have k: "k \<noteq> []" "str_body k" using ok by (simp_all add: key_ok_def)
  obtain st where "scans k ?json 1 ?fs (at_field (length k) 1 (Some 0)) (at_field (length k) 1 st)"
    using scans_fields [of fs k ?json "[123]" "key_text k @ v @ text_after gs" "Some 0"] ok k(1) json by auto
  moreover have "scans k ?json (1 + length ?fs) (key_text k) (at_field (length k) 1 st) (at_field (length k) 0 None)"
    using scans_key [of k k "1 + length ?fs" ?json st] k by (simp add: json key_text_def)
  ultimately have "scans k ?json 1 (?fs @ key_text k) (at_field (length k) 1 (Some 0)) (at_field (length k) 0 None)"
    by (rule scans_append)
  from scansD [OF this, of "v @ c # cs"]
  have "js0n_loop k ?json (?fs @ key_text k @ v @ text_after gs) 1 (at_field (length k) 1 (Some 0)) =
      value_span (length (text_before fs k)) v"
    using take_value [of v c k ?json cs] ok after by (simp add: text_before_def)
  then show ?thesis using js0n_open [OF k(1) assms(2)] json by simp
qed

lemma js0n_object_None:
  assumes "fields_ok fs" and "key \<noteq> []" and "klen = 0 \<or> klen = length key" and "key \<notin> set (map fst fs)"
  shows "js0n (Some key) klen (object_text fs) = (None, 0)"
proof -
  let ?json = "object_text fs"
  have close: "js0n_loop key ?json [125] cur (at_field (length key) 1 st) = (None, 0)" for cur st
    by (simp add: struct_byte at_field_def close_byte_def)
  show ?thesis
  proof (cases fs rule: rev_cases)
    case Nil
    then show ?thesis
      using js0n_open [OF assms(2,3), of ?json "[125]"] close by (simp add: object_text_def)
  next
    case (snoc gs f)
    obtain k v where f: "f = (k, v)" by fastforce
    let ?fs = "concat (map (\<lambda>f. field_text f @ [44]) gs)"
    have json: "?json = [123] @ ?fs @ key_text k @ v @ [125]"
      by (simp add: snoc f object_text_split text_before_def text_after_def)
    have ok: "key_ok k \<and> json_value v \<and> list_all (\<lambda>f. key_ok (fst f) \<and> json_value (snd f)) gs"
      using fields_ok_split [of gs k v "[]"] assms(1) by (simp add: snoc f)
    obtain st where "scans key ?json 1 ?fs (at_field (length key) 1 (Some 0)) (at_field (length key) 1 st)"
      using scans_fields [of gs key ?json "[123]" "key_text k @ v @ [125]" "Some 0"] ok assms json
      by (auto simp: snoc)
    moreover have "scans key ?json (1 + length ?fs) (key_text k) (at_field (length key) 1 st)
        (at_field (length key) 2 None)"
      using scans_key [of k key "1 + length ?fs" ?json st] ok assms(2,4)
      by (auto simp: json [unfolded snoc f] key_text_def key_ok_def snoc f)
    ultimately have "scans key ?json 1 (?fs @ key_text k) (at_field (length key) 1 (Some 0))
        (at_field (length key) 2 None)"
      by (rule scans_append)
    from scansD [OF this, of "v @ [125]"]
    have "js0n_loop key ?json (?fs @ key_text k @ v @ [125]) 1 (at_field (length key) 1 (Some 0)) = (None, 0)"
      using skip_value [of v "length key" 125 key ?json "[]"] ok assms(2) close by simp
    then show ?thesis using js0n_open [OF assms(2,3)] json by simp
  qed
qed

end
