(* ===== verification/LobJson.thy ===== *)
theory LobJson
  imports Lob JsonText Base32 "HOL-Library.AList"
begin

text \<open>
  The JSON head of a packet, \<open>src/lib/lob.c\<close>: the setters edit the text of the head in place, the
  getters find a value in it with the scanner of \<open>js0n.c\<close>. Strings are the bytes before their
  NUL. What the getters return in C is a pointer into a copy of the head kept with the packet
  (\<open>cache\<close>), which \<open>unescape\<close> edits in place; here it is the string found on the first reading after
  a change of the head. \<open>long\<close> has 64 bits.
\<close>

section \<open>Setters\<close>

text \<open>
  \<open>lob_set_raw\<close> replaces the value of a key the head has, together with the quotes around it, or
  else puts a field before the closing brace. Lengths of 0 stand for those of the strings.
\<close>

definition set_raw_text :: "bytes \<Rightarrow> bytes \<Rightarrow> nat \<Rightarrow> bytes \<Rightarrow> nat \<Rightarrow> bytes" where
  "set_raw_text json key klen val vlen =
     (case js0n (Some key) klen json of
        (Some e, evlen) \<Rightarrow>
          (let (e, evlen) = (if json ! (e - 1) = 34 then (e - 1, evlen + 2) else (e, evlen))
           in take e json @ take vlen val @ drop (e + evlen) json)
      | (None, _) \<Rightarrow>
          take (length json - 1) json @ (if 7 \<le> length json then [44] else []) @
            34 # take klen key @ [34, 58] @ take vlen val @ [125])"

definition lob_set_raw :: "lob \<Rightarrow> bytes \<Rightarrow> nat \<Rightarrow> bytes \<Rightarrow> nat \<Rightarrow> c_fault + lob" where
  "lob_set_raw p key klen val vlen =
     (case (if head_len p < 2 then lob_head p (Some [123, 125]) 2 else Inr p) of
        Inl f \<Rightarrow> Inl f
      | Inr p \<Rightarrow>
          let klen = (if klen = 0 then length key else klen);
              vlen = (if vlen = 0 then length val else vlen);
              json = set_raw_text (head p) key klen val vlen
          in lob_head p (Some json) (length json))"

text \<open>The decimal digits \<open>sprintf\<close> writes.\<close>

fun dec_digits :: "nat \<Rightarrow> bytes" where
  "dec_digits n =
     (if n < 10 then [of_nat (48 + n)] else dec_digits (n div 10) @ [of_nat (48 + n mod 10)])"

definition lob_set_uint :: "lob \<Rightarrow> bytes \<Rightarrow> u32 \<Rightarrow> c_fault + lob" where
  "lob_set_uint p key val = lob_set_raw p key 0 (dec_digits (unat val)) 0"

definition lob_set_int :: "lob \<Rightarrow> bytes \<Rightarrow> u32 \<Rightarrow> c_fault + lob" where
  "lob_set_int p key val =
     lob_set_raw p key 0
       (if sint val < 0 then 45 # dec_digits (nat (- sint val)) else dec_digits (nat (sint val))) 0"

definition lob_set_bool :: "lob \<Rightarrow> bytes \<Rightarrow> bool \<Rightarrow> c_fault + lob" where
  "lob_set_bool p key val =
     (if val then lob_set_raw p key 0 (map of_char ''true'') 4
      else lob_set_raw p key 0 (map of_char ''false'') 5)"

definition lob_escape :: "bytes \<Rightarrow> bytes" where
  "lob_escape val = concat (map (\<lambda>c. if c = 34 \<or> c = 92 then [92, c] else [c]) val)"

definition lob_set_len :: "lob \<Rightarrow> bytes \<Rightarrow> nat \<Rightarrow> bytes \<Rightarrow> nat \<Rightarrow> c_fault + lob" where
  "lob_set_len p key klen val vlen =
     (let escaped = 34 # lob_escape (take vlen val) @ [34]
      in lob_set_raw p key klen escaped (length escaped))"

definition lob_set :: "lob \<Rightarrow> bytes \<Rightarrow> bytes \<Rightarrow> c_fault + lob" where
  "lob_set p key val = lob_set_len p key 0 val (length val)"

definition lob_set_base32 :: "lob \<Rightarrow> bytes \<Rightarrow> bytes \<Rightarrow> c_fault + lob" where
  "lob_set_base32 p key bin =
     (if bin = [] then Inr p
      else
        let vlen = base32_encode_length (length bin) - 1
        in lob_set_raw p key 0 (34 # base32_encode bin (vlen + 1) @ [34]) (vlen + 2))"

section \<open>Getters\<close>

text \<open>The loop of \<open>unescape\<close>, which knows \<open>\n\<close> and the escaped quote.\<close>

fun unescape :: "bytes \<Rightarrow> bytes" where
  "unescape (c # d # cs) =
     (if c = 92 \<and> d = 110 then 10 # unescape cs
      else if c = 92 \<and> d = 34 then 34 # unescape cs
      else c # unescape (d # cs))"
| "unescape cs = cs"

definition lob_get :: "lob \<Rightarrow> bytes \<Rightarrow> bytes option" where
  "lob_get p key =
     (if head_len p < 5 then None
      else
        case js0n (Some key) 0 (head p) of
          (None, _) \<Rightarrow> None
        | (Some v, len) \<Rightarrow>
            if len = 0 then None else Some (unescape (take len (drop v (head p)))))"

text \<open>The offset of a value in the head, and its length, both with the quotes of a string.\<close>

definition lob_get_raw :: "lob \<Rightarrow> bytes \<Rightarrow> nat option" where
  "lob_get_raw p key =
     (if head_len p < 5 then None
      else
        case fst (js0n (Some key) 0 (head p)) of
          None \<Rightarrow> None
        | Some v \<Rightarrow> Some (if head p ! (v - 1) = 34 then v - 1 else v))"

definition lob_get_len :: "lob \<Rightarrow> bytes \<Rightarrow> nat" where
  "lob_get_len p key =
     (if head_len p < 5 then 0
      else
        case js0n (Some key) 0 (head p) of
          (None, _) \<Rightarrow> 0
        | (Some v, len) \<Rightarrow> if head p ! (v - 1) = 34 then len + 2 else len)"

text \<open>\<open>strtol\<close> and \<open>strtoul\<close> of the C library, base 10.\<close>

definition c_space :: "u8 \<Rightarrow> bool" where
  "c_space c \<longleftrightarrow> c = 32 \<or> (9 \<le> c \<and> c \<le> 13)"

fun read_digits :: "nat \<Rightarrow> bytes \<Rightarrow> nat" where
  "read_digits n [] = n"
| "read_digits n (c # cs) =
     (if 48 \<le> c \<and> c \<le> 57 then read_digits (10 * n + (unat c - 48)) cs else n)"

definition strto_parts :: "bytes \<Rightarrow> bool \<times> nat" where
  "strto_parts s =
     (case dropWhile c_space s of
        [] \<Rightarrow> (False, 0)
      | c # cs \<Rightarrow>
          if c = 45 then (True, read_digits 0 cs)
          else if c = 43 then (False, read_digits 0 cs)
          else (False, read_digits 0 (c # cs)))"

definition strtol10 :: "bytes \<Rightarrow> int" where
  "strtol10 s =
     (let (neg, n) = strto_parts s
      in if neg then max (- (2 ^ 63)) (- int n) else min (2 ^ 63 - 1) (int n))"

definition strtoul10 :: "bytes \<Rightarrow> 64 word" where
  "strtoul10 s =
     (let (neg, n) = strto_parts s
      in if 2 ^ 64 \<le> n then - 1 else if neg then - of_nat n else of_nat n)"

definition lob_get_int :: "lob \<Rightarrow> bytes \<Rightarrow> u32" where
  "lob_get_int p key = (case lob_get p key of None \<Rightarrow> 0 | Some val \<Rightarrow> word_of_int (strtol10 val))"

definition lob_get_uint :: "lob \<Rightarrow> bytes \<Rightarrow> u32" where
  "lob_get_uint p key = (case lob_get p key of None \<Rightarrow> 0 | Some val \<Rightarrow> ucast (strtoul10 val))"

text \<open>The byte before the value in the copy of the head tells a string from a bare word.\<close>

definition lob_get_bool :: "lob \<Rightarrow> bytes \<Rightarrow> bool" where
  "lob_get_bool p key =
     (case lob_get p key of
        None \<Rightarrow> False
      | Some val \<Rightarrow>
          (case fst (js0n (Some key) 0 (head p)) of
             None \<Rightarrow> False
           | Some v \<Rightarrow> head p ! (v - 1) \<noteq> 34 \<and> val = map of_char ''true''))"

text \<open>New packets made of a value: the object as the head, or the decoded text as the body.\<close>

definition lob_get_json :: "lob \<Rightarrow> bytes \<Rightarrow> (c_fault + lob) option" where
  "lob_get_json p key =
     (case js0n (Some key) 0 (head p) of
        (None, _) \<Rightarrow> None
      | (Some v, len) \<Rightarrow>
          let n = unat (of_nat len :: u16)
          in Some (lob_head lob_new (Some (take n (drop v (head p)))) n))"

definition lob_get_base32 :: "lob \<Rightarrow> bytes \<Rightarrow> lob option" where
  "lob_get_base32 p key =
     (case js0n (Some key) 0 (head p) of
        (None, _) \<Rightarrow> None
      | (Some v, len) \<Rightarrow>
          let n = base32_decode_floor len;
              (got, out) = base32_decode (take len (drop v (head p))) n
          in if got < n then None else Some (lob_body lob_new (Some out) n))"

section \<open>The head as a list of fields\<close>

text \<open>The text of a value as the two raw getters give it.\<close>

definition lob_value :: "lob \<Rightarrow> bytes \<Rightarrow> bytes option" where
  "lob_value p key = map_option (\<lambda>v. take (lob_get_len p key) (drop v (head p))) (lob_get_raw p key)"

text \<open>A packet whose head is the object with the fields \<open>fs\<close>, or has no head yet.\<close>

definition json_is :: "lob \<Rightarrow> (bytes \<times> bytes) list \<Rightarrow> bool" where
  "json_is p fs \<longleftrightarrow> lob_ok p \<and> fields_ok fs \<and> (head p = object_text fs \<or> fs = [] \<and> head_len p < 2)"

lemma json_value_text: "json_value v \<Longrightarrow> v \<noteq> [] \<and> (hd v = 34 \<longrightarrow> (\<exists>b. v = 34 # b @ [34] \<and> str_body b))"
  by (cases rule: json_value.cases)
    (auto simp: bare_word_def bare_start_def open_byte_def split: list.splits)

lemma json_value_length: "json_value v \<Longrightarrow> 0 < length v \<and> (hd v = 34 \<longrightarrow> 2 \<le> length v)"
  using json_value_text by fastforce

lemma length_object_text: "fields_ok fs \<Longrightarrow> fs \<noteq> [] \<Longrightarrow> 7 \<le> length (object_text fs)"
  using json_value_length
  by (cases fs) (auto simp: object_text_def field_text_def key_text_def fields_ok_def key_ok_def
      Suc_le_eq neq_Nil_conv)

lemma object_text_brace: "object_text fs ! 0 = 123" "length (object_text fs) \<ge> 2"
  by (simp_all add: object_text_def)

lemma text_before_last: "text_before fs k ! (length (text_before fs k) - 1) = 58" "text_before fs k \<noteq> []"
  by (simp_all add: text_before_def key_text_def nth_append)

lemma object_value_at:
  assumes "fields_ok (xs @ (k, w) # ys)"
  shows "object_text (xs @ (k, w) # ys) ! (the (fst (value_span (length (text_before xs k)) w)) - 1) = 34 \<longleftrightarrow>
    hd w = 34"
proof -
  have "w \<noteq> []" using fields_ok_split [OF assms] json_value_text by blast
  then show ?thesis
    using text_before_last [of xs k]
    by (auto simp: object_text_split value_span_def nth_append hd_conv_nth)
qed

lemma split_fields:
  assumes "fields_ok fs" and "k \<in> set (map fst fs)"
  obtains xs w ys where "fs = xs @ (k, w) # ys" and "k \<notin> set (map fst xs)" and "map_of fs k = Some w"
proof -
  obtain w where "(k, w) \<in> set fs" using assms(2) by auto
  then obtain xs ys where fs: "fs = xs @ (k, w) # ys" by (meson split_list)
  then have "k \<notin> set (map fst xs)" using fields_ok_split assms(1) by blast
  moreover have "map_of fs k = Some w"
    using assms(1) \<open>(k, w) \<in> set fs\<close> by (simp add: fields_ok_def)
  ultimately show thesis using fs that by blast
qed

lemma update_split: "k \<notin> set (map fst xs) \<Longrightarrow> AList.update k v (xs @ (k, w) # ys) = xs @ (k, v) # ys"
  by (induction xs) auto

lemma update_new: "k \<notin> set (map fst fs) \<Longrightarrow> AList.update k v fs = fs @ [(k, v)]"
  by (induction fs) auto

lemma fields_ok_update:
  assumes "fields_ok fs" and "key_ok k" and "json_value v"
  shows "fields_ok (AList.update k v fs)"
proof (cases "k \<in> set (map fst fs)")
  case True
  then obtain xs w ys where "fs = xs @ (k, w) # ys" "k \<notin> set (map fst xs)"
    using split_fields [OF assms(1)] by metis
  then show ?thesis using assms by (simp add: update_split fields_ok_def)
next
  case False
  then show ?thesis using assms by (auto simp: update_new fields_ok_def)
qed

text \<open>The setter edits the text as the list of fields is updated.\<close>

lemma set_raw_text_object:
  assumes "fields_ok fs" and "key_ok k"
  shows "set_raw_text (object_text fs) k (length k) v (length v) = object_text (AList.update k v fs)"
proof (cases "k \<in> set (map fst fs)")
  case True
  then obtain xs w ys where fs: "fs = xs @ (k, w) # ys" and k: "k \<notin> set (map fst xs)"
    using split_fields [OF assms(1)] by metis
  let ?n = "length (text_before xs k)"
  have len: "json_value w" using fields_ok_split assms(1) fs by blast
  have at: "object_text fs ! (the (fst (value_span ?n w)) - 1) = 34 \<longleftrightarrow> hd w = 34"
    using object_value_at assms(1) unfolding fs by blast
  have "js0n (Some k) (length k) (object_text fs) = value_span ?n w"
    using js0n_object_Some [of xs k w ys "length k"] assms(1) unfolding fs by simp
  moreover have "take ?n (object_text fs) = text_before xs k"
    "drop (?n + length w) (object_text fs) = text_after ys"
    by (simp_all add: fs object_text_split)
  moreover have "Suc (Suc (?n + length w - 2)) = ?n + length w" if "hd w = 34"
    using json_value_length [OF len] that by linarith
  ultimately have "set_raw_text (object_text fs) k (length k) v (length v) =
      text_before xs k @ v @ text_after ys"
    using at json_value_length [OF len]
    by (cases "hd w = 34") (simp_all add: set_raw_text_def value_span_def)
  then show ?thesis by (simp add: fs update_split [OF k] object_text_split)
next
  case False
  have none: "js0n (Some k) (length k) (object_text fs) = (None, 0)"
    using js0n_object_None [OF assms(1), of k "length k"] False assms(2) by (simp add: key_ok_def)
  have upd: "AList.update k v fs = fs @ [(k, v)]" using False by (rule update_new)
  show ?thesis
  proof (cases fs)
    case Nil
    then show ?thesis
      using none upd by (simp add: set_raw_text_def object_text_def field_text_def key_text_def)
  next
    case (Cons f gs)
    then show ?thesis
      using none upd length_object_text [OF assms(1)]
      by (simp add: set_raw_text_def) (simp add: object_text_def field_text_def key_text_def)
  qed
qed

lemma lob_head_empty:
  assumes "lob_ok p" and "head_len p < 2"
  obtains q where "lob_head p (Some [123, 125]) 2 = Inr q" and "lob_ok q" and "head_len q = 2"
    and "head q = [123, 125]" and "body_len q = body_len p" and "body q = body p"
  using lob_head_result [of p 2 "Some [123, 125]"] assms by auto

lemma lob_set_raw_result:
  assumes "json_is p fs" and "key_ok k" and "json_value v"
    and "klen = 0 \<or> klen = length k" and "vlen = 0 \<or> vlen = length v"
  defines "new \<equiv> object_text (AList.update k v fs)"
  shows "if 0 < body_len p \<and> length new < head_len p then lob_set_raw p k klen v vlen = Inl OverRead
    else \<exists>q. lob_set_raw p k klen v vlen = Inr q \<and> json_is q (AList.update k v fs) \<and>
      head q = new \<and> body_len q = body_len p \<and> body q = body p"
proof -
  have ok: "lob_ok p" "fields_ok fs" using assms(1) by (simp_all add: json_is_def)
  have lens: "(if klen = 0 then length k else klen) = length k" "(if vlen = 0 then length v else vlen) = length v"
    using assms(4,5) by auto
  have upd: "fields_ok (AList.update k v fs)" by (rule fields_ok_update) fact+
  have main: "if 0 < body_len r \<and> length new < head_len r then lob_head r (Some new) (length new) = Inl OverRead
    else \<exists>q. lob_head r (Some new) (length new) = Inr q \<and> json_is q (AList.update k v fs) \<and>
      head q = new \<and> body_len q = body_len r \<and> body q = body r" if "lob_ok r" for r
    using lob_head_overread [of r "Some new" "length new"] lob_head_result [OF that, of "length new" "Some new"] upd
    by (auto simp: json_is_def new_def)
  show ?thesis
  proof (cases "head_len p < 2")
    case True
    then have fs: "fs = []"
      using assms(1) object_text_brace(2) [of fs] lob_raw_parts(2) [of p] by (auto simp: json_is_def)
    obtain r where r: "lob_head p (Some [123, 125]) 2 = Inr r" "lob_ok r" "head_len r = 2"
      "head r = [123, 125]" "body_len r = body_len p" "body r = body p"
      using lob_head_empty [OF ok(1) True] .
    have "[123, 125] = object_text fs" by (simp add: fs object_text_def)
    then have "lob_set_raw p k klen v vlen = lob_head r (Some new) (length new)"
      using set_raw_text_object [OF ok(2) assms(2), of v] True r lens
      by (simp add: lob_set_raw_def Let_def new_def)
    moreover have "2 \<le> length new" by (simp add: new_def object_text_def)
    ultimately show ?thesis using main [OF r(2)] r True by simp
  next
    case False
    then have "head p = object_text fs" using assms(1) by (simp add: json_is_def)
    then have "lob_set_raw p k klen v vlen = lob_head p (Some new) (length new)"
      using set_raw_text_object [OF ok(2) assms(2), of v] False lens
      by (simp add: lob_set_raw_def Let_def new_def)
    then show ?thesis using main [OF ok(1)] by simp
  qed
qed

section \<open>Reading the fields back\<close>

text \<open>What the scanner finds in the head, for any key.\<close>

lemma json_is_head:
  assumes "json_is p fs" and "fs \<noteq> []"
  shows "head p = object_text fs" and "5 \<le> head_len p" and "fields_ok fs"
  using assms length_object_text [of fs] lob_raw_parts(2) [of p] by (auto simp: json_is_def)

lemma json_none:
  assumes "json_is p fs" and "key \<noteq> []" and "key \<notin> set (map fst fs)"
  shows "lob_value p key = None" and "lob_get p key = None"
proof -
  have "head_len p < 5 \<or> fst (js0n (Some key) 0 (head p)) = None"
  proof (cases "fs = []")
    case True
    then show ?thesis
      using assms lob_raw_parts(2) [of p] by (auto simp: json_is_def object_text_def)
  next
    case False
    then show ?thesis
      using js0n_object_None [of fs key 0] json_is_head [OF assms(1)] assms(2,3) by simp
  qed
  then show "lob_value p key = None" "lob_get p key = None"
    by (cases "js0n (Some key) 0 (head p)"; auto simp: lob_value_def lob_get_raw_def lob_get_def)+
qed

lemma json_some:
  assumes "json_is p fs" and "map_of fs key = Some w"
  shows "lob_value p key = Some w"
    and "lob_get p key =
      (let t = (if hd w = 34 then butlast (tl w) else w) in if t = [] then None else Some (unescape t))"
    and "key_ok key" and "json_value w"
    and "\<exists>v. js0n (Some key) 0 (head p) = (Some v, length (if hd w = 34 then butlast (tl w) else w)) \<and>
      take (length (if hd w = 34 then butlast (tl w) else w)) (drop v (head p)) =
        (if hd w = 34 then butlast (tl w) else w)"
    and "lob_get_len p key = length w"
proof -
  have "key \<in> set (map fst fs)" using assms(2) by (metis domI dom_map_of_conv_image_fst list.set_map)
  moreover have ok: "fields_ok fs" using assms(1) by (simp add: json_is_def)
  ultimately obtain xs ys where fs: "fs = xs @ (key, w) # ys"
    using split_fields assms(2) by (metis option.inject)
  let ?n = "length (text_before xs key)"
  note hp = json_is_head [OF assms(1)]
  have head: "head p = text_before xs key @ w @ text_after ys" "5 \<le> head_len p"
    using hp by (simp_all add: fs object_text_split)
  have span: "js0n (Some key) 0 (head p) = value_span ?n w"
    using js0n_object_Some [of xs key w ys 0] ok hp(1) by (simp add: fs)
  have at: "head p ! (the (fst (value_span ?n w)) - 1) = 34 \<longleftrightarrow> hd w = 34"
    using object_value_at [of xs key w ys] ok hp(1) by (simp add: fs)
  show w: "key_ok key" "json_value w" using fields_ok_split ok fs by blast+
  note jv = json_value_text [OF w(2)]
  show "lob_value p key = Some w"
    using at head span jv json_value_length [OF w(2)]
    by (cases "hd w = 34") (simp_all add: lob_value_def lob_get_raw_def lob_get_len_def value_span_def)
  show "lob_get_len p key = length w"
    using at head span jv json_value_length [OF w(2)]
    by (cases "hd w = 34") (simp_all add: lob_get_len_def value_span_def)
  show "\<exists>v. js0n (Some key) 0 (head p) = (Some v, length (if hd w = 34 then butlast (tl w) else w)) \<and>
      take (length (if hd w = 34 then butlast (tl w) else w)) (drop v (head p)) =
        (if hd w = 34 then butlast (tl w) else w)"
    using head span jv by (cases "hd w = 34") (auto simp: value_span_def)
  show "lob_get p key =
      (let t = (if hd w = 34 then butlast (tl w) else w) in if t = [] then None else Some (unescape t))"
  proof (cases "hd w = 34")
    case True
    then obtain b where "w = 34 # b @ [34]" using jv by blast
    then show ?thesis using head span by (simp add: lob_get_def value_span_def)
  next
    case False
    then show ?thesis using head span jv by (simp add: lob_get_def value_span_def)
  qed
qed

text \<open>Writing one field, with no body in the way.\<close>

definition lob_put :: "lob \<Rightarrow> bytes \<times> bytes \<Rightarrow> lob" where
  "lob_put p f = (case lob_set_raw p (fst f) 0 (snd f) 0 of Inr q \<Rightarrow> q | Inl _ \<Rightarrow> p)"

definition json_packet :: "lob \<Rightarrow> bool" where
  "json_packet p \<longleftrightarrow> body_len p = 0 \<and> (\<exists>fs. json_is p fs)"

definition field_map :: "lob \<Rightarrow> bytes \<Rightarrow> bytes option" where
  "field_map p k = (if k = [] then None else lob_value p k)"

lemma field_map_of:
  assumes "json_is p fs"
  shows "field_map p = map_of fs"
proof
  fix k
  have "[] \<notin> set (map fst fs)"
    using assms by (auto simp: json_is_def fields_ok_def key_ok_def list_all_iff)
  then have empty: "map_of fs [] = None" by (simp add: map_of_eq_None_iff)
  show "field_map p k = map_of fs k"
  proof (cases "map_of fs k")
    case None
    then have "k \<notin> set (map fst fs)" by (simp add: map_of_eq_None_iff)
    then show ?thesis using None json_none(1) [OF assms, of k] by (simp add: field_map_def)
  next
    case (Some w)
    then show ?thesis using empty json_some(1) [OF assms Some] by (auto simp: field_map_def)
  qed
qed

interpretation jf: refines_calls lob_put "\<lambda>m f. m(fst f \<mapsto> snd f)" "\<lambda>f. key_ok (fst f) \<and> json_value (snd f)"
  json_packet field_map
proof unfold_locales
  fix p :: lob and f :: "bytes \<times> bytes"
  assume "json_packet p" and f: "key_ok (fst f) \<and> json_value (snd f)"
  then obtain fs where p: "body_len p = 0" "json_is p fs" by (auto simp: json_packet_def)
  obtain q where "lob_put p f = q" "json_is q (AList.update (fst f) (snd f) fs)" "body_len q = 0"
    using lob_set_raw_result [OF p(2), of "fst f" "snd f" 0 0] f p(1) by (auto simp: lob_put_def)
  then show "json_packet (lob_put p f)" "field_map (lob_put p f) = (field_map p)(fst f \<mapsto> snd f)"
    using field_map_of p by (auto simp: json_packet_def update_conv')
qed

lemma json_packet_new: "json_packet lob_new" "field_map lob_new = Map.empty"
proof -
  have "json_is lob_new []" by (simp add: json_is_def fields_ok_def) (simp add: lob_new_def)
  then show "json_packet lob_new" "field_map lob_new = Map.empty"
    using field_map_of by (auto simp: json_packet_def lob_new_def)
qed

text \<open>The other side parses such a packet.\<close>

lemma json_packet_encodable:
  assumes "json_is p fs" and "head_len p < 65536"
  shows "encodable p"
proof -
  have ok: "lob_ok p" "fields_ok fs" using assms(1) by (simp_all add: json_is_def)
  have no: "[0] \<notin> set (map fst fs)"
  proof
    assume "[0] \<in> set (map fst fs)"
    then have "key_ok [0]" using ok(2) by (auto simp: fields_ok_def list_all_iff)
    then show False by (simp add: key_ok_def str_char_def)
  qed
  have "json_ok (head p)"
  proof (cases "head_len p < 2")
    case True
    then show ?thesis using lob_raw_parts(2) [OF ok(1)] by (simp add: json_ok_def)
  next
    case False
    then have "head p = object_text fs" using assms(1) by (simp add: json_is_def)
    then show ?thesis using js0n_object_None [OF ok(2) _ _ no, of 1] by (simp add: json_ok_def)
  qed
  then show ?thesis using ok(1) assms(2) by (simp add: encodable_def)
qed

text \<open>
  C12. The head of a packet is a map from keys to values: after any number of fields written one
  after the other into a new packet, each a proper key with the text of a JSON value (a string, a
  bare word, an object or an array, nested as deep as one likes), reading a key gives the text
  written last for it, or nothing for a key never written; and as long as the head fits the two
  length bytes, the packet can be sent: parsing its bytes gives it back.
\<close>

theorem lob_json_map:
  assumes "list_all (\<lambda>f. key_ok (fst f) \<and> json_value (snd f)) fs"
    and "p = foldl lob_put lob_new fs" and "key \<noteq> []"
  shows "lob_value p key = map_of (rev fs) key \<and>
    (65536 \<le> head_len p \<or> lob_parse (lob_raw (Some p)) = Some p)"
proof -
  have m: "foldl (\<lambda>m f. m(fst f \<mapsto> snd f)) m fs = m ++ map_of (rev fs)" for m :: "bytes \<Rightarrow> bytes option"
    by (induction fs arbitrary: m) (simp_all add: map_add_upd_left map_add_assoc [symmetric])
  have "field_map p = map_of (rev fs)"
    using jf.calls_abs [OF json_packet_new(1) assms(1)] by (simp add: assms(2) m json_packet_new(2))
  then have "lob_value p key = map_of (rev fs) key" using assms(3) by (metis field_map_def)
  moreover have "json_packet p" using jf.calls_inv [OF json_packet_new(1) assms(1)] by (simp add: assms(2))
  then have "65536 \<le> head_len p \<or> lob_parse (lob_raw (Some p)) = Some p"
    using json_packet_encodable lob_direct_raw [of p]
    by (fastforce simp: json_packet_def lob_raw_def lob_parse_direct not_le [symmetric])
  ultimately show ?thesis by blast
qed

text \<open>
  A number, an object and a string, the number overwritten: \<open>{"a":{"c":1},"b":"x"}\<close>.
\<close>

definition demo_fields :: "(bytes \<times> bytes) list" where
  "demo_fields = [([97], [49, 50]), ([98], [34, 120, 34]), ([97], [123, 34, 99, 34, 58, 49, 125])]"

lemma demo_fields_ok: "list_all (\<lambda>f. key_ok (fst f) \<and> json_value (snd f)) demo_fields"
proof -
  have "json_value [49, 50]" by (rule value_bare) (simp add: bare_word_def bare_start_def bare_char_def)
  moreover have "json_value (34 # [120] @ [34])" by (rule value_str) (simp add: str_char_def)
  moreover have "json_items (34 # [99] @ 34 # [58])"
    by (intro items_str items_sep items_Nil) (simp_all add: str_char_def sep_byte_def)
  then have "json_value (123 # (34 # [99] @ 34 # [58]) @ [49] @ [125])"
    by (intro value_nest) (simp_all add: open_byte_def close_byte_def bare_word_def bare_start_def)
  ultimately show ?thesis by (simp add: demo_fields_def key_ok_def str_char_def)
qed

theorem lob_json_map_witness:
  "lob_value (foldl lob_put lob_new demo_fields) [97] = Some [123, 34, 99, 34, 58, 49, 125] \<and>
   lob_value (foldl lob_put lob_new demo_fields) [98] = Some [34, 120, 34] \<and>
   lob_value (foldl lob_put lob_new demo_fields) [99] = None"
  using lob_json_map [OF demo_fields_ok refl, of "[97]"] lob_json_map [OF demo_fields_ok refl, of "[98]"]
    lob_json_map [OF demo_fields_ok refl, of "[99]"]
  by (simp add: demo_fields_def del: foldl_Cons foldl.simps)

section \<open>Strings\<close>

text \<open>Setting in a packet without a body always succeeds.\<close>

text \<open>A field that is new makes the text longer, so a body does no harm.\<close>

lemma object_text_grows:
  assumes "k \<notin> set (map fst fs)"
  shows "length (object_text fs) \<le> length (object_text (AList.update k v fs))"
  using assms by (subst update_new) (auto simp: object_text_def split: list.split)

lemma set_raw_new:
  assumes "json_is p fs" and "k \<notin> set (map fst fs)" and "key_ok k" and "json_value v"
    and "klen = 0 \<or> klen = length k" and "vlen = 0 \<or> vlen = length v"
  obtains q where "lob_set_raw p k klen v vlen = Inr q" and "json_is q (AList.update k v fs)"
    and "body_len q = body_len p" and "body q = body p"
proof -
  have "\<not> length (object_text (AList.update k v fs)) < head_len p"
    using object_text_grows [OF assms(2), of v] lob_raw_parts(2) [of p] assms(1)
    by (auto simp: json_is_def object_text_def)
  then show thesis using lob_set_raw_result [OF assms(1,3-6)] that by auto
qed

lemma set_raw_no_body:
  assumes "json_is p fs" and "body_len p = 0" and "key_ok k" and "json_value v"
    and "klen = 0 \<or> klen = length k" and "vlen = 0 \<or> vlen = length v"
  obtains q where "lob_set_raw p k klen v vlen = Inr q" and "json_is q (AList.update k v fs)"
    and "body_len q = 0"
  using lob_set_raw_result [OF assms(1,3-6)] assms(2) by auto

lemma json_is_update:
  assumes "json_is q (AList.update k v fs)" and "json_value v"
  shows "lob_value q k = Some v"
    and "lob_get q k = (let t = (if hd v = 34 then butlast (tl v) else v) in if t = [] then None else Some (unescape t))"
  using json_some(1,2) [OF assms(1), of k v] by (simp_all add: update_conv')

lemma json_is_update_other:
  assumes "json_is p fs" and "json_is q (AList.update k v fs)" and "k' \<noteq> k" and "k' \<noteq> []"
  shows "lob_get q k' = lob_get p k'"
proof (cases "map_of fs k'")
  case None
  then have "k' \<notin> set (map fst fs)" by (simp add: map_of_eq_None_iff)
  moreover from this have "k' \<notin> set (map fst (AList.update k v fs))" using assms(3) by (simp add: dom_update)
  ultimately show ?thesis using json_none(2) assms by metis
next
  case (Some w)
  then have "map_of (AList.update k v fs) k' = Some w" using assms(3) by (simp add: update_conv')
  from json_some(2) [OF assms(2) this] json_some(2) [OF assms(1) Some] show ?thesis by simp
qed

text \<open>A string the setter can take: printable ASCII.\<close>

definition printable :: "bytes \<Rightarrow> bool" where
  "printable s \<longleftrightarrow> list_all (\<lambda>c. 32 \<le> c \<and> c \<le> 126) s"

lemma goesc_quoted: "c = 34 \<or> c = 92 \<Longrightarrow> goesc c = LUnesc"
  by (auto simp: goesc_def)

lemma str_body_escape: "printable s \<Longrightarrow> str_body (lob_escape s)"
proof (induction s)
  case (Cons c s)
  have "\<not> 192 \<le> c" "\<not> 224 \<le> c" "\<not> 240 \<le> c"
    using Cons.prems by (auto simp: printable_def word_le_nat_alt)
  then show ?case
    using Cons by (auto simp: printable_def lob_escape_def goesc_quoted str_char_def)
qed (simp add: lob_escape_def)

lemma unescape_Cons: "c \<noteq> 92 \<Longrightarrow> unescape (c # s) = c # unescape s"
  by (cases s) simp_all

lemma escape_Cons: "lob_escape (c # s) = (if c = 34 \<or> c = 92 then [92, c] else [c]) @ lob_escape s"
  by (simp add: lob_escape_def)

lemma unescape_escape: "92 \<notin> set s \<Longrightarrow> unescape (lob_escape s) = s"
proof (induction s)
  case (Cons c s)
  then show ?case by (cases "c = 34") (auto simp: escape_Cons unescape_Cons)
qed (simp add: lob_escape_def)

text \<open>
  With a backslash in it the string does not come back: the backslash stays doubled, or its
  second half is read as the start of another escape.
\<close>

lemma length_unescape_escape:
  "length s \<le> length (unescape (lob_escape s)) \<and> length s \<le> length (unescape (92 # lob_escape s))"
proof (induction s)
  case (Cons c s)
  consider "c = 92" | "c = 34" | "c = 110" | "c \<noteq> 92" "c \<noteq> 34" "c \<noteq> 110" by blast
  then show ?case
    by cases (use Cons in \<open>simp_all add: escape_Cons unescape_Cons\<close>)
qed (simp add: lob_escape_def)

lemma unescape_split: "92 \<notin> set a \<Longrightarrow> unescape (lob_escape (a @ s)) = a @ unescape (lob_escape s)"
proof (induction a)
  case (Cons c a)
  then show ?case by (cases "c = 34") (auto simp: escape_Cons unescape_Cons)
qed simp

lemma unescape_backslash: "unescape (lob_escape (92 # s)) \<noteq> 92 # s"
proof -
  have "unescape (92 # lob_escape s) \<noteq> s"
  proof (cases s)
    case (Cons c t)
    consider "c = 92" | "c = 34" | "c = 110" | "c \<noteq> 92" "c \<noteq> 34" "c \<noteq> 110" by blast
    then show ?thesis
    proof cases
      case 1
      then have "length s < length (unescape (92 # lob_escape s))"
        using length_unescape_escape [of t] by (simp add: Cons escape_Cons)
      then show ?thesis by auto
    qed (simp_all add: Cons escape_Cons)
  qed (simp add: lob_escape_def)
  then show ?thesis by (simp add: escape_Cons)
qed

lemma unescape_escape_iff: "unescape (lob_escape s) = s \<longleftrightarrow> 92 \<notin> set s"
proof
  assume eq: "unescape (lob_escape s) = s"
  show "92 \<notin> set s"
  proof
    assume "92 \<in> set s"
    then obtain a b where "s = a @ 92 # b" "92 \<notin> set a" by (meson split_list_first)
    then show False using eq unescape_split unescape_backslash by (metis same_append_eq)
  qed
qed (rule unescape_escape)

lemma escape_Nil: "lob_escape s = [] \<longleftrightarrow> s = []"
  by (cases s) (auto simp: lob_escape_def)

text \<open>Setting a string keeps the values of the other keys.\<close>

lemma lob_set_others:
  assumes "json_is p fs" and "body_len p = 0" and "key_ok k" and "printable s"
  shows "\<exists>q. lob_set p k s = Inr q \<and> json_is q (AList.update k (34 # lob_escape s @ [34]) fs) \<and>
    (\<forall>k'. k' = k \<or> k' = [] \<or> lob_get q k' = lob_get p k')"
proof -
  let ?v = "34 # lob_escape s @ [34]"
  have v: "json_value ?v" using str_body_escape [OF assms(4)] by (rule value_str)
  obtain q where q: "lob_set_raw p k 0 ?v (length ?v) = Inr q" "json_is q (AList.update k ?v fs)"
    using set_raw_no_body [OF assms(1-3) v, of 0 "length ?v"] by auto
  have "lob_set p k s = Inr q" using q(1) by (simp add: lob_set_def lob_set_len_def Let_def)
  then show ?thesis using q(2) json_is_update_other [OF assms(1) q(2)] by blast
qed


text \<open>A plain string, an empty one, and a backslash before an n.\<close>

lemma json_is_new: "json_is lob_new []"
  by (simp add: json_is_def fields_ok_def) (simp add: lob_new_def)


section \<open>Numbers and binary values\<close>

declare dec_digits.simps [simp del]

definition digit_byte :: "u8 \<Rightarrow> bool" where
  "digit_byte c \<longleftrightarrow> 48 \<le> c \<and> c \<le> 57"

lemma unat_digit: "d < 10 \<Longrightarrow> unat (of_nat (48 + d) :: u8) = 48 + d"
  by (simp add: unsigned_of_nat take_bit_nat_eq_self del: of_nat_add)

lemma digit_of_nat: "d < 10 \<Longrightarrow> digit_byte (of_nat (48 + d))"
  by (simp only: digit_byte_def word_le_nat_alt unat_digit) simp

lemma dec_digits_digits: "list_all digit_byte (dec_digits n)"
proof (induction n rule: dec_digits.induct)
  case (1 n)
  then show ?case
    using digit_of_nat [of n] digit_of_nat [of "n mod 10"] by (subst dec_digits.simps) auto
qed

lemma read_digits_append:
  "list_all digit_byte xs \<Longrightarrow> read_digits n (xs @ ys) = read_digits (read_digits n xs) ys"
  by (induction xs arbitrary: n) (simp_all add: digit_byte_def)

lemma read_digit: "d < 10 \<Longrightarrow> read_digits n [of_nat (48 + d)] = 10 * n + d"
  using digit_of_nat [of d] unat_digit [of d] by (simp add: digit_byte_def del: of_nat_add)

lemma read_dec_digits: "read_digits 0 (dec_digits n) = n"
proof (induction n rule: dec_digits.induct)
  case (1 n)
  show ?case
  proof (cases "n < 10")
    case True
    then show ?thesis using read_digit [of n 0] by (subst dec_digits.simps) simp
  next
    case False
    then show ?thesis
      using 1 read_digit [of "n mod 10" "n div 10"]
      by (subst dec_digits.simps) (simp add: read_digits_append dec_digits_digits)
  qed
qed

lemma dec_digits_Nil: "dec_digits n \<noteq> []"
  by (subst dec_digits.simps) simp

lemma digit_byte_props:
  assumes "digit_byte c"
  shows "bare_start c" and "bare_char c" and "\<not> c_space c" and "c \<noteq> 92" and "c \<noteq> 34" and "c \<noteq> 45" and "c \<noteq> 43"
  using assms
  by (auto simp: digit_byte_def bare_start_def bare_char_def c_space_def word_le_nat_alt)

lemma bare_digits: "bare_word (dec_digits n)" "bare_word (45 # dec_digits n)"
proof -
  obtain c cs where n: "dec_digits n = c # cs" using dec_digits_Nil by (metis neq_Nil_conv)
  have "list_all bare_char (dec_digits n)" "digit_byte c"
    using dec_digits_digits [of n] digit_byte_props by (auto simp: n list_all_iff)
  then show "bare_word (dec_digits n)" "bare_word (45 # dec_digits n)"
    using digit_byte_props(1) by (auto simp: bare_word_def n bare_start_def)
qed

lemma unescape_plain: "92 \<notin> set s \<Longrightarrow> unescape s = s"
  by (induction s) (auto simp: unescape_Cons)

lemma dec_digits_plain: "92 \<notin> set (dec_digits n)" "hd (dec_digits n) \<noteq> 34"
proof -
  have "\<forall>c \<in> set (dec_digits n). c \<noteq> 92 \<and> c \<noteq> 34"
    using dec_digits_digits [of n] digit_byte_props(4,5) by (auto simp: list_all_iff)
  then show "92 \<notin> set (dec_digits n)" "hd (dec_digits n) \<noteq> 34"
    using hd_in_set [OF dec_digits_Nil] by blast+
qed

lemma strto_digits: "strto_parts (dec_digits n) = (False, n)" "strto_parts (45 # dec_digits n) = (True, n)"
proof -
  obtain c cs where n: "dec_digits n = c # cs" using dec_digits_Nil by (metis neq_Nil_conv)
  have "digit_byte c" using dec_digits_digits [of n] by (simp add: n)
  note c = digit_byte_props [OF this]
  show "strto_parts (dec_digits n) = (False, n)"
    using c read_dec_digits [of n] by (simp add: strto_parts_def n)
  show "strto_parts (45 # dec_digits n) = (True, n)"
    using read_dec_digits [of n] by (simp add: strto_parts_def c_space_def)
qed

text \<open>Setting a bare word and reading it.\<close>

lemma set_bare_get:
  assumes "json_is p fs" and "body_len p = 0 \<or> k \<notin> set (map fst fs)" and "key_ok k" and "bare_word b" and "92 \<notin> set b" and "hd b \<noteq> 34"
  shows "\<exists>q. lob_set_raw p k 0 b 0 = Inr q \<and> json_is q (AList.update k b fs) \<and> lob_get q k = Some b"
proof -
  have v: "json_value b" using assms(4) by (rule value_bare)
  obtain q where q: "lob_set_raw p k 0 b 0 = Inr q" "json_is q (AList.update k b fs)"
    using set_raw_no_body [OF assms(1) _ assms(3) v, of 0 0] set_raw_new [OF assms(1) _ assms(3) v, of 0 0]
      assms(2) by (metis (no_types))
  then show ?thesis
    using json_is_update(2) [OF q(2) v] json_value_text [OF v] assms(5,6) by (simp add: unescape_plain)
qed

lemma set_uint_get:
  assumes "json_is p fs" and "body_len p = 0 \<or> k \<notin> set (map fst fs)" and "key_ok k"
  shows "\<exists>q. lob_set_uint p k n = Inr q \<and> lob_ok q \<and> lob_get_uint q k = n"
proof -
  have n: "unat n < 2 ^ 32" using unsigned_less [of n, where ?'a = nat] by simp
  obtain q where "lob_set_uint p k n = Inr q" "lob_ok q" "lob_get q k = Some (dec_digits (unat n))"
    using set_bare_get [OF assms bare_digits(1) dec_digits_plain] unfolding lob_set_uint_def json_is_def by blast
  moreover have "ucast (ucast n :: 64 word) = n"
    by (rule bit_word_eqI) (simp add: bit_simps)
  ultimately show ?thesis
    using n by (auto simp: lob_get_uint_def strtoul10_def strto_digits)
qed

text \<open>
  Numbers come back: every unsigned and every signed number of 32 bits written into the head
  reads back as itself.
\<close>

theorem lob_numbers:
  assumes "json_is p fs" and "body_len p = 0" and "key_ok k"
  shows "(\<exists>q. lob_set_uint p k n = Inr q \<and> lob_get_uint q k = n) \<and>
    (\<exists>q. lob_set_int p k n = Inr q \<and> lob_get_int q k = n)"
proof
  show "\<exists>q. lob_set_uint p k n = Inr q \<and> lob_get_uint q k = n"
    using set_uint_get [OF assms(1) _ assms(3)] assms(2) by blast
next
  have range: "- (2 ^ 31) \<le> sint n" "sint n < 2 ^ 31"
    using sint_range_size [of n] by (simp_all add: word_size)
  let ?b = "if sint n < 0 then 45 # dec_digits (nat (- sint n)) else dec_digits (nat (sint n))"
  have "bare_word ?b" "92 \<notin> set ?b" "hd ?b \<noteq> 34"
    using bare_digits dec_digits_plain by auto
  then obtain q where q: "lob_set_int p k n = Inr q" "lob_get q k = Some ?b"
    using set_bare_get [OF assms(1) _ assms(3)] assms(2) unfolding lob_set_int_def by blast
  have "strtol10 ?b = sint n"
    using range by (auto simp: strtol10_def strto_digits)
  then show "\<exists>q. lob_set_int p k n = Inr q \<and> lob_get_int q k = n"
    using q by (auto simp: lob_get_int_def)
qed

theorem lob_numbers_witness:
  "\<exists>q. lob_set_int lob_new [97] (- 7) = Inr q \<and> lob_get_int q [97] = - 7"
proof -
  have "body_len lob_new = 0" "key_ok [97]" by (simp_all add: lob_new_def key_ok_def str_char_def)
  from lob_numbers [OF json_is_new this, THEN conjunct2] show ?thesis .
qed

text \<open>The text of binary data needs no escapes.\<close>

lemma str_body_chars: "list_all str_char s \<Longrightarrow> str_body s"
proof (induction s)
  case (Cons c s)
  have "\<not> 192 \<le> c" "\<not> 224 \<le> c" "\<not> 240 \<le> c" "c \<noteq> 92"
    using Cons.prems by (auto simp: str_char_def word_le_nat_alt)
  then show ?case using Cons by simp
qed simp

lemma str_char_b32: "list_all str_char (b32_text bin)"
proof -
  have all: "list_all str_char alphabet" by (simp add: alphabet_eval str_char_def)
  have "unat (word_of_bits q :: u32) < 32" if "length q = 5" for q
  proof -
    have "(word_of_bits q :: u32) = take_bit 5 (word_of_bits q)"
      by (rule bit_word_eqI) (auto simp: bit_word_of_bits bit_simps that)
    then have "unat (word_of_bits q :: u32) = take_bit 5 (unat (word_of_bits q :: u32))"
      by (metis unsigned_take_bit_eq)
    then show ?thesis using take_bit_nat_less_exp [of 5 "unat (word_of_bits q :: u32)"] by simp
  qed
  then have "str_char (b32_letter q)" if "q \<in> set (quintets (byte_bits bin))" for q
    using that all by (simp add: b32_letter_def length_quintet list_all_length)
  then show ?thesis by (auto simp: b32_text_def list_all_iff)
qed

lemma base32_floor_encode: "base32_decode_floor (base32_encode_length n - Suc 0) = n"
proof -
  let ?m = "8 * n + 4"
  have "?m div 5 = n * 8 div 5 + (if n mod 5 \<noteq> 0 then 1 else 0)" by presburger
  then have "base32_encode_length n - Suc 0 = ?m div 5" by (simp add: base32_encode_length_def)
  moreover have "?m div 5 * 5 = ?m - ?m mod 5" by (simp add: minus_mod_eq_div_mult)
  moreover have "?m mod 5 < 5" by simp
  ultimately show ?thesis by (simp add: base32_decode_floor_def div_nat_eqI)
qed

text \<open>
  Binary data come back: any bytes written into the head in base32 are the body of the packet
  that reading the key makes.
\<close>

theorem lob_base32_field:
  assumes "json_is p fs" and "body_len p = 0" and "key_ok k" and "bin \<noteq> []"
  shows "\<exists>q r. lob_set_base32 p k bin = Inr q \<and> lob_get_base32 q k = Some r \<and> lob_ok r \<and> body r = bin"
proof -
  let ?t = "b32_text bin" and ?n = "length bin"
  let ?v = "34 # ?t @ [34]"
  have v: "json_value ?v" by (intro value_str str_body_chars str_char_b32)
  have len: "length ?t = base32_encode_length ?n - 1" by (rule length_b32_text)
  obtain q where q: "lob_set_raw p k 0 ?v (length ?v) = Inr q" "json_is q (AList.update k ?v fs)"
    using set_raw_no_body [OF assms(1-3) v, of 0 "length ?v"] by auto
  have "lob_set_base32 p k bin = Inr q"
    using q(1) assms(4) len by (simp add: lob_set_base32_def base32_encode_text Let_def)
  moreover obtain o1 where "js0n (Some k) 0 (head q) = (Some o1, length ?t)"
    "take (length ?t) (drop o1 (head q)) = ?t"
    using json_some(5) [OF q(2), of k ?v] by (auto simp: update_conv')
  then have "lob_get_base32 q k = Some (lob_body lob_new (Some bin) ?n)"
    using len base32_decode_text [of bin ?n]
    by (simp add: lob_get_base32_def base32_floor_encode Let_def)
  ultimately show ?thesis using lob_body_result [OF lob_new_ok, of "Some bin" ?n] by auto
qed

theorem lob_base32_field_witness:
  "\<exists>q r. lob_set_base32 lob_new [107] [1, 2, 3] = Inr q \<and> lob_get_base32 q [107] = Some r \<and> lob_ok r \<and>
    body r = [1, 2, 3]"
  by (rule lob_base32_field [OF json_is_new]) (simp_all add: lob_new_def key_ok_def str_char_def)

end
