(* ===== verification/Chan.thy ===== *)
theory Chan
  imports LobJson JsMesh
begin

text \<open>
  The channels of \<open>src/chan.c\<close>: a queue of received packets, a timeout and a handler. A packet
  is a \<open>lob\<close> and the queue a list of them (\<open>lob_push\<close> puts at the end, \<open>lob_shift\<close> takes the
  first). A handler is a number, and what the application does in it is the parameter \<open>app\<close>, a
  function on the handler's channel. \<open>chan_free\<close> is the value \<open>None\<close> of \<open>chan_process\<close>.
\<close>

datatype chan_states = CHAN_ENDED | CHAN_OPENING | CHAN_OPEN

record chan =
  chan_cid :: u32
  chan_type :: bytes
  chan_in :: "lob list"
  chan_trecv :: u32
  chan_tmout :: u32
  chan_handler :: "nat option"
  chan_st :: chan_states

definition c_key :: bytes where "c_key = map of_char ''c''"
definition end_key :: bytes where "end_key = map of_char ''end''"
definition err_key :: bytes where "err_key = map of_char ''err''"
definition type_key :: bytes where "type_key = map of_char ''type''"

definition chan_new :: "lob option \<Rightarrow> chan option" where
  "chan_new op =
     (case op of
        None \<Rightarrow> None
      | Some p \<Rightarrow>
          let id = lob_get_int p c_key in
          if id = 0 then None
          else
            case lob_get p type_key of
              None \<Rightarrow> None
            | Some ty \<Rightarrow>
                Some \<lparr>chan_cid = id, chan_type = ty, chan_in = [], chan_trecv = 0, chan_tmout = 0,
                  chan_handler = None, chan_st = CHAN_OPENING\<rparr>)"

text \<open>The accessors take \<open>NULL\<close>.\<close>

definition chan_id :: "chan option \<Rightarrow> u32" where
  "chan_id c = (case c of None \<Rightarrow> 0 | Some c \<Rightarrow> chan_cid c)"

definition chan_state :: "chan option \<Rightarrow> chan_states" where
  "chan_state c = (case c of None \<Rightarrow> CHAN_ENDED | Some c \<Rightarrow> chan_st c)"

definition chan_timeout :: "chan \<Rightarrow> u32 \<Rightarrow> chan \<times> u32" where
  "chan_timeout c at =
     (if at = 0 then (c, chan_tmout c)
      else let c = c\<lparr>chan_tmout := at\<rparr> in (c, chan_tmout c))"

definition chan_handle :: "chan \<Rightarrow> nat option \<Rightarrow> chan" where
  "chan_handle c h = c\<lparr>chan_handler := h\<rparr>"

definition chan_receive :: "chan \<Rightarrow> lob \<Rightarrow> chan" where
  "chan_receive c inner = c\<lparr>chan_in := chan_in c @ [inner]\<rparr>"

definition chan_receiving :: "chan \<Rightarrow> lob option \<times> chan" where
  "chan_receiving c =
     (case chan_in c of
        [] \<Rightarrow> (None, c)
      | ret # rest \<Rightarrow>
          let c = c\<lparr>chan_in := rest\<rparr>;
              c = (if lob_get ret end_key \<noteq> None then c\<lparr>chan_st := CHAN_ENDED\<rparr> else c)
          in (Some ret, c))"

definition chan_oob :: "chan \<Rightarrow> c_fault + lob" where
  "chan_oob c = lob_set_uint lob_new c_key (chan_cid c)"

definition chan_packet :: "chan \<Rightarrow> c_fault + lob" where
  "chan_packet c = chan_oob c"

text \<open>The error packet, and its way into the queue.\<close>

definition and_then :: "c_fault + 'a \<Rightarrow> ('a \<Rightarrow> c_fault + 'b) \<Rightarrow> c_fault + 'b" where
  "and_then m f = (case m of Inl e \<Rightarrow> Inl e | Inr x \<Rightarrow> f x)"

definition chan_err_packet :: "u32 \<Rightarrow> bytes option \<Rightarrow> c_fault + lob" where
  "chan_err_packet i msg =
     (let msg = (case msg of None \<Rightarrow> map of_char ''unknown'' | Some m \<Rightarrow> m) in
      and_then (lob_set_uint lob_new c_key i) (\<lambda>e.
      and_then (lob_set_raw e end_key 3 (map of_char ''true'') 4) (\<lambda>e.
      lob_set e err_key msg)))"

definition chan_err :: "chan \<Rightarrow> bytes option \<Rightarrow> c_fault + chan" where
  "chan_err c msg =
     and_then (chan_err_packet (chan_cid c) msg) (\<lambda>e. Inr (c\<lparr>chan_in := chan_in c @ [e]\<rparr>))"

definition timeout_msg :: bytes where "timeout_msg = map of_char ''timeout''"

text \<open>The timeout checks of \<open>chan_process\<close>.\<close>

definition chan_clock :: "u32 \<Rightarrow> chan \<Rightarrow> c_fault + chan" where
  "chan_clock now c =
     (if now = 0 then Inr c
      else
        and_then
          (if chan_tmout c = 0 then Inr c
           else if now > chan_tmout c then chan_err (c\<lparr>chan_tmout := 0\<rparr>) (Some timeout_msg)
           else if chan_trecv c \<noteq> 0 then Inr (c\<lparr>chan_tmout := chan_tmout c + (now - chan_trecv c)\<rparr>)
           else Inr c)
          (\<lambda>c. Inr (c\<lparr>chan_trecv := now\<rparr>)))"

definition chan_process :: "(nat \<Rightarrow> chan \<Rightarrow> chan) \<Rightarrow> u32 \<Rightarrow> chan \<Rightarrow> c_fault + chan option" where
  "chan_process app now c =
     and_then (chan_clock now c) (\<lambda>c.
       let c = (case chan_handler c of
                  Some h \<Rightarrow> if chan_in c \<noteq> [] then app h c else c
                | None \<Rightarrow> c)
       in Inr (if chan_st c = CHAN_ENDED then None else Some c))"

definition chan_size :: "chan \<Rightarrow> nat" where
  "chan_size c = sum_list (map (\<lambda>p. lob_len (Some p)) (chan_in c))"

section \<open>The error packet\<close>

lemma and_then_simps [simp]: "and_then (Inl e) f = Inl e" "and_then (Inr x) f = f x"
  by (simp_all add: and_then_def)

lemma keys_ok: "key_ok c_key" "key_ok end_key" "key_ok err_key" "key_ok type_key"
  by (simp_all add: c_key_def end_key_def err_key_def type_key_def key_ok_def str_char_def)

lemma keys_neq: "end_key \<noteq> err_key" "c_key \<noteq> end_key" "c_key \<noteq> err_key"
  by (simp_all add: c_key_def end_key_def err_key_def)

lemma printable_msgs: "printable (map of_char ''unknown'')" "printable timeout_msg"
  by (simp_all add: printable_def timeout_msg_def)

lemma true_word: "bare_word (map of_char ''true'')"
  by (simp add: bare_word_def bare_start_def bare_char_def)

text \<open>Every channel id and every printable message give a packet that says the channel ended.\<close>

lemma chan_err_packet_ok:
  assumes "case msg of None \<Rightarrow> True | Some m \<Rightarrow> printable m"
  shows "\<exists>e. chan_err_packet i msg = Inr e \<and> lob_get e end_key = Some (map of_char ''true'')"
proof -
  let ?msg = "case msg of None \<Rightarrow> map of_char ''unknown'' | Some m \<Rightarrow> m"
  let ?true = "map of_char ''true'' :: bytes"
  have body: "body_len lob_new = 0" by (simp add: lob_new_def)
  have d: "json_value (dec_digits (unat i))" by (intro value_bare bare_digits)
  obtain p where p0: "lob_set_raw lob_new c_key 0 (dec_digits (unat i)) 0 = Inr p"
    "json_is p (AList.update c_key (dec_digits (unat i)) [])" "body_len p = 0"
    using set_raw_no_body [OF json_is_new body keys_ok(1) d, of 0 0] by auto
  define fs where "fs = AList.update c_key (dec_digits (unat i)) []"
  have p: "lob_set_uint lob_new c_key i = Inr p" "json_is p fs" "body_len p = 0"
    using p0 by (simp_all add: lob_set_uint_def fs_def)
  obtain q where q: "lob_set_raw p end_key 3 ?true 4 = Inr q" "json_is q (AList.update end_key ?true fs)"
    "body_len q = 0"
    using set_raw_no_body [OF p(2,3) keys_ok(2) value_bare [OF true_word], of 3 4] by (auto simp: end_key_def)
  have "lob_get q end_key = Some ?true"
    using json_is_update(2) [OF q(2) value_bare [OF true_word]] by (simp add: unescape_plain)
  moreover have "printable ?msg" using assms printable_msgs(1) by (cases msg) auto
  then obtain e where e: "lob_set q err_key ?msg = Inr e"
    "\<forall>k'. k' = err_key \<or> k' = [] \<or> lob_get e k' = lob_get q k'"
    using lob_set_others [OF q(2,3) keys_ok(3)] by blast
  have "lob_get e end_key = lob_get q end_key"
    using e(2) [rule_format, of end_key] keys_neq(1) keys_ok(2) by (simp add: key_ok_def)
  ultimately show ?thesis using p(1) q(1) e(1) by (simp add: chan_err_packet_def)
qed

section \<open>The queue\<close>

text \<open>A channel hands out its packets in the order they came in.\<close>

interpretation cq: fifo chan_receive chan_receiving chan_in
  by unfold_locales (auto simp: chan_receive_def chan_receiving_def Let_def)

text \<open>Taking a packet that says so ends the channel.\<close>

lemma receiving_Nil: "chan_in c = [] \<Longrightarrow> chan_receiving c = (None, c)"
  by (simp add: chan_receiving_def)

lemma receiving_Cons:
  assumes "chan_in c = p # ps"
  obtains c' where "chan_receiving c = (Some p, c')" and "chan_in c' = ps"
    and "chan_st c' = CHAN_ENDED \<longleftrightarrow> lob_get p end_key \<noteq> None \<or> chan_st c = CHAN_ENDED"
  using assms by (cases "lob_get p end_key") (auto simp: chan_receiving_def)

lemma drain_ended:
  "chan_st (snd (cq.drain n c)) = CHAN_ENDED \<longleftrightarrow>
     chan_st c = CHAN_ENDED \<or> list_ex (\<lambda>p. lob_get p end_key \<noteq> None) (take n (chan_in c))"
proof (induction n arbitrary: c)
  case (Suc n)
  show ?case
  proof (cases "chan_in c")
    case Nil
    then show ?thesis by (simp add: receiving_Nil)
  next
    case (Cons p ps)
    obtain c' where c': "chan_receiving c = (Some p, c')" "chan_in c' = ps"
      "chan_st c' = CHAN_ENDED \<longleftrightarrow> lob_get p end_key \<noteq> None \<or> chan_st c = CHAN_ENDED"
      using receiving_Cons [OF Cons] by blast
    have "snd (cq.drain (Suc n) c) = snd (cq.drain n c')"
      by (simp add: c'(1) case_prod_unfold Let_def)
    then show ?thesis using Suc.IH [of c'] c'(2,3) Cons by auto
  qed
qed simp

text \<open>
  A channel delivers what it is given in order and ends with the first packet that carries
  the key \<open>end\<close>: taking as many packets as were received gives exactly those behind the ones
  already queued, leaves the queue empty, and the channel is ended afterwards exactly if it was
  before or one of them had the key.
\<close>

theorem chan_in_order:
  assumes "n = length (chan_in c) + length ps"
  shows "fst (cq.drain n (foldl chan_receive c ps)) = chan_in c @ ps \<and>
    chan_in (snd (cq.drain n (foldl chan_receive c ps))) = [] \<and>
    (chan_st (snd (cq.drain n (foldl chan_receive c ps))) = CHAN_ENDED) =
      (chan_st c = CHAN_ENDED \<or> list_ex (\<lambda>p. lob_get p end_key \<noteq> None) (chan_in c @ ps))"
proof -
  have "chan_st (foldl chan_receive c ps) = chan_st c"
    by (induction ps arbitrary: c) (simp_all add: chan_receive_def)
  then show ?thesis
    using cq.drain_items [of n "foldl chan_receive c ps"] drain_ended [of n "foldl chan_receive c ps"] assms
    by (simp add: cq.items_enqs)
qed

text \<open>A packet \<open>{"c":1}\<close> and one that ends the channel.\<close>

definition demo_chan_packets :: "lob list" where
  "demo_chan_packets = [lob_put lob_new (c_key, [49]), lob_put lob_new (end_key, map of_char ''true'')]"

definition demo_c_chan :: chan where
  "demo_c_chan = \<lparr>chan_cid = 1, chan_type = [], chan_in = [], chan_trecv = 0, chan_tmout = 0,
     chan_handler = None, chan_st = CHAN_OPENING\<rparr>"

theorem chan_in_order_witness:
  "fst (cq.drain 2 (foldl chan_receive demo_c_chan demo_chan_packets)) = demo_chan_packets"
  using chan_in_order [of 2 demo_c_chan demo_chan_packets]
  by (simp add: demo_c_chan_def demo_chan_packets_def)

section \<open>A JavaScript channel on a C channel\<close>

text \<open>
  The functions of the library the class \<open>Channel\<close> uses, for the channels above; \<open>chan_send\<close>
  encrypts and sends over the link and leaves the channel as it is. The decoder and encoder of
  \<open>lob-enc\<close> stay parameters.
\<close>

definition c_chan_api :: "(js_packet \<Rightarrow> bytes) \<Rightarrow> (bytes \<Rightarrow> js_packet option) \<Rightarrow> chan chan_api" where
  "c_chan_api enc dec =
     \<lparr>ch_id = \<lambda>c. unat (chan_cid c),
      ch_receiving = \<lambda>c. (case chan_receiving c of (r, c') \<Rightarrow> (c', map_option raw r)),
      ch_send = \<lambda>c p. c, ch_encode = enc, ch_decode = dec\<rparr>"

text \<open>
  C15. The handler a JavaScript channel puts on its C channel empties the queue: it returns, having
  pushed every packet that decodes, in the order received, and reported the others, and nothing is
  left in the C channel; that channel is ended exactly if it was before or one of the packets said
  so.
\<close>

theorem js_channel_delivers:
  "\<exists>s'. channel_handle (c_chan_api enc dec) s = Some s' \<and> chan_in (c_chan s') = [] \<and>
    ch_pushed s' = ch_pushed s @ List.map_filter dec (map raw (chan_in (c_chan s))) \<and>
    ch_bad s' = ch_bad s @ filter (\<lambda>p. dec p = None) (map raw (chan_in (c_chan s))) \<and>
    (chan_st (c_chan s') = CHAN_ENDED) =
      (chan_st (c_chan s) = CHAN_ENDED \<or> list_ex (\<lambda>p. lob_get p end_key \<noteq> None) (chan_in (c_chan s)))"
proof (induction "chan_in (c_chan s)" arbitrary: s)
  case Nil
  then have "chan_receiving (c_chan s) = (None, c_chan s)" by (simp add: receiving_Nil)
  then show ?case
    using Nil by (subst channel_handle_step) (simp add: c_chan_api_def List.map_filter_simps)
next
  case (Cons p ps)
  obtain c' where c': "chan_receiving (c_chan s) = (Some p, c')" "chan_in c' = ps"
    "chan_st c' = CHAN_ENDED \<longleftrightarrow> lob_get p end_key \<noteq> None \<or> chan_st (c_chan s) = CHAN_ENDED"
    using receiving_Cons [OF Cons.hyps(2) [symmetric]] by blast
  let ?s = "case dec (raw p) of
      Some l \<Rightarrow> s\<lparr>c_chan := c', ch_pushed := ch_pushed s @ [l]\<rparr>
    | None \<Rightarrow> s\<lparr>c_chan := c', ch_bad := ch_bad s @ [raw p]\<rparr>"
  have step: "channel_handle (c_chan_api enc dec) s = channel_handle (c_chan_api enc dec) ?s"
  proof -
    have r: "ch_receiving (c_chan_api enc dec) (c_chan s) = (c', Some (raw p))"
      "ch_decode (c_chan_api enc dec) = dec"
      by (simp_all add: c_chan_api_def c'(1))
    show ?thesis by (cases "dec (raw p)") (subst channel_handle_step, simp add: r)+
  qed
  have s: "c_chan ?s = c'" by (simp split: option.split)
  show ?case
    using Cons.hyps(1) [of ?s] step c'(2,3) Cons.hyps(2) [symmetric] s
    by (cases "dec (raw p)") (auto simp: List.map_filter_simps)
qed

section \<open>Timeouts\<close>

fun chan_clocks :: "u32 list \<Rightarrow> chan \<Rightarrow> c_fault + chan" where
  "chan_clocks [] c = Inr c"
| "chan_clocks (t # ts) c = and_then (chan_clock t c) (chan_clocks ts)"

text \<open>The last call was at \<open>t\<close> and the timeout is \<open>d\<close> later.\<close>

definition clock_at :: "chan \<Rightarrow> nat \<Rightarrow> nat \<Rightarrow> bool" where
  "clock_at c t d \<longleftrightarrow> 0 < t \<and> t + d < 2 ^ 32 \<and> chan_trecv c = of_nat t \<and> chan_tmout c = of_nat (t + d)"

lemma of_nat_u32:
  assumes "m < 2 ^ 32" and "n < 2 ^ 32"
  shows "(of_nat m > (of_nat n :: u32)) = (m > n)" and "((of_nat m :: u32) = 0) = (m = 0)"
proof -
  have u: "unat (of_nat m :: u32) = m" "unat (of_nat n :: u32) = n"
    using assms by (simp_all add: unsigned_of_nat take_bit_nat_eq_self)
  then show "(of_nat m > (of_nat n :: u32)) = (m > n)" by (simp add: word_less_nat_alt)
  show "((of_nat m :: u32) = 0) = (m = 0)" using u(1) by (metis of_nat_0 unat_eq_zero)
qed

lemma clock_step:
  assumes "clock_at c t d" and "t \<le> u" and "u - t \<le> d" and "u + d < 2 ^ 32"
  shows "\<exists>c'. chan_clock (of_nat u) c = Inr c' \<and> clock_at c' u d \<and> chan_in c' = chan_in c"
proof -
  have c: "0 < t" "t + d < 2 ^ 32" "chan_trecv c = of_nat t" "chan_tmout c = of_nat (t + d)"
    using assms(1) by (simp_all add: clock_at_def)
  have "of_nat (t + d) + (of_nat u - of_nat t) = (of_nat (u + d) :: u32)"
    by simp
  moreover have "\<not> of_nat u > (of_nat (t + d) :: u32)" "(of_nat u :: u32) \<noteq> 0" "(of_nat t :: u32) \<noteq> 0"
    "(of_nat (t + d) :: u32) \<noteq> 0"
    using of_nat_u32 [of u "t + d"] of_nat_u32 [of t u] of_nat_u32 [of "t + d" u] assms c by auto
  ultimately show ?thesis
    using c(1) assms(2,4) unfolding chan_clock_def c(3,4) by (simp add: clock_at_def)
qed

lemma clock_quiet:
  assumes "clock_at c t d" and "t \<le> u" and "u - t \<le> d" and "u < 2 ^ 32"
  shows "\<exists>c'. chan_clock (of_nat u) c = Inr c' \<and> chan_in c' = chan_in c"
proof -
  have c: "0 < t" "t + d < 2 ^ 32" "chan_tmout c = of_nat (t + d)"
    using assms(1) by (simp_all add: clock_at_def)
  have "\<not> of_nat u > (of_nat (t + d) :: u32)" using of_nat_u32 [of u "t + d"] assms c by auto
  then show ?thesis unfolding chan_clock_def c(3) by simp
qed

lemma clock_fires:
  assumes "clock_at c t d" and "d < u - t" and "u < 2 ^ 32"
  shows "\<exists>c' e. chan_clock (of_nat u) c = Inr c' \<and> chan_in c' = chan_in c @ [e] \<and>
    lob_get e end_key \<noteq> None"
proof -
  have c: "0 < t" "t + d < 2 ^ 32" "chan_tmout c = of_nat (t + d)"
    using assms(1) by (simp_all add: clock_at_def)
  have "of_nat u > (of_nat (t + d) :: u32)" "(of_nat u :: u32) \<noteq> 0" "(of_nat (t + d) :: u32) \<noteq> 0"
    using of_nat_u32 [of u "t + d"] of_nat_u32 [of "t + d" u] assms(2,3) c by auto
  moreover obtain e where "chan_err_packet (chan_cid c) (Some timeout_msg) = Inr e" "lob_get e end_key \<noteq> None"
    using chan_err_packet_ok [of "Some timeout_msg" "chan_cid c"] printable_msgs(2) by auto
  ultimately show ?thesis unfolding chan_clock_def c(3) by (simp add: chan_err_def)
qed

text \<open>Calls at most \<open>d\<close> apart.\<close>

fun steady :: "nat \<Rightarrow> nat \<Rightarrow> nat list \<Rightarrow> bool" where
  "steady d t [] = True"
| "steady d t (u # us) = (t \<le> u \<and> u - t \<le> d \<and> u + d < 2 ^ 32 \<and> steady d u us)"

lemma clocks_steady:
  "clock_at c t d \<Longrightarrow> steady d t ts \<Longrightarrow>
     \<exists>c'. chan_clocks (map of_nat ts) c = Inr c' \<and> clock_at c' (last (t # ts)) d \<and> chan_in c' = chan_in c"
proof (induction ts arbitrary: c t)
  case (Cons u us)
  then obtain c1 where "chan_clock (of_nat u) c = Inr c1" "clock_at c1 u d" "chan_in c1 = chan_in c"
    using clock_step [of c t d u] by auto
  then show ?case using Cons.IH [of c1 u] Cons.prems(2) by auto
qed simp



end
