(* ===== verification/Exchange.thy ===== *)
theory Exchange
  imports LobJson
begin

text \<open>
  The session of two endpoints, \<open>src/e3x/exchange.c\<close>: the counters of the handshake (\<open>in\<close>, \<open>out\<close>),
  the numbering of channels (\<open>cid\<close>, \<open>last\<close>) and the ephemeral key. The cipher set is a parameter:
  a record of the functions the code calls through its table, on keys of a type of their own.
\<close>

record 'e cipher_set =
  cs_verify :: "lob \<Rightarrow> u8" \<comment> \<open>\<open>remote_verify\<close>, 0 when the packet is from this peer\<close>
  cs_ephemeral :: "lob \<Rightarrow> 'e option" \<comment> \<open>\<open>ephemeral_new\<close>\<close>
  cs_message :: "lob \<Rightarrow> lob option" \<comment> \<open>\<open>remote_encrypt\<close>\<close>
  cs_encrypt :: "'e \<Rightarrow> lob \<Rightarrow> lob option"
  cs_decrypt :: "'e \<Rightarrow> lob \<Rightarrow> lob option"

record 'e exchange =
  xin :: u32
  xout :: u32
  xcid :: u32
  xlast :: u32
  xorder :: nat
  xcsid :: u8
  xtoken :: bytes
  xephem :: "'e option"
  xeid :: bytes

text \<open>The first byte in which the two keys differ decides who is even (2) and who is odd (1).\<close>

fun exchange_order :: "bytes \<Rightarrow> bytes \<Rightarrow> nat" where
  "exchange_order (k # key) (s # self) =
     (if k = s then exchange_order key self else if k > s then 2 else 1)"
| "exchange_order _ _ = 0"

text \<open>The end of \<open>e3x_exchange_new\<close>, once the cipher set has made the remote and its token.\<close>

definition e3x_exchange_new :: "bytes \<Rightarrow> u8 \<Rightarrow> bytes \<Rightarrow> bytes \<Rightarrow> 'e exchange" where
  "e3x_exchange_new self csid key token =
     (let order = exchange_order key self
      in \<lparr>xin = 0, xout = 0, xcid = of_nat order, xlast = 0, xorder = order, xcsid = csid,
          xtoken = token, xephem = None, xeid = replicate 16 0\<rparr>)"

definition e3x_exchange_verify :: "'e cipher_set \<Rightarrow> lob \<Rightarrow> u8" where
  "e3x_exchange_verify cs outer = cs_verify cs outer"

text \<open>Reading the outgoing value is the call with 0.\<close>

definition e3x_exchange_out :: "'e exchange \<Rightarrow> u32 \<Rightarrow> 'e exchange" where
  "e3x_exchange_out x at =
     (if at \<noteq> 0 \<and> at > xout x then
        let x = x\<lparr>xout := at\<rparr> in
        if xorder x = 2 then (if xout x mod 2 \<noteq> 0 then x\<lparr>xout := xout x + 1\<rparr> else x)
        else (if xout x mod 2 = 0 then x\<lparr>xout := xout x + 1\<rparr> else x)
      else x)"

definition e3x_exchange_in :: "'e exchange \<Rightarrow> u32 \<Rightarrow> 'e exchange" where
  "e3x_exchange_in x at =
     (if at \<noteq> 0 \<and> at > xin x \<and> at \<ge> xout x \<and> (unat (at mod 2) + 1 = xorder x \<or> at = xout x)
      then x\<lparr>xin := at\<rparr> else x)"

definition e3x_exchange_down :: "'e exchange \<Rightarrow> 'e exchange" where
  "e3x_exchange_down x =
     (let x = x\<lparr>xout := 0\<rparr> in
      if xephem x \<noteq> None then x\<lparr>xephem := None, xeid := replicate 16 0, xlast := 0\<rparr> else x)"

text \<open>
  A failure to make the ephemeral key leaves the counter already moved. The result says whether
  the call succeeded.
\<close>

definition e3x_exchange_sync :: "'e cipher_set \<Rightarrow> 'e exchange \<Rightarrow> lob \<Rightarrow> 'e exchange \<times> bool" where
  "e3x_exchange_sync cs x outer =
     (if body_len outer < 16 then (x, False)
      else
        let x = (if xin x > xout x then x\<lparr>xout := xin x\<rparr> else x) in
        if take 16 (body outer) \<noteq> xeid x then
          (case cs_ephemeral cs outer of
             None \<Rightarrow> (x, False)
           | Some e \<Rightarrow> (x\<lparr>xephem := Some e, xeid := take 16 (body outer), xlast := 0\<rparr>, True))
        else (x, True))"

definition at_key :: bytes where "at_key = map of_char ''at''"

definition type_field :: bytes where "type_field = map of_char ''type''"

definition key_word :: bytes where "key_word = map of_char ''key''"

text \<open>
  The packet that carries our keys, each with its cipher set's id and the two hexadecimal digits
  of the id: the key of the exchange's own set in the body, the hashes of the others as fields.
\<close>

fun key_fields :: "(bytes \<Rightarrow> bytes) \<Rightarrow> u8 \<Rightarrow> (u8 \<times> bytes \<times> bytes) list \<Rightarrow> lob \<Rightarrow> c_fault + lob" where
  "key_fields hash csid [] inner = Inr inner"
| "key_fields hash csid ((c, hex, key) # ks) inner =
     (if c = csid then key_fields hash csid ks (lob_body inner (Some key) (length key))
      else
        case lob_set_base32 inner hex (hash key) of
          Inl f \<Rightarrow> Inl f
        | Inr inner \<Rightarrow> key_fields hash csid ks inner)"

definition key_inner :: "(bytes \<Rightarrow> bytes) \<Rightarrow> u8 \<Rightarrow> (u8 \<times> bytes \<times> bytes) list \<Rightarrow> c_fault + lob" where
  "key_inner hash csid ks =
     (case lob_set lob_new type_field key_word of
        Inl f \<Rightarrow> Inl f
      | Inr inner \<Rightarrow> key_fields hash csid ks inner)"

text \<open>
  Without an inner packet the handshake carries the keys. (The inner packet is then also linked
  to the result, for the caller to keep.)
\<close>

definition e3x_exchange_handshake ::
  "'e cipher_set \<Rightarrow> (bytes \<Rightarrow> bytes) \<Rightarrow> (u8 \<times> bytes \<times> bytes) list \<Rightarrow> 'e exchange \<Rightarrow> lob option \<Rightarrow>
    c_fault + lob option" where
  "e3x_exchange_handshake cs hash ks x inner =
     (if xout x = 0 then Inr None
      else
        case (case inner of None \<Rightarrow> key_inner hash (xcsid x) ks | Some p \<Rightarrow> Inr p) of
          Inl f \<Rightarrow> Inl f
        | Inr inner \<Rightarrow>
            (case lob_set_uint inner at_key (xout x) of
               Inl f \<Rightarrow> Inl f
             | Inr inner \<Rightarrow> Inr (cs_message cs inner)))"

definition e3x_exchange_receive :: "'e cipher_set \<Rightarrow> 'e exchange \<Rightarrow> lob \<Rightarrow> lob option" where
  "e3x_exchange_receive cs x outer = (case xephem x of None \<Rightarrow> None | Some e \<Rightarrow> cs_decrypt cs e outer)"

definition e3x_exchange_send :: "'e cipher_set \<Rightarrow> 'e exchange \<Rightarrow> lob \<Rightarrow> lob option" where
  "e3x_exchange_send cs x inner = (case xephem x of None \<Rightarrow> None | Some e \<Rightarrow> cs_encrypt cs e inner)"

definition chan_key :: bytes where "chan_key = map of_char ''c''"

text \<open>The next channel id of our own, and the check of one the peer chose (0 when refused).\<close>

definition next_cid :: "'e exchange \<Rightarrow> 'e exchange \<times> u32" where
  "next_cid x = (x\<lparr>xcid := xcid x + 2\<rparr>, xcid x)"

definition check_cid :: "'e exchange \<Rightarrow> lob \<Rightarrow> 'e exchange \<times> u32" where
  "check_cid x incoming =
     (let cid = lob_get_uint incoming chan_key in
      if cid = 0 then (x, 0)
      else if cid \<le> xlast x then (x, 0)
      else if cid mod 2 = xcid x mod 2 then (x, 0)
      else (x\<lparr>xlast := cid\<rparr>, cid))"

definition e3x_exchange_cid :: "'e exchange \<Rightarrow> lob option \<Rightarrow> 'e exchange \<times> u32" where
  "e3x_exchange_cid x incoming = (case incoming of None \<Rightarrow> next_cid x | Some p \<Rightarrow> check_cid x p)"

section \<open>Who is even\<close>

text \<open>Two endpoints with different keys of one length never take the same order.\<close>

lemma exchange_orders:
  "length a = length b \<Longrightarrow> a \<noteq> b \<Longrightarrow>
     {exchange_order a b, exchange_order b a} = {1, 2}"
proof (induction a b rule: list_induct2')
  case (4 x xs y ys)
  then show ?case by (cases "x = y"; cases "x < y"; auto simp: not_less)
qed auto

section \<open>Channel ids\<close>

text \<open>A packet that opens the channel \<open>c\<close>.\<close>

definition open_with :: "u32 \<Rightarrow> lob \<Rightarrow> bool" where
  "open_with c p \<longleftrightarrow> lob_get_uint p chan_key = c"

text \<open>\<open>n\<close> ids taken one after the other.\<close>

fun next_cids :: "nat \<Rightarrow> 'e exchange \<Rightarrow> 'e exchange \<times> u32 list" where
  "next_cids 0 x = (x, [])"
| "next_cids (Suc n) x =
     (let (x, c) = next_cid x; (x, cs) = next_cids n x in (x, c # cs))"

fun check_cids :: "'e exchange \<Rightarrow> lob list \<Rightarrow> 'e exchange \<times> u32 list" where
  "check_cids x [] = (x, [])"
| "check_cids x (p # ps) =
     (let (x, c) = check_cid x p; (x, cs) = check_cids x ps in (x, c # cs))"

lemma next_cids_list: "snd (next_cids n x) = map (\<lambda>i. xcid x + 2 * of_nat i) [0..<n]"
proof (induction n arbitrary: x)
  case (Suc n)
  have "snd (next_cids (Suc n) x) = xcid x # map (\<lambda>i. xcid x + 2 + 2 * of_nat i) [0..<n]"
    using Suc.IH [of "x\<lparr>xcid := xcid x + 2\<rparr>"] by (simp add: next_cid_def case_prod_unfold Let_def)
  also have "\<dots> = map (\<lambda>i. xcid x + 2 * of_nat i) [0..<Suc n]"
    by (subst upt_conv_Cons) (simp_all add: map_Suc_upt [symmetric] algebra_simps del: upt_Suc)
  finally show ?case .
qed simp

lemma mod_2_iff: "(a mod 2 = (b :: u32) mod 2) \<longleftrightarrow> unat a mod 2 = unat b mod 2"
  by (simp add: word_unat_eq_iff unat_mod)

lemma check_cid_new:
  assumes "open_with c p" and "xlast x < c" and "unat c mod 2 \<noteq> unat (xcid x) mod 2"
  shows "check_cid x p = (x\<lparr>xlast := c\<rparr>, c)"
  using assms by (auto simp: check_cid_def open_with_def mod_2_iff)

lemma check_cid_old: "open_with c p \<Longrightarrow> c \<le> xlast x \<Longrightarrow> check_cid x p = (x, 0)"
  by (auto simp: check_cid_def open_with_def)

lemma check_cid_mono: "xlast x \<le> xlast (fst (check_cid x p)) \<and> snd (check_cid x p) \<le> xlast (fst (check_cid x p))"
  by (auto simp: check_cid_def Let_def)

lemma check_cids_mono:
  "xlast x \<le> xlast (fst (check_cids x ps)) \<and> list_all (\<lambda>c. c \<le> xlast (fst (check_cids x ps))) (snd (check_cids x ps))"
proof (induction ps arbitrary: x)
  case (Cons p ps)
  then show ?case
    using check_cid_mono [of x p] by (auto simp: case_prod_unfold Let_def intro: order_trans)
qed simp

lemma check_cids_old:
  "list_all2 open_with cs ps \<Longrightarrow> list_all (\<lambda>c. c \<le> xlast x) cs \<Longrightarrow> check_cids x ps = (x, replicate (length ps) 0)"
proof (induction ps arbitrary: cs)
  case (Cons p ps)
  then obtain c cs' where "cs = c # cs'" "open_with c p" "list_all2 open_with cs' ps" "c \<le> xlast x"
    "list_all (\<lambda>c. c \<le> xlast x) cs'"
    by (auto simp: list_all2_Cons2)
  then show ?case using Cons.IH check_cid_old [of c p x] by simp
qed simp

lemma cids_accepted:
  fixes a :: "'a exchange" and b :: "'b exchange"
  assumes "unat (xcid a) mod 2 \<noteq> unat (xcid b) mod 2" and "xlast b < xcid a"
    and "unat (xcid a) + 2 * n < 2 ^ 32" and "list_all2 open_with (snd (next_cids n a)) ps"
  shows "snd (check_cids b ps) = snd (next_cids n a)"
  using assms
proof (induction n arbitrary: a b ps)
  case (Suc n)
  let ?a = "a\<lparr>xcid := xcid a + 2\<rparr>" and ?b = "b\<lparr>xlast := xcid a\<rparr>"
  have nxt: "snd (next_cids (Suc n) a) = xcid a # snd (next_cids n ?a)"
    by (simp add: next_cid_def case_prod_unfold Let_def)
  obtain p qs where ps: "ps = p # qs" "open_with (xcid a) p" "list_all2 open_with (snd (next_cids n ?a)) qs"
    using Suc.prems(4) unfolding nxt by (auto simp: list_all2_Cons1)
  have add: "unat (xcid a + 2) = unat (xcid a) + 2"
    using Suc.prems(3) by (simp add: unat_word_ariths)
  have "snd (check_cids ?b qs) = snd (next_cids n ?a)"
  proof (rule Suc.IH)
    show "unat (xcid ?a) mod 2 \<noteq> unat (xcid ?b) mod 2" using Suc.prems(1) by (simp add: add)
    show "xlast ?b < xcid ?a" by (simp add: word_less_nat_alt add)
    show "unat (xcid ?a) + 2 * n < 2 ^ 32" using Suc.prems(3) by (simp add: add)
  qed (rule ps(3))
  then show ?case
    using check_cid_new [OF ps(2) Suc.prems(2,1)] by (simp only: ps(1) nxt) (simp add: case_prod_unfold Let_def)
qed simp

lemma next_cids_parity:
  assumes "c \<in> set (snd (next_cids n x))"
  shows "unat c mod 2 = unat (xcid x) mod 2"
proof -
  obtain i where "c = xcid x + 2 * of_nat i" using assms by (auto simp: next_cids_list)
  then have "unat c = (unat (xcid x) + 2 * i) mod 2 ^ 32"
    by (simp add: unat_word_ariths unsigned_of_nat take_bit_eq_mod mod_simps)
  then have "even (unat c) \<longleftrightarrow> even (unat (xcid x))"
    using dvd_mod_iff [of 2 "2 ^ 32" "unat (xcid x) + 2 * i"] by simp
  then show ?thesis by (simp add: mod2_eq_if)
qed


text \<open>Three channels of the odd side, opened by the packets \<open>{"c":1}\<close>, \<open>{"c":3}\<close> and \<open>{"c":5}\<close>.\<close>

definition demo_opens :: "lob list" where
  "demo_opens = map (\<lambda>c. lob_put lob_new (chan_key, dec_digits c)) [1, 3, 5]"

lemma chan_key_ok: "key_ok chan_key"
  by (simp add: chan_key_def key_ok_def str_char_def)

lemma open_with_put:
  assumes "n < 2 ^ 32"
  shows "open_with (of_nat n) (lob_put lob_new (chan_key, dec_digits n))"
proof -
  have new: "body_len lob_new = 0" by (simp add: lob_new_def)
  obtain q where q: "lob_set_uint lob_new chan_key (of_nat n) = Inr q" "lob_get_uint q chan_key = of_nat n"
    using set_uint_get [OF json_is_new disjI1 [OF new] chan_key_ok] by blast
  moreover have "unat (of_nat n :: u32) = n" using assms by (simp add: unsigned_of_nat take_bit_nat_eq_self)
  ultimately show ?thesis by (simp add: open_with_def lob_put_def lob_set_uint_def)
qed


end
