(* ===== verification/Util.thy ===== *)
theory Util
  imports Prelude
begin

text \<open>
  The string helpers of \<open>src/util/util.c\<close>: hexadecimal text and comparison in constant
  time. A C string is the list of its bytes before the NUL, \<open>NULL\<close> is \<open>None\<close>.
\<close>

section \<open>Hexadecimal\<close>

definition hex_digits :: bytes where
  "hex_digits = map of_char ''0123456789abcdef''"

definition util_hex :: "bytes \<Rightarrow> bytes" where
  "util_hex xs =
     concat (map (\<lambda>x. [hex_digits ! unat ((x AND 240) div 16), hex_digits ! unat (x AND 15)]) xs)"

definition hexcode :: "u8 \<Rightarrow> u8" where
  "hexcode x =
     (if 48 \<le> x \<and> x \<le> 57 then x - 0x30
      else if 65 \<le> x \<and> x \<le> 70 then x - 0x37
      else if 97 \<le> x \<and> x \<le> 102 then x - 0x57
      else x)"

text \<open>The loop reads pairs; \<open>len\<close> 0 stands for the length of the string.\<close>

fun unhex_pairs :: "bytes \<Rightarrow> bytes" where
  "unhex_pairs (a # b # s) = (((hexcode a * 16) AND 0xF0) + (hexcode b AND 0xF)) # unhex_pairs s"
| "unhex_pairs _ = []"

definition util_unhex :: "bytes \<Rightarrow> nat \<Rightarrow> bytes" where
  "util_unhex s len = unhex_pairs (take (if len = 0 then length s else len) s)"

text \<open>\<open>util_ishex\<close> reads \<open>len\<close> bytes of the string, the NUL included.\<close>

definition util_ishex :: "bytes \<Rightarrow> nat \<Rightarrow> bool" where
  "util_ishex s len = list_all (\<lambda>c. c \<noteq> 0 \<and> c \<noteq> hexcode c) (take len (s @ [0]))"

section \<open>Comparison\<close>

text \<open>Both loops run over all \<open>n\<close> bytes, whatever they find.\<close>

fun ct_memcmp_loop :: "u32 \<Rightarrow> nat \<Rightarrow> bytes \<Rightarrow> bytes \<Rightarrow> u32" where
  "ct_memcmp_loop x (Suc n) (a # as) (b # bs) = ct_memcmp_loop (x OR ucast (a XOR b)) n as bs"
| "ct_memcmp_loop x _ _ _ = x"

definition util_ct_memcmp :: "bytes \<Rightarrow> bytes \<Rightarrow> nat \<Rightarrow> u32" where
  "util_ct_memcmp s t n = (let x = ct_memcmp_loop 0 n s t in if x \<noteq> 0 then 1 else x)"

definition util_cmp :: "bytes option \<Rightarrow> bytes option \<Rightarrow> int" where
  "util_cmp a b =
     (case (a, b) of
        (Some a, Some b) \<Rightarrow>
          if length a \<noteq> length b then -1 else sint (util_ct_memcmp a b (length a))
      | _ \<Rightarrow> -1)"

section \<open>Round trip of the hexadecimal text\<close>

text \<open>The sixteen digits, and a byte as its two halves.\<close>

lemma hex_digit_table:
  "list_all (\<lambda>i. let a = hex_digits ! i in hexcode a = of_nat i \<and> a \<noteq> 0 \<and> a \<noteq> hexcode a) [0..<16]"
  by code_simp

lemma hex_digit:
  assumes "unat (w :: u8) < 16"
  shows "hexcode (hex_digits ! unat w) = w"
    and "hex_digits ! unat w \<noteq> 0 \<and> hex_digits ! unat w \<noteq> hexcode (hex_digits ! unat w)"
proof -
  have "unat w \<in> set [0..<16]" using assms by simp
  from hex_digit_table [unfolded list_all_iff, rule_format, OF this]
  show "hexcode (hex_digits ! unat w) = w"
    "hex_digits ! unat w \<noteq> 0 \<and> hex_digits ! unat w \<noteq> hexcode (hex_digits ! unat w)"
    unfolding Let_def of_nat_unat ucast_id by blast+
qed

lemma byte_bits_cases: "n < 8 \<Longrightarrow> n = 0 \<or> n = 1 \<or> n = 2 \<or> n = 3 \<or> n = 4 \<or> n = 5 \<or> n = 6 \<or> (n :: nat) = 7"
  by auto

lemma nibbles:
  fixes x :: u8
  shows "unat ((x AND 240) div 16) < 16" and "unat (x AND 15) < 16"
    and "((x AND 240) div 16 * 16 AND 0xF0) + ((x AND 15) AND 0xF) = x"
proof -
  have low: "x AND 15 = take_bit 4 x"
    by (simp add: take_bit_eq_mask mask_eq_exp_minus_1)
  have high: "(x AND 240) div 16 = drop_bit 4 x"
  proof -
    have "(x AND 240) div 16 = drop_bit 4 (x AND 240)" by (simp add: drop_bit_eq_div)
    also have "\<dots> = drop_bit 4 x"
    proof (rule bit_word_eqI)
      fix n assume "n < LENGTH(8)"
      then show "bit (drop_bit 4 (x AND 240)) n = bit (drop_bit 4 x) n"
        using byte_bits_cases [of n] by (auto simp: bit_simps dest: bit_imp_le_length)
    qed
    finally show ?thesis .
  qed
  show "unat ((x AND 240) div 16) < 16"
    unfolding high using unsigned_less [of x, where ?'a = nat]
    by (simp add: drop_bit_eq_div unat_div less_mult_imp_div_less)
  show "unat (x AND 15) < 16"
    unfolding low using take_bit_nat_less_exp [of 4 "unat x"] by (simp add: unsigned_take_bit_eq)
  have "(drop_bit 4 x * 16 AND 0xF0) + (take_bit 4 x AND 0xF) = (drop_bit 4 x * 16 AND 0xF0) OR (take_bit 4 x AND 0xF)"
  proof (rule disjunctive_add)
    fix n
    show "\<not> bit (drop_bit 4 x * 16 AND 0xF0) n \<or> \<not> bit (take_bit 4 x AND 0xF) n"
      using byte_bits_cases [of n] by (cases "n < 8") (auto simp: bit_and_iff dest: bit_imp_le_length)
  qed
  also have "\<dots> = x"
  proof (rule bit_word_eqI)
    fix n assume "n < LENGTH(8)"
    moreover have "drop_bit 4 x * 16 = push_bit 4 (drop_bit 4 x)" by (simp add: push_bit_eq_mult)
    ultimately show "bit ((drop_bit 4 x * 16 AND 0xF0) OR (take_bit 4 x AND 0xF)) n = bit x n"
      using byte_bits_cases [of n] by (auto simp: bit_simps)
  qed
  finally show "((x AND 240) div 16 * 16 AND 0xF0) + ((x AND 15) AND 0xF) = x" unfolding low high .
qed

lemma hex_byte:
  fixes x :: u8
  defines "a \<equiv> hex_digits ! unat ((x AND 240) div 16)" and "b \<equiv> hex_digits ! unat (x AND 15)"
  shows "((hexcode a * 16) AND 0xF0) + (hexcode b AND 0xF) = x"
    and "a \<noteq> 0 \<and> a \<noteq> hexcode a \<and> b \<noteq> 0 \<and> b \<noteq> hexcode b"
  using hex_digit [OF nibbles(1) [of x]] hex_digit [OF nibbles(2) [of x]] nibbles(3) [of x]
  by (simp_all add: a_def b_def)

lemma util_unhex_hex: "unhex_pairs (util_hex xs) = xs"
proof (induction xs)
  case (Cons x xs)
  then show ?case using hex_byte(1) [of x] by (simp add: util_hex_def)
qed (simp add: util_hex_def)

section \<open>The comparison is equality\<close>

lemma ct_memcmp_or: "ct_memcmp_loop x n s t = x OR ct_memcmp_loop 0 n s t"
proof (induction n arbitrary: x s t)
  case (Suc n)
  show ?case
  proof (cases s)
    case (Cons a as)
    show ?thesis
    proof (cases t)
      case (Cons b bs)
      let ?u = "ucast (a XOR b) :: u32"
      have "ct_memcmp_loop (x OR ?u) n as bs = (x OR ?u) OR ct_memcmp_loop 0 n as bs" by (rule Suc.IH)
      moreover have "ct_memcmp_loop ?u n as bs = ?u OR ct_memcmp_loop 0 n as bs" by (rule Suc.IH)
      ultimately show ?thesis by (simp add: \<open>s = a # as\<close> Cons or.assoc)
    qed simp
  qed simp
qed simp

lemma or_eq_0_iff: "((x :: u32) OR y) = 0 \<longleftrightarrow> x = 0 \<and> y = 0"
  by (auto simp: bit_eq_iff bit_simps)

lemma ucast_xor_0: "(ucast ((a :: u8) XOR b) :: u32) = 0 \<longleftrightarrow> a = b"
proof
  assume "(ucast (a XOR b) :: u32) = 0"
  then have "\<not> bit (ucast (a XOR b) :: u32) n" for n by simp
  then have "bit a n = bit b n" if "n < 8" for n using that by (simp add: bit_simps)
  then show "a = b" by (auto intro: bit_word_eqI)
qed simp

lemma ct_memcmp_loop_0: "ct_memcmp_loop 0 n s t = 0 \<longleftrightarrow> take n s = take n t"
  if "n \<le> length s" "n \<le> length t"
  using that
proof (induction n arbitrary: s t)
  case (Suc n)
  then obtain a as b bs where "s = a # as" "t = b # bs" by (metis Suc_le_length_iff)
  then show ?case
    using Suc ct_memcmp_or [of "ucast (a XOR b)" n as bs] by (auto simp: or_eq_0_iff ucast_xor_0)
qed simp

lemma util_cmp_0: "util_cmp (Some a) (Some b) = 0 \<longleftrightarrow> a = b"
  using ct_memcmp_loop_0 [of "length a" a b]
  by (cases "a = b") (auto simp: util_cmp_def util_ct_memcmp_def)

text \<open>
  The comparison in constant time is equality: over blocks that have the bytes it gives 0
  exactly when the first \<open>n\<close> bytes are the same and 1 otherwise; so two strings compare as 0 exactly
  when they are the same string, and no string compares as 0 with \<open>NULL\<close>.
\<close>

theorem ct_memcmp_equality:
  assumes "n \<le> length s" and "n \<le> length t"
  shows "util_ct_memcmp s t n = (if take n s = take n t then 0 else 1) \<and>
    (util_cmp (Some a) (Some b) = 0) = (a = b) \<and> util_cmp (Some a) None \<noteq> 0"
proof -
  have cmp: "util_ct_memcmp s t n = (if take n s = take n t then 0 else 1)"
    if "n \<le> length s" "n \<le> length t" for s t n
    using ct_memcmp_loop_0 [OF that] by (auto simp: util_ct_memcmp_def)
  show ?thesis
    using cmp [OF assms] cmp [of "length a" a b] by (cases "a = b") (auto simp: util_cmp_def)
qed

theorem ct_memcmp_equality_witness:
  "util_ct_memcmp [1, 2, 3] [1, 2, 4] 3 = 1 \<and> util_cmp (Some [97]) (Some [97]) = 0"
  using ct_memcmp_equality [of 3 "[1, 2, 3]" "[1, 2, 4]" "[97]" "[97]"] by simp

text \<open>
  The text of bytes reads back as the bytes, is recognised as hexadecimal, and has two digits
  for each byte.
\<close>

theorem hex_roundtrip:
  "util_unhex (util_hex xs) 0 = xs \<and> length (util_hex xs) = 2 * length xs \<and>
    util_ishex (util_hex xs) (length (util_hex xs))"
proof -
  have "length (util_hex xs) = 2 * length xs" by (induction xs) (simp_all add: util_hex_def)
  moreover have "list_all (\<lambda>c. c \<noteq> 0 \<and> c \<noteq> hexcode c) (util_hex xs)"
    using hex_byte(2) by (induction xs) (simp_all add: util_hex_def)
  ultimately show ?thesis using util_unhex_hex [of xs] by (simp add: util_unhex_def util_ishex_def)
qed

end
