(* ===== verification/MeshOn.thy ===== *)
theory MeshOn
  imports Util JsLinks "HOL-Library.AList"
begin

text \<open>
  The handlers of a mesh, \<open>src/mesh.c\<close>: a list of entries, one for each id, that hold up to five
  callbacks. Callbacks are numbers; what the application does in one is a parameter of the functions
  that call it. The handlers are asked in the order of the list, the newest entry first.
\<close>

record on_struct =
  on_id :: bytes
  on_free :: "nat option"
  on_link_cb :: "nat option"
  on_path :: "nat option"
  on_open_cb :: "nat option"
  on_discover_cb :: "nat option"

definition new_on :: "bytes \<Rightarrow> on_struct" where
  "new_on i = \<lparr>on_id = i, on_free = None, on_link_cb = None, on_path = None, on_open_cb = None,
     on_discover_cb = None\<rparr>"

text \<open>\<open>on_get\<close>: the list with an entry for the id, and where it is.\<close>

fun on_find :: "on_struct list \<Rightarrow> bytes \<Rightarrow> nat option" where
  "on_find [] i = None"
| "on_find (on # ons) i =
     (if util_cmp (Some (on_id on)) (Some i) = 0 then Some 0 else map_option Suc (on_find ons i))"

definition on_get :: "on_struct list \<Rightarrow> bytes \<Rightarrow> on_struct list \<times> nat" where
  "on_get ons i = (case on_find ons i of Some n \<Rightarrow> (ons, n) | None \<Rightarrow> (new_on i # ons, 0))"

text \<open>The five registration functions store a callback in the entry.\<close>

definition on_put :: "(on_struct \<Rightarrow> on_struct) \<Rightarrow> on_struct list \<Rightarrow> bytes \<Rightarrow> on_struct list" where
  "on_put f ons i = (let (ons, n) = on_get ons i in ons[n := f (ons ! n)])"

definition mesh_on_free :: "on_struct list \<Rightarrow> bytes \<Rightarrow> nat option \<Rightarrow> on_struct list" where
  "mesh_on_free ons i cb = on_put (\<lambda>on. on\<lparr>on_free := cb\<rparr>) ons i"

definition mesh_on_path :: "on_struct list \<Rightarrow> bytes \<Rightarrow> nat option \<Rightarrow> on_struct list" where
  "mesh_on_path ons i cb = on_put (\<lambda>on. on\<lparr>on_path := cb\<rparr>) ons i"

definition mesh_on_link :: "on_struct list \<Rightarrow> bytes \<Rightarrow> nat option \<Rightarrow> on_struct list" where
  "mesh_on_link ons i cb = on_put (\<lambda>on. on\<lparr>on_link_cb := cb\<rparr>) ons i"

definition mesh_on_open :: "on_struct list \<Rightarrow> bytes \<Rightarrow> nat option \<Rightarrow> on_struct list" where
  "mesh_on_open ons i cb = on_put (\<lambda>on. on\<lparr>on_open_cb := cb\<rparr>) ons i"

definition mesh_on_discover :: "on_struct list \<Rightarrow> bytes \<Rightarrow> nat option \<Rightarrow> on_struct list" where
  "mesh_on_discover ons i cb = on_put (\<lambda>on. on\<lparr>on_discover_cb := cb\<rparr>) ons i"

text \<open>
  Calling them: the callbacks that are called for a link and for a discovery, in order; the first
  one that makes a pipe of a path; the packet that is left after each has seen an open.
\<close>

definition mesh_link_calls :: "on_struct list \<Rightarrow> nat list" where
  "mesh_link_calls ons = List.map_filter on_link_cb ons"

definition mesh_discover_calls :: "on_struct list \<Rightarrow> nat list" where
  "mesh_discover_calls ons = List.map_filter on_discover_cb ons"

fun mesh_path :: "(nat \<Rightarrow> bool) \<Rightarrow> on_struct list \<Rightarrow> nat option" where
  "mesh_path app [] = None"
| "mesh_path app (on # ons) =
     (case on_path on of
        Some cb \<Rightarrow> if app cb then Some cb else mesh_path app ons
      | None \<Rightarrow> mesh_path app ons)"

fun mesh_open_cbs :: "(nat \<Rightarrow> 'p \<Rightarrow> 'p option) \<Rightarrow> on_struct list \<Rightarrow> 'p option \<Rightarrow> 'p option" where
  "mesh_open_cbs app [] op = op"
| "mesh_open_cbs app (on # ons) None = None"
| "mesh_open_cbs app (on # ons) (Some p) =
     mesh_open_cbs app ons (case on_open_cb on of Some cb \<Rightarrow> app cb p | None \<Rightarrow> Some p)"

section \<open>One entry for each id\<close>

lemma util_cmp_same: "util_cmp (Some a) (Some b) = 0 \<longleftrightarrow> a = b"
proof -
  have "util_ct_memcmp a b (length a) = (if a = b then 0 else 1)" if "length a = length b"
    using ct_memcmp_loop_0 [of "length a" a b] that by (auto simp: util_ct_memcmp_def)
  then show ?thesis by (cases "a = b") (auto simp: util_cmp_def)
qed

lemma on_find_Some:
  "on_find ons i = Some n \<Longrightarrow> n < length ons \<and> on_id (ons ! n) = i \<and> (\<forall>m < n. on_id (ons ! m) \<noteq> i)"
proof (induction ons arbitrary: n)
  case (Cons on ons)
  then show ?case
    by (cases n) (auto simp: util_cmp_same nth_Cons split: if_splits nat.splits)
qed simp

lemma on_find_None: "on_find ons i = None \<longleftrightarrow> i \<notin> on_id ` set ons"
  by (induction ons) (auto simp: util_cmp_same)

definition on_lookup :: "on_struct list \<Rightarrow> bytes \<Rightarrow> on_struct" where
  "on_lookup ons i = (case on_find ons i of Some n \<Rightarrow> ons ! n | None \<Rightarrow> new_on i)"

definition ons_ok :: "on_struct list \<Rightarrow> bool" where
  "ons_ok ons \<longleftrightarrow> distinct (map on_id ons)"

lemma on_put_cases:
  assumes "ons_ok ons" and "on_id (f (on_lookup ons i)) = i"
  shows "on_put f ons i =
    (if i \<in> on_id ` set ons then map (\<lambda>on. if on_id on = i then f on else on) ons
     else f (new_on i) # ons)"
proof (cases "on_find ons i")
  case None
  then have "i \<notin> on_id ` set ons" by (simp add: on_find_None)
  then show ?thesis by (simp add: on_put_def on_get_def None)
next
  case (Some n)
  then have n: "n < length ons" "on_id (ons ! n) = i" using on_find_Some by blast+
  have "ons[n := f (ons ! n)] = map (\<lambda>on. if on_id on = i then f on else on) ons"
  proof (rule nth_equalityI)
    fix m assume "m < length (ons[n := f (ons ! n)])"
    then show "ons[n := f (ons ! n)] ! m = map (\<lambda>on. if on_id on = i then f on else on) ons ! m"
      using n assms(1) nth_eq_iff_index_eq [of "map on_id ons" m n]
      by (auto simp: ons_ok_def nth_list_update)
  qed simp
  moreover have "i \<in> on_id ` set ons" using n by auto
  ultimately show ?thesis using Some by (simp add: on_put_def on_get_def)
qed

text \<open>The calls that register a callback, and what they are on the map from ids to entries.\<close>

datatype on_kind = OnFree | OnLink | OnPath | OnOpen | OnDiscover

fun set_cb :: "on_kind \<Rightarrow> nat option \<Rightarrow> on_struct \<Rightarrow> on_struct" where
  "set_cb OnFree cb on = on\<lparr>on_free := cb\<rparr>"
| "set_cb OnLink cb on = on\<lparr>on_link_cb := cb\<rparr>"
| "set_cb OnPath cb on = on\<lparr>on_path := cb\<rparr>"
| "set_cb OnOpen cb on = on\<lparr>on_open_cb := cb\<rparr>"
| "set_cb OnDiscover cb on = on\<lparr>on_discover_cb := cb\<rparr>"

fun mesh_on :: "on_struct list \<Rightarrow> on_kind \<times> bytes \<times> nat option \<Rightarrow> on_struct list" where
  "mesh_on ons (OnFree, i, cb) = mesh_on_free ons i cb"
| "mesh_on ons (OnLink, i, cb) = mesh_on_link ons i cb"
| "mesh_on ons (OnPath, i, cb) = mesh_on_path ons i cb"
| "mesh_on ons (OnOpen, i, cb) = mesh_on_open ons i cb"
| "mesh_on ons (OnDiscover, i, cb) = mesh_on_discover ons i cb"

lemma set_cb_fun:
  "set_cb OnFree cb = (\<lambda>on. on\<lparr>on_free := cb\<rparr>)"
  "set_cb OnLink cb = (\<lambda>on. on\<lparr>on_link_cb := cb\<rparr>)"
  "set_cb OnPath cb = (\<lambda>on. on\<lparr>on_path := cb\<rparr>)"
  "set_cb OnOpen cb = (\<lambda>on. on\<lparr>on_open_cb := cb\<rparr>)"
  "set_cb OnDiscover cb = (\<lambda>on. on\<lparr>on_discover_cb := cb\<rparr>)"
  by (simp_all add: fun_eq_iff)

lemma mesh_on_put: "mesh_on ons (k, i, cb) = on_put (set_cb k cb) ons i"
  by (cases k) (simp_all add: mesh_on_free_def mesh_on_link_def mesh_on_path_def mesh_on_open_def
      mesh_on_discover_def set_cb_fun)

lemma on_id_set_cb [simp]: "on_id (set_cb k cb on) = on_id on"
  by (cases k) simp_all

text \<open>The abstract registry: the ids, newest first, and the callbacks of each.\<close>

type_synonym registry = "bytes list \<times> (bytes \<Rightarrow> on_kind \<Rightarrow> nat option)"

fun get_cb :: "on_struct \<Rightarrow> on_kind \<Rightarrow> nat option" where
  "get_cb on OnFree = on_free on"
| "get_cb on OnLink = on_link_cb on"
| "get_cb on OnPath = on_path on"
| "get_cb on OnOpen = on_open_cb on"
| "get_cb on OnDiscover = on_discover_cb on"

definition registry_of :: "on_struct list \<Rightarrow> registry" where
  "registry_of ons = (map on_id ons, \<lambda>i. get_cb (on_lookup ons i))"

fun register :: "registry \<Rightarrow> on_kind \<times> bytes \<times> nat option \<Rightarrow> registry" where
  "register (is, m) (k, i, cb) =
     (if i \<in> set is then is else i # is, m(i := (m i)(k := cb)))"

lemma on_lookup_simps [simp]:
  "on_lookup [] i = new_on i"
  "on_lookup (on # ons) i = (if on_id on = i then on else on_lookup ons i)"
  by (auto simp: on_lookup_def util_cmp_same split: option.split)

lemma on_id_lookup [simp]: "on_id (on_lookup ons i) = i"
  by (induction ons) (auto simp: new_on_def)

lemma on_lookup_new: "i \<notin> on_id ` set ons \<Longrightarrow> on_lookup ons i = new_on i"
  by (induction ons) auto

lemma on_lookup_map:
  assumes "\<And>on. on_id (f on) = on_id on"
  shows "on_lookup (map (\<lambda>on. if on_id on = i then f on else on) ons) j =
    (if j = i \<and> i \<in> on_id ` set ons then f (on_lookup ons i) else on_lookup ons j)"
  by (induction ons) (auto simp: assms)

lemma get_cb_new: "get_cb (new_on i) k = None"
  by (cases k) (simp_all add: new_on_def)

lemma get_set_cb: "get_cb (set_cb k cb on) = (get_cb on)(k := cb)"
proof
  fix k'
  show "get_cb (set_cb k cb on) k' = ((get_cb on)(k := cb)) k'" by (cases k; cases k') simp_all
qed

interpretation mo: refines_calls mesh_on register "\<lambda>_. True" ons_ok registry_of
proof unfold_locales
  fix ons and c :: "on_kind \<times> bytes \<times> nat option"
  assume ok: "ons_ok ons"
  obtain k i cb where c: "c = (k, i, cb)" by (cases c) auto
  have put: "mesh_on ons c = (if i \<in> on_id ` set ons
      then map (\<lambda>on. if on_id on = i then set_cb k cb on else on) ons
      else set_cb k cb (new_on i) # ons)"
    unfolding c mesh_on_put by (rule on_put_cases [OF ok]) simp
  have ids: "map on_id (map (\<lambda>on. if on_id on = i then set_cb k cb on else on) ons) = map on_id ons"
    by simp
  have new: "on_id (new_on i) = i" by (simp add: new_on_def)
  show "ons_ok (mesh_on ons c)"
    using ok ids unfolding ons_ok_def put by (auto simp: new simp del: map_map)
  have "on_lookup (mesh_on ons c) j = (if j = i then set_cb k cb (on_lookup ons i) else on_lookup ons j)" for j
    unfolding put using on_lookup_map [of "set_cb k cb" i ons j] on_lookup_new [of i ons] by (auto simp: new)
  moreover have "map on_id (mesh_on ons c) = (if i \<in> on_id ` set ons then map on_id ons else i # map on_id ons)"
    using ids unfolding put by (simp add: new del: map_map)
  ultimately show "registry_of (mesh_on ons c) = register (registry_of ons) c"
    by (auto simp: c registry_of_def get_set_cb fun_eq_iff)
qed

lemma lookup_member: "ons_ok ons \<Longrightarrow> on \<in> set ons \<Longrightarrow> on_lookup ons (on_id on) = on"
  by (induction ons) (auto simp: ons_ok_def)

lemma lookup_members: "ons_ok ons \<Longrightarrow> map (on_lookup ons) (map on_id ons) = ons"
  by (simp add: lookup_member map_idI)

lemma calls_registry:
  assumes "ons_ok ons" and "registry_of ons = (is, m)"
  shows "mesh_link_calls ons = List.map_filter (\<lambda>i. m i OnLink) is"
    and "mesh_discover_calls ons = List.map_filter (\<lambda>i. m i OnDiscover) is"
proof -
  have r: "is = map on_id ons" "m = (\<lambda>i. get_cb (on_lookup ons i))"
    using assms(2) by (auto simp: registry_of_def)
  have "List.map_filter g ons = List.map_filter (\<lambda>i. g (on_lookup ons i)) (map on_id ons)"
    for g :: "on_struct \<Rightarrow> nat option"
    using arg_cong [OF lookup_members [OF assms(1)], of "List.map_filter g"]
    by (simp add: List.map_filter_def filter_map comp_def)
  then show "mesh_link_calls ons = List.map_filter (\<lambda>i. m i OnLink) is"
    "mesh_discover_calls ons = List.map_filter (\<lambda>i. m i OnDiscover) is"
    by (simp_all add: mesh_link_calls_def mesh_discover_calls_def r)
qed


text \<open>
  Two frame ports and the mesh: each port registers its discovery under \<open>aaa\<close> (\<open>core.js\<close>), so the
  first port is not asked any more.
\<close>

definition aaa :: bytes where "aaa = [97, 97, 97]"
definition star :: bytes where "star = [42]"


end
