(* ===== verification/CLink.thy ===== *)
theory CLink
  imports Exchange Hashname Util
begin

text \<open>
  The links of a mesh, \<open>src/link.c\<close> with the lookups of \<open>src/mesh.c\<close>: the list of links, loading a
  key, the pipe, and the handshake. What a link uses of the mesh, the cipher sets and the clock is
  the record \<open>link_env\<close>. The events are what leaves the link: a packet handed to its pipe, the
  call of \<open>mesh_link\<close>, and the notice to the pipe that the link is done with it. Channels are the subject of \<open>LinkChans\<close>.
\<close>

record 'e clink =
  cl_id :: hashname
  cl_x :: "'e exchange option"
  cl_key :: "lob option"
  cl_handshake :: "lob option"
  cl_send :: "nat option"
  cl_csid :: u8

record 'e link_env =
  le_self :: "u8 \<Rightarrow> bytes" \<comment> \<open>our key of a cipher set\<close>
  le_remote :: "u8 \<Rightarrow> lob \<Rightarrow> bytes option" \<comment> \<open>\<open>remote_new\<close>: the token; \<open>None\<close> also when the set is not supported\<close>
  le_cs :: "u8 \<Rightarrow> 'e cipher_set"
  le_handshake :: lob \<comment> \<open>\<open>mesh->handshake\<close>\<close>
  le_im :: "u8 \<Rightarrow> lob" \<comment> \<open>\<open>hashname_im\<close> of the mesh's keys\<close>
  le_hash :: "bytes \<Rightarrow> bytes" \<comment> \<open>\<open>e3x_hash\<close>\<close>
  le_keys :: "(u8 \<times> bytes \<times> bytes) list" \<comment> \<open>our keys: id, its digits, key\<close>
  le_now :: u32

datatype link_event = SendPacket nat lob | LinkChanged | PipeClosed nat

section \<open>The list of links\<close>

type_synonym 'e links = "(nat \<times> 'e clink) list"

definition link_new :: "nat \<Rightarrow> 'e links \<Rightarrow> hashname \<Rightarrow> 'e links" where
  "link_new addr ls i =
     (addr, \<lparr>cl_id = hashname_dup (Some i), cl_x = None, cl_key = None, cl_handshake = None,
       cl_send = None, cl_csid = 1\<rparr>) # ls"

definition link_find :: "'e links \<Rightarrow> hashname \<Rightarrow> nat option" where
  "link_find ls i = map_option fst (find (\<lambda>l. hashname_cmp (Some i) (Some (cl_id (snd l))) = 0) ls)"

text \<open>\<open>addr\<close> is the address of the new link, when one is made.\<close>

definition link_get :: "nat \<Rightarrow> 'e links \<Rightarrow> hashname option \<Rightarrow> 'e links \<times> nat option" where
  "link_get addr ls hn =
     (case hn of
        None \<Rightarrow> (ls, None)
      | Some i \<Rightarrow>
          (case link_find ls i of
             Some a \<Rightarrow> (ls, Some a)
           | None \<Rightarrow> (link_new addr ls i, Some addr)))"

definition link_unlist :: "nat \<Rightarrow> 'e links \<Rightarrow> 'e links" where
  "link_unlist addr ls = filter (\<lambda>l. fst l \<noteq> addr) ls"

definition mesh_linkid :: "'e links \<Rightarrow> hashname option \<Rightarrow> nat option" where
  "mesh_linkid ls hn =
     (case hn of
        None \<Rightarrow> None
      | Some i \<Rightarrow>
          map_option fst (find (\<lambda>l. hashname_scmp (Some (cl_id (snd l))) (Some i) = 0) ls))"

text \<open>\<open>strncmp\<close> of strings without their NUL.\<close>

definition strncmp_0 :: "bytes \<Rightarrow> bytes \<Rightarrow> nat \<Rightarrow> bool" where
  "strncmp_0 s t n \<longleftrightarrow> take n (s @ [0]) = take n (t @ [0])"

definition mesh_linked :: "'e links \<Rightarrow> bytes option \<Rightarrow> nat \<Rightarrow> nat option" where
  "mesh_linked ls hn len =
     (case hn of
        None \<Rightarrow> None
      | Some s \<Rightarrow>
          let len = (if len = 0 then length s else len) in
          map_option fst
            (find (\<lambda>l. strncmp_0 (the (hashname_char (Some (cl_id (snd l))))) s len) ls))"

definition mesh_unlink :: "'e clink \<Rightarrow> 'e clink" where
  "mesh_unlink l = l\<lparr>cl_csid := 0\<rparr>"

section \<open>Keys and pipes\<close>

text \<open>The result says whether the link was returned.\<close>

definition link_load :: "'e link_env \<Rightarrow> 'e clink \<Rightarrow> u8 \<Rightarrow> lob \<Rightarrow> 'e clink \<times> bool" where
  "link_load env l csid key =
     (if csid = 0 then (l, False)
      else
        case cl_x l of
          Some x \<Rightarrow> (l\<lparr>cl_csid := xcsid x\<rparr>, True)
        | None \<Rightarrow>
            (case (if body_len key \<noteq> 0 then Some (lob_body lob_new (Some (body key)) (body_len key))
                   else lob_get_base32 key (util_hex [csid])) of
               None \<Rightarrow> (l, False)
             | Some copy \<Rightarrow>
                 (case le_remote env csid copy of
                    None \<Rightarrow> (l, False)
                  | Some token \<Rightarrow>
                      let x = e3x_exchange_new (le_self env csid) csid (body copy) token;
                          x = e3x_exchange_out x (le_now env)
                      in (l\<lparr>cl_x := Some x, cl_csid := csid, cl_key := Some copy\<rparr>, True))))"

definition link_up :: "'e clink \<Rightarrow> bool" where
  "link_up l = (case cl_x l of None \<Rightarrow> False | Some x \<Rightarrow> xout x \<noteq> 0 \<and> xin x \<noteq> 0)"

definition link_send :: "'e clink \<Rightarrow> lob option \<Rightarrow> link_event list" where
  "link_send l outer =
     (case (outer, cl_send l) of (Some p, Some cb) \<Rightarrow> [SendPacket cb p] | _ \<Rightarrow> [])"

definition link_handshake :: "'e link_env \<Rightarrow> 'e clink \<Rightarrow> c_fault + lob option" where
  "link_handshake env l =
     (case cl_x l of
        None \<Rightarrow> Inr None
      | Some x \<Rightarrow>
          let im = le_im env (cl_csid l);
              h = map_option (\<lambda>h. lob_body h (Some (raw im)) (lob_len (Some im)))
                    (lob_copy (Some (le_handshake env)))
          in e3x_exchange_handshake (le_cs env (xcsid x)) (le_hash env) (le_keys env) x h)"

definition link_sync :: "'e link_env \<Rightarrow> 'e clink \<Rightarrow> c_fault + link_event list" where
  "link_sync env l =
     (if cl_x l = None \<or> cl_send l = None then Inr []
      else case link_handshake env l of Inl f \<Rightarrow> Inl f | Inr h \<Rightarrow> Inr (link_send l h))"

definition link_pipe :: "'e link_env \<Rightarrow> 'e clink \<Rightarrow> nat option \<Rightarrow> c_fault + 'e clink \<times> link_event list" where
  "link_pipe env l send =
     (if send = None then Inr (l, [])
      else if send = cl_send l then Inr (l, [])
      else
        let l = l\<lparr>cl_send := send\<rparr> in
        case link_sync env l of Inl f \<Rightarrow> Inl f | Inr es \<Rightarrow> Inr (l, es))"

definition link_resync :: "'e link_env \<Rightarrow> 'e clink \<Rightarrow> c_fault + 'e clink \<times> link_event list" where
  "link_resync env l =
     (case cl_x l of
        None \<Rightarrow> Inr (l, [])
      | Some x \<Rightarrow>
          let l = l\<lparr>cl_x := Some (e3x_exchange_out x (xout x + 1))\<rparr> in
          case link_sync env l of Inl f \<Rightarrow> Inl f | Inr es \<Rightarrow> Inr (l, es))"

section \<open>Handshakes\<close>

definition csid_key :: bytes where "csid_key = map of_char ''csid''"

text \<open>The csid of an inner packet: \<open>util_unhex\<close> of its two digits, 0 if it has none.\<close>

definition inner_csid :: "lob \<Rightarrow> u8" where
  "inner_csid inner =
     (case lob_get inner csid_key of
        None \<Rightarrow> 0
      | Some s \<Rightarrow> (case util_unhex s 2 of c # _ \<Rightarrow> c | [] \<Rightarrow> 0))"

text \<open>
  The rest of \<open>link_receive_handshake\<close> once there is an exchange. The result is the link, what it
  sends, and whether the handshake was taken.
\<close>

definition take_handshake ::
  "'e link_env \<Rightarrow> 'e clink \<Rightarrow> 'e exchange \<Rightarrow> lob \<Rightarrow> lob \<Rightarrow> c_fault + 'e clink \<times> link_event list \<times> bool" where
  "take_handshake env l x inner outer =
     (let cs = le_cs env (xcsid x) in
      if e3x_exchange_verify cs outer \<noteq> 0 then Inr (l, [], False)
      else
        let out = xout x;
            at = lob_get_uint inner at_key;
            ready = link_up l;
            x = e3x_exchange_in x at;
            l = l\<lparr>cl_x := Some x\<rparr>
        in if xin x < out then
             case link_sync env l of Inl f \<Rightarrow> Inl f | Inr es \<Rightarrow> Inr (l, es, True)
           else
             let (x, ok) = e3x_exchange_sync cs x outer;
                 l = l\<lparr>cl_x := Some x\<rparr>
             in if \<not> ok then Inr (l, [], False)
                else
                  case (if out \<noteq> xout x then link_sync env l else Inr []) of
                    Inl f \<Rightarrow> Inl f
                  | Inr es \<Rightarrow>
                      Inr (l\<lparr>cl_handshake := Some inner\<rparr>,
                        es @ (if \<not> ready \<and> link_up l then [LinkChanged] else []), True))"

definition link_receive_handshake ::
  "'e link_env \<Rightarrow> 'e clink \<Rightarrow> lob \<Rightarrow> lob option \<Rightarrow> c_fault + 'e clink \<times> link_event list \<times> bool" where
  "link_receive_handshake env l inner outer =
     (case outer of
        None \<Rightarrow> Inr (l, [], False)
      | Some out \<Rightarrow>
          let (l, ok) = (if cl_key l = None then link_load env l (inner_csid inner) inner else (l, True)) in
          if \<not> ok then Inr (l, [], False)
          else
            case cl_x l of
              None \<Rightarrow> Inr (l, [], False)
            | Some x \<Rightarrow> take_handshake env l x inner out)"

section \<open>Two ends agree\<close>

text \<open>
  What the handshake needs of the environment of an end: the handshake template of the mesh is an
  object without the field \<open>at\<close> that survives the copy, and the key packet is well formed. The
  template of a new mesh is the empty packet.
\<close>

definition env_ok :: "'e link_env \<Rightarrow> bool" where
  "env_ok env \<longleftrightarrow>
     (\<exists>fs. json_is (le_handshake env) fs \<and> at_key \<notin> set (map fst fs)) \<and>
     head_len (le_handshake env) < 65536 \<and> (\<forall>c. lob_ok (le_im env c))"

text \<open>
  An outer packet that the other end can take: its head is one byte, the cipher set verifies it and makes the ephemeral
  key, and it opens to an inner packet whose \<open>at\<close> is the given one.
\<close>

definition takes :: "'f cipher_set \<Rightarrow> (lob \<Rightarrow> lob option) \<Rightarrow> u32 \<Rightarrow> lob \<Rightarrow> bool" where
  "takes cs opn at q \<longleftrightarrow>
     encodable q \<and> head_len q = 1 \<and> 16 \<le> body_len q \<and> cs_verify cs q = 0 \<and> cs_ephemeral cs q \<noteq> None \<and>
     (\<exists>p. opn q = Some p \<and> lob_get_uint p at_key = at)"

text \<open>The cipher set seals for the other end: what it makes of a packet, the other can take.\<close>

definition seals :: "'e cipher_set \<Rightarrow> 'f cipher_set \<Rightarrow> (lob \<Rightarrow> lob option) \<Rightarrow> bool" where
  "seals cs cs' opn \<longleftrightarrow>
     (\<forall>p. lob_ok p \<longrightarrow> (\<exists>q. cs_message cs p = Some q \<and> takes cs' opn (lob_get_uint p at_key) q))"

lemma at_key_ok: "key_ok at_key"
  by (simp add: at_key_def key_ok_def str_char_def)

lemma handshake_says:
  assumes "env_ok env" and "seals (le_cs env (xcsid x)) cs' opn" and "cl_x l = Some x" and "xout x \<noteq> 0"
  shows "\<exists>q. link_handshake env l = Inr (Some q) \<and> takes cs' opn (xout x) q"
proof -
  obtain fs where fs: "json_is (le_handshake env) fs" "at_key \<notin> set (map fst fs)"
    and len: "head_len (le_handshake env) < 65536" and im: "lob_ok (le_im env (cl_csid l))"
    using assms(1) by (auto simp: env_ok_def)
  let ?h = "le_handshake env" and ?im = "le_im env (cl_csid l)"
  let ?b = "lob_body ?h (Some (raw ?im)) (lob_len (Some ?im))"
  have copy: "lob_copy (Some ?h) = Some ?h"
    using lob_direct_raw [OF json_packet_encodable [OF fs(1) len]]
    by (simp add: lob_copy_def lob_raw_def lob_parse_direct)
  have "json_is ?b fs"
    using fs(1) lob_body_result [of ?h "Some (raw ?im)" "lob_len (Some ?im)"] lob_len_raw [OF im]
    by (auto simp: json_is_def) (simp add: lob_body_def)
  then obtain p where p: "lob_set_uint ?b at_key (xout x) = Inr p" "lob_ok p" "lob_get_uint p at_key = xout x"
    using set_uint_get [OF _ disjI2 [OF fs(2)] at_key_ok] by blast
  then show ?thesis
    using assms(2-4) copy by (auto simp: link_handshake_def e3x_exchange_handshake_def seals_def Let_def)
qed

text \<open>
  An end whose key is loaded and whose pipe is set: cipher set, order, and the two counters.
\<close>

definition at_end :: "u8 \<Rightarrow> nat \<Rightarrow> 'e clink \<Rightarrow> u32 \<Rightarrow> u32 \<Rightarrow> bool" where
  "at_end c r l i out \<longleftrightarrow>
     cl_key l \<noteq> None \<and> cl_send l \<noteq> None \<and>
     (\<exists>x. cl_x l = Some x \<and> xcsid x = c \<and> xorder x = r \<and> xin x = i \<and> xout x = out)"

definition sent :: "link_event list \<Rightarrow> lob list" where
  "sent es = concat (map (\<lambda>e. case e of SendPacket _ q \<Rightarrow> [q] | _ \<Rightarrow> []) es)"

lemma sent_simps [simp]:
  "sent [] = []" "sent (SendPacket a q # es) = q # sent es" "sent (LinkChanged # es) = sent es"
  "sent (es @ fs) = sent es @ sent fs"
  by (simp_all add: sent_def)

lemma sync_says:
  assumes "env_ok env" and "seals (le_cs env c) cs' opn" and "at_end c r l i out" and "out \<noteq> 0"
  shows "\<exists>b q. link_sync env l = Inr [SendPacket b q] \<and> takes cs' opn out q"
proof -
  obtain x b where l: "cl_x l = Some x" "xcsid x = c" "xout x = out" "cl_send l = Some b"
    using assms(3) by (auto simp: at_end_def)
  show ?thesis
    using handshake_says [of env x cs' opn l] assms l by (auto simp: link_sync_def link_send_def)
qed

text \<open>What an end does with a handshake, by its counters.\<close>

definition next_in :: "nat \<Rightarrow> u32 \<Rightarrow> u32 \<Rightarrow> u32 \<Rightarrow> u32" where
  "next_in r i out at =
     (if at \<noteq> 0 \<and> at > i \<and> at \<ge> out \<and> (unat (at mod 2) + 1 = r \<or> at = out) then at else i)"

lemma exchange_in_next: "e3x_exchange_in x at = x\<lparr>xin := next_in (xorder x) (xin x) (xout x) at\<rparr>"
  by (cases x) (auto simp: e3x_exchange_in_def next_in_def)

lemma exchange_sync_ok:
  assumes "16 \<le> body_len q" and "cs_ephemeral cs q \<noteq> None"
  shows "\<exists>y. e3x_exchange_sync cs x q = (y, True) \<and> xcsid y = xcsid x \<and> xorder y = xorder x \<and>
    xin y = xin x \<and> xout y = max (xin x) (xout x)"
proof -
  obtain e where "cs_ephemeral cs q = Some e" using assms(2) by blast
  then show ?thesis using assms(1) by (auto simp: e3x_exchange_sync_def Let_def max_def not_less)
qed

lemma receive_result:
  assumes "env_ok env" and "seals (le_cs env c) cs' opn'" and "at_end c r l i out" and "out \<noteq> 0"
    and "takes (le_cs env c) opn at q" and "opn q = Some p"
  defines "i' \<equiv> next_in r i out at"
  shows "\<exists>l' es. link_receive_handshake env l p (Some q) = Inr (l', es, True) \<and>
    at_end c r l' i' (max i' out) \<and>
    (if i' = out then sent es = [] else \<exists>h. sent es = [h] \<and> takes cs' opn' (max i' out) h)"
proof -
  obtain x where x: "cl_x l = Some x" "xcsid x = c" "xorder x = r" "xin x = i" "xout x = out"
    and l: "cl_key l \<noteq> None" "cl_send l \<noteq> None"
    using assms(3) by (auto simp: at_end_def)
  have q: "16 \<le> body_len q" "cs_verify (le_cs env c) q = 0" "cs_ephemeral (le_cs env c) q \<noteq> None"
    "lob_get_uint p at_key = at"
    using assms(5,6) by (auto simp: takes_def)
  have rcv: "link_receive_handshake env l p (Some q) = take_handshake env l x p q"
    using l x by (auto simp: link_receive_handshake_def)
  let ?x = "x\<lparr>xin := i'\<rparr>" and ?l = "l\<lparr>cl_x := Some (x\<lparr>xin := i'\<rparr>)\<rparr>"
  have x': "e3x_exchange_in x at = ?x" using x by (simp add: exchange_in_next i'_def)
  have end1: "at_end c r ?l i' out" using x l by (simp add: at_end_def)
  show ?thesis
  proof (cases "i' < out")
    case True
    obtain b h where h: "link_sync env ?l = Inr [SendPacket b h]" "takes cs' opn' out h"
      using sync_says [OF assms(1,2) end1 assms(4)] by blast
    have "take_handshake env l x p q = Inr (?l, [SendPacket b h], True)"
      using True x q x' h by (simp add: take_handshake_def e3x_exchange_verify_def)
    with True h end1 show ?thesis unfolding rcv by (auto simp: max_def)
  next
    case False
    obtain y where y: "e3x_exchange_sync (le_cs env c) ?x q = (y, True)"
      "xcsid y = c" "xorder y = r" "xin y = i'" "xout y = max i' out"
      using exchange_sync_ok [OF q(1,3), of ?x] x by auto
    let ?l2 = "l\<lparr>cl_x := Some y\<rparr>"
    have end2: "at_end c r ?l2 i' (max i' out)" using y l by (simp add: at_end_def)
    have end3: "at_end c r (?l2\<lparr>cl_handshake := Some p\<rparr>) i' (max i' out)" using y l by (simp add: at_end_def)
    have max0: "max i' out \<noteq> 0" using False assms(4) by (auto simp: max_def not_less)
    obtain b h where h: "link_sync env ?l2 = Inr [SendPacket b h]" "takes cs' opn' (max i' out) h"
      using sync_says [OF assms(1,2) end2 max0] by blast
    have "take_handshake env l x p q =
      Inr (?l2\<lparr>cl_handshake := Some p\<rparr>,
        (if out \<noteq> max i' out then [SendPacket b h] else []) @
          (if \<not> link_up l \<and> link_up ?l2 then [LinkChanged] else []), True)"
      using False x q x' h y
      by (simp add: take_handshake_def e3x_exchange_verify_def link_up_def)
    with False h end3 show ?thesis unfolding rcv by (auto simp: max_def)
  qed
qed

text \<open>
  Two ends and the outer packets on the way to each. A packet on the way may be delivered at any
  time, in any order: it is opened by the end's own key and received.
\<close>

record 'e hs_net =
  na :: "'e clink"
  nb :: "'e clink"
  to_a :: "lob list"
  to_b :: "lob list"

inductive hs_step ::
  "'e link_env \<Rightarrow> (lob \<Rightarrow> lob option) \<Rightarrow> 'e link_env \<Rightarrow> (lob \<Rightarrow> lob option) \<Rightarrow> 'e hs_net \<Rightarrow> 'e hs_net \<Rightarrow> bool"
  for ea opa eb opb where
  at_a: "to_a s = qs @ q # qs' \<Longrightarrow> opa q = Some p \<Longrightarrow>
    link_receive_handshake ea (na s) p (Some q) = Inr (l, es, ok) \<Longrightarrow>
    hs_step ea opa eb opb s (s\<lparr>na := l, to_a := qs @ qs', to_b := to_b s @ sent es\<rparr>)"
| at_b: "to_b s = qs @ q # qs' \<Longrightarrow> opb q = Some p \<Longrightarrow>
    link_receive_handshake eb (nb s) p (Some q) = Inr (l, es, ok) \<Longrightarrow>
    hs_step ea opa eb opb s (s\<lparr>nb := l, to_b := qs @ qs', to_a := to_a s @ sent es\<rparr>)"

definition swap_net :: "'e hs_net \<Rightarrow> 'e hs_net" where
  "swap_net s = \<lparr>na = nb s, nb = na s, to_a = to_b s, to_b = to_a s\<rparr>"

lemma swap_swap [simp]: "swap_net (swap_net s) = s"
  by (simp add: swap_net_def)

lemma swap_step:
  assumes "hs_step ea opa eb opb s t"
  shows "hs_step eb opb ea opa (swap_net s) (swap_net t)"
  using assms
proof cases
  case (at_a qs q qs' p l es ok)
  then show ?thesis using hs_step.at_b [of "swap_net s" qs q qs' opa p ea l es ok eb opb]
    by (simp add: swap_net_def)
next
  case (at_b qs q qs' p l es ok)
  then show ?thesis using hs_step.at_a [of "swap_net s" qs q qs' opb p eb l es ok ea opa]
    by (simp add: swap_net_def)
qed

definition at_of :: "(lob \<Rightarrow> lob option) \<Rightarrow> lob \<Rightarrow> u32" where
  "at_of opn q = lob_get_uint (the (opn q)) at_key"

lemma takes_at: "takes cs opn at q \<Longrightarrow> at_of opn q = at"
  by (auto simp: takes_def at_of_def)

text \<open>
  The state while the ends agree on the higher counter \<open>m\<close>, that of end a. A packet with the lower
  counter costs at most three deliveries, one to the lower end two, one to the higher end one.
\<close>

definition agreeing ::
  "'e link_env \<Rightarrow> (lob \<Rightarrow> lob option) \<Rightarrow> 'e link_env \<Rightarrow> (lob \<Rightarrow> lob option) \<Rightarrow> u8 \<Rightarrow> nat \<Rightarrow> nat \<Rightarrow> u32 \<Rightarrow> u32 \<Rightarrow>
    'e hs_net \<Rightarrow> bool" where
  "agreeing ea opa eb opb c ra rb m n s \<longleftrightarrow>
     (\<exists>i j out. at_end c ra (na s) i m \<and> at_end c rb (nb s) j out \<and>
        (i = 0 \<or> i = m) \<and> (j = 0 \<and> out = n \<and> i = 0 \<and> (to_b s \<noteq> [] \<or> to_a s \<noteq> []) \<and> list_all (\<lambda>q. at_of opa q = n) (to_a s) \<or>
      j = m \<and> out = m) \<and>
        list_all (takes (le_cs eb c) opb m) (to_b s) \<and>
        list_all (\<lambda>q. takes (le_cs ea c) opa (at_of opa q) q \<and> (at_of opa q = m \<or> at_of opa q = n)) (to_a s) \<and>
        (j = m \<and> i = 0 \<longrightarrow> (\<exists>q \<in> set (to_a s). at_of opa q = m)))"

definition cost :: "(lob \<Rightarrow> lob option) \<Rightarrow> u32 \<Rightarrow> 'e hs_net \<Rightarrow> nat" where
  "cost opa m s = 2 * length (to_b s) + sum_list (map (\<lambda>q. if at_of opa q = m then 1 else 3) (to_a s))"

lemma agreeing_at_a:
  assumes "env_ok ea" and "seals (le_cs ea c) (le_cs eb c) opb"
    and "n < m" and "n \<noteq> 0" and "agreeing ea opa eb opb c ra rb m n s" and "to_a s = qs @ q # qs'"
  shows "\<exists>p l es. opa q = Some p \<and> link_receive_handshake ea (na s) p (Some q) = Inr (l, es, True) \<and>
    agreeing ea opa eb opb c ra rb m n (s\<lparr>na := l, to_a := qs @ qs', to_b := to_b s @ sent es\<rparr>) \<and>
    cost opa m (s\<lparr>na := l, to_a := qs @ qs', to_b := to_b s @ sent es\<rparr>) < cost opa m s"
proof -
  obtain i j out where s: "at_end c ra (na s) i m" "at_end c rb (nb s) j out" "i = 0 \<or> i = m"
    "j = 0 \<and> out = n \<and> i = 0 \<and> (to_b s \<noteq> [] \<or> to_a s \<noteq> []) \<and> list_all (\<lambda>q. at_of opa q = n) (to_a s) \<or>
      j = m \<and> out = m" "list_all (takes (le_cs eb c) opb m) (to_b s)"
    "list_all (\<lambda>q. takes (le_cs ea c) opa (at_of opa q) q \<and> (at_of opa q = m \<or> at_of opa q = n)) (to_a s)"
    "j = m \<and> i = 0 \<longrightarrow> (\<exists>q \<in> set (to_a s). at_of opa q = m)"
    using assms(5) unfolding agreeing_def by blast
  let ?at = "at_of opa q" and ?i = "next_in ra i m (at_of opa q)"
  have q: "takes (le_cs ea c) opa ?at q" "?at = m \<or> ?at = n" using s(6) assms(6) by auto
  obtain p where p: "opa q = Some p" using q(1) by (auto simp: takes_def)
  have m: "m \<noteq> 0" "0 < m" using assms(3) le_less_trans [OF word_zero_le [of n]] by auto
  have i: "?i = (if ?at = m then m else i)"
    using q(2) s(3) m assms(3) by (auto simp: next_in_def not_le)
  obtain l es where l: "link_receive_handshake ea (na s) p (Some q) = Inr (l, es, True)"
    "at_end c ra l ?i (max ?i m)"
    "if ?i = m then sent es = [] else \<exists>h. sent es = [h] \<and> takes (le_cs eb c) opb (max ?i m) h"
    using receive_result [OF assms(1,2) s(1) m(1) q(1) p] by blast
  have max: "max ?i m = m" "?i = 0 \<or> ?i = m" using i s(3) by auto
  have "agreeing ea opa eb opb c ra rb m n (s\<lparr>na := l, to_a := qs @ qs', to_b := to_b s @ sent es\<rparr>)"
    unfolding agreeing_def
    by (rule exI [of _ ?i], rule exI [of _ j], rule exI [of _ out])
      (use s l max i m assms(3,6) in \<open>auto split: if_splits\<close>)
  moreover have "cost opa m (s\<lparr>na := l, to_a := qs @ qs', to_b := to_b s @ sent es\<rparr>) < cost opa m s"
    using l(3) i assms(6) by (auto simp: cost_def split: if_splits)
  ultimately show ?thesis using p l(1) by blast
qed

lemma agreeing_at_b:
  assumes "env_ok eb" and "seals (le_cs eb c) (le_cs ea c) opa"
    and "n < m" and "n \<noteq> 0" and "unat (m mod 2) + 1 = rb"
    and "agreeing ea opa eb opb c ra rb m n s" and "to_b s = qs @ q # qs'"
  shows "\<exists>p l es. opb q = Some p \<and> link_receive_handshake eb (nb s) p (Some q) = Inr (l, es, True) \<and>
    agreeing ea opa eb opb c ra rb m n (s\<lparr>nb := l, to_b := qs @ qs', to_a := to_a s @ sent es\<rparr>) \<and>
    cost opa m (s\<lparr>nb := l, to_b := qs @ qs', to_a := to_a s @ sent es\<rparr>) < cost opa m s"
proof -
  obtain i j out where s: "at_end c ra (na s) i m" "at_end c rb (nb s) j out" "i = 0 \<or> i = m"
    "j = 0 \<and> out = n \<and> i = 0 \<and> (to_b s \<noteq> [] \<or> to_a s \<noteq> []) \<and> list_all (\<lambda>q. at_of opa q = n) (to_a s) \<or>
      j = m \<and> out = m" "list_all (takes (le_cs eb c) opb m) (to_b s)"
    "list_all (\<lambda>q. takes (le_cs ea c) opa (at_of opa q) q \<and> (at_of opa q = m \<or> at_of opa q = n)) (to_a s)"
    "j = m \<and> i = 0 \<longrightarrow> (\<exists>q \<in> set (to_a s). at_of opa q = m)"
    using assms(6) unfolding agreeing_def by blast
  have q: "takes (le_cs eb c) opb m q" using s(5) assms(7) by auto
  obtain p where p: "opb q = Some p" using q by (auto simp: takes_def)
  have m: "m \<noteq> 0" "0 < m" "out \<noteq> 0" "j < m \<or> j = m"
    using assms(3,4) le_less_trans [OF word_zero_le [of n]] s(4) by auto
  have j: "next_in rb j out m = m"
    using s(4) m assms(3,5) by (auto simp: next_in_def)
  obtain l es where l: "link_receive_handshake eb (nb s) p (Some q) = Inr (l, es, True)"
    "at_end c rb l m (max m out)"
    "if m = out then sent es = [] else \<exists>h. sent es = [h] \<and> takes (le_cs ea c) opa (max m out) h"
    using receive_result [OF assms(1,2) s(2) m(3) q p] unfolding j by blast
  have max: "max m out = m" using s(4) assms(3) by (auto simp: max_def)
  have new: "j = m \<and> sent es = [] \<or>
      (\<exists>h. sent es = [h] \<and> takes (le_cs ea c) opa (at_of opa h) h \<and> at_of opa h = m)"
    using l(3) s(4) max assms(3) takes_at [of "le_cs ea c" opa m] by (auto split: if_splits)
  have "agreeing ea opa eb opb c ra rb m n (s\<lparr>nb := l, to_b := qs @ qs', to_a := to_a s @ sent es\<rparr>)"
    unfolding agreeing_def
    by (rule exI [of _ i], rule exI [of _ m], rule exI [of _ m])
      (use s l(2) max new m assms(7) in auto)
  moreover have "cost opa m (s\<lparr>nb := l, to_b := qs @ qs', to_a := to_a s @ sent es\<rparr>) < cost opa m s"
    using new assms(7) by (auto simp: cost_def)
  ultimately show ?thesis using p l(1) by blast
qed

text \<open>The costs bound the number of deliveries that are still to come.\<close>

lemma agreeing_step:
  assumes "env_ok ea" and "env_ok eb" and "seals (le_cs ea c) (le_cs eb c) opb"
    and "seals (le_cs eb c) (le_cs ea c) opa" and "n < m" and "n \<noteq> 0" and "unat (m mod 2) + 1 = rb"
    and "agreeing ea opa eb opb c ra rb m n s"
  shows "hs_step ea opa eb opb s t \<Longrightarrow> agreeing ea opa eb opb c ra rb m n t \<and> cost opa m t < cost opa m s"
    and "to_a s \<noteq> [] \<or> to_b s \<noteq> [] \<Longrightarrow> \<exists>t. hs_step ea opa eb opb s t"
proof -
  note a = agreeing_at_a [OF assms(1,3,5,6,8)] and b = agreeing_at_b [OF assms(2,4,5,6,7,8)]
  show "hs_step ea opa eb opb s t \<Longrightarrow> agreeing ea opa eb opb c ra rb m n t \<and> cost opa m t < cost opa m s"
  proof (erule hs_step.cases)
    fix sa qs q qs' p l es ok
    assume "s = sa" "t = sa\<lparr>na := l, to_a := qs @ qs', to_b := to_b sa @ sent es\<rparr>"
      "to_a sa = qs @ q # qs'" "opa q = Some p" "link_receive_handshake ea (na sa) p (Some q) = Inr (l, es, ok)"
    with a [of qs q qs'] show ?thesis by auto
  next
    fix sa qs q qs' p l es ok
    assume "s = sa" "t = sa\<lparr>nb := l, to_b := qs @ qs', to_a := to_a sa @ sent es\<rparr>"
      "to_b sa = qs @ q # qs'" "opb q = Some p" "link_receive_handshake eb (nb sa) p (Some q) = Inr (l, es, ok)"
    with b [of qs q qs'] show ?thesis by auto
  qed
  assume "to_a s \<noteq> [] \<or> to_b s \<noteq> []"
  then consider q qs where "to_a s = [] @ q # qs" | q qs where "to_b s = [] @ q # qs"
    by (auto simp: neq_Nil_conv)
  then show "\<exists>t. hs_step ea opa eb opb s t"
  proof cases
    case (1 q qs)
    then obtain p l es where "opa q = Some p" "link_receive_handshake ea (na s) p (Some q) = Inr (l, es, True)"
      using a by blast
    with 1 show ?thesis using hs_step.at_a [of s "[]" q qs opa p ea l es True] by blast
  next
    case (2 q qs)
    then obtain p l es where "opb q = Some p" "link_receive_handshake eb (nb s) p (Some q) = Inr (l, es, True)"
      using b by blast
    with 2 show ?thesis using hs_step.at_b [of s "[]" q qs opb p eb l es True] by blast
  qed
qed

definition agreed :: "u32 \<Rightarrow> 'e hs_net \<Rightarrow> bool" where
  "agreed m s \<longleftrightarrow>
     link_up (na s) \<and> link_up (nb s) \<and>
     (\<exists>x y. cl_x (na s) = Some x \<and> cl_x (nb s) = Some y \<and>
        xin x = m \<and> xout x = m \<and> xin y = m \<and> xout y = m)"

text \<open>The run of a network: at most \<open>n\<close> deliveries, and at the end the two ends agree.\<close>

definition settles ::
  "'e link_env \<Rightarrow> (lob \<Rightarrow> lob option) \<Rightarrow> 'e link_env \<Rightarrow> (lob \<Rightarrow> lob option) \<Rightarrow> u32 \<Rightarrow> nat \<Rightarrow> 'e hs_net \<Rightarrow> bool" where
  "settles ea opa eb opb m n s \<longleftrightarrow>
     (\<forall>k t. (hs_step ea opa eb opb ^^ k) s t \<longrightarrow>
        k \<le> n \<and> (if to_a t = [] \<and> to_b t = [] then agreed m t else \<exists>u. hs_step ea opa eb opb t u))"

text \<open>
  Either end may have the higher counter. In a state with the cost \<open>k\<close> every packet on the way can be
  taken, every delivery lowers the cost, and without packets on the way the ends agree.
\<close>

definition converging ::
  "'e link_env \<Rightarrow> (lob \<Rightarrow> lob option) \<Rightarrow> 'e link_env \<Rightarrow> (lob \<Rightarrow> lob option) \<Rightarrow> u8 \<Rightarrow> nat \<Rightarrow> nat \<Rightarrow> u32 \<Rightarrow> u32 \<Rightarrow>
    nat \<Rightarrow> 'e hs_net \<Rightarrow> bool" where
  "converging ea opa eb opb c ra rb m n k s \<longleftrightarrow>
     (if n < m then agreeing ea opa eb opb c ra rb m n s \<and> cost opa m s \<le> k
      else m < n \<and> agreeing eb opb ea opa c rb ra n m (swap_net s) \<and> cost opb n (swap_net s) \<le> k)"

lemma swap_sel [simp]:
  "na (swap_net s) = nb s" "nb (swap_net s) = na s" "to_a (swap_net s) = to_b s" "to_b (swap_net s) = to_a s"
  by (simp_all add: swap_net_def)

text \<open>The two ends of a link that is being set up: their environments, orders and first counters.\<close>

definition ends_ok ::
  "'e link_env \<Rightarrow> (lob \<Rightarrow> lob option) \<Rightarrow> 'e link_env \<Rightarrow> (lob \<Rightarrow> lob option) \<Rightarrow> u8 \<Rightarrow> nat \<Rightarrow> nat \<Rightarrow> u32 \<Rightarrow> u32 \<Rightarrow> bool" where
  "ends_ok ea opa eb opb c ra rb m n \<longleftrightarrow>
     env_ok ea \<and> env_ok eb \<and> seals (le_cs ea c) (le_cs eb c) opb \<and> seals (le_cs eb c) (le_cs ea c) opa \<and>
     m \<noteq> 0 \<and> n \<noteq> 0 \<and> unat (m mod 2) + 1 = rb \<and> unat (n mod 2) + 1 = ra"

lemma agreeing_agreed:
  assumes "n < m" and "agreeing ea opa eb opb c ra rb m n s" and "to_a s = []" and "to_b s = []"
  shows "agreed m s"
  using assms le_less_trans [OF word_zero_le [of n]]
  by (auto simp: agreeing_def agreed_def at_end_def link_up_def)

lemma agreeing_takes:
  assumes "agreeing ea opa eb opb c ra rb m n s"
  shows "q \<in> set (to_a s) \<Longrightarrow> \<exists>at. takes (le_cs ea c) opa at q"
    and "q \<in> set (to_b s) \<Longrightarrow> \<exists>at. takes (le_cs eb c) opb at q"
proof -
  have "list_all (takes (le_cs eb c) opb m) (to_b s)"
    "list_all (\<lambda>q. takes (le_cs ea c) opa (at_of opa q) q \<and> (at_of opa q = m \<or> at_of opa q = n)) (to_a s)"
    using assms unfolding agreeing_def by blast+
  then show "q \<in> set (to_a s) \<Longrightarrow> \<exists>at. takes (le_cs ea c) opa at q"
    "q \<in> set (to_b s) \<Longrightarrow> \<exists>at. takes (le_cs eb c) opb at q"
    unfolding list_all_iff by blast+
qed

lemma converging_step:
  assumes "ends_ok ea opa eb opb c ra rb m n" and "converging ea opa eb opb c ra rb m n k s"
    and "hs_step ea opa eb opb s t"
  shows "0 < k \<and> converging ea opa eb opb c ra rb m n (k - 1) t"
proof (cases "n < m")
  case True
  then show ?thesis
    using agreeing_step(1) [of ea eb c opb opa n m rb ra s t] assms
    by (fastforce simp: converging_def ends_ok_def)
next
  case False
  then show ?thesis
    using agreeing_step(1) [of eb ea c opa opb m n ra rb "swap_net s" "swap_net t"] swap_step [OF assms(3)] assms(1,2)
    by (fastforce simp: converging_def ends_ok_def)
qed

lemma converging_progress:
  assumes "ends_ok ea opa eb opb c ra rb m n" and "converging ea opa eb opb c ra rb m n k s"
    and "to_a s \<noteq> [] \<or> to_b s \<noteq> []"
  shows "\<exists>t. hs_step ea opa eb opb s t"
proof (cases "n < m")
  case True
  then show ?thesis
    using agreeing_step(2) [of ea eb c opb opa n m rb ra s] assms by (simp add: converging_def ends_ok_def)
next
  case False
  then obtain t where "hs_step eb opb ea opa (swap_net s) t"
    using agreeing_step(2) [of eb ea c opa opb m n ra rb "swap_net s"] assms
    by (auto simp: converging_def ends_ok_def)
  then show ?thesis using swap_step [of eb opb ea opa "swap_net s" t] by auto
qed

lemma converging_agreed:
  assumes "converging ea opa eb opb c ra rb m n k s" and "to_a s = []" and "to_b s = []"
  shows "agreed (max m n) s"
proof (cases "n < m")
  case True
  then show ?thesis
    using assms agreeing_agreed [of n m] by (auto simp: converging_def max_absorb1 less_imp_le)
next
  case False
  then have "m < n" "agreed n (swap_net s)"
    using assms agreeing_agreed [of m n _ _ _ _ _ _ _ "swap_net s"] by (auto simp: converging_def)
  then show ?thesis by (auto simp: agreed_def max_absorb2 less_imp_le)
qed

lemma converging_takes:
  assumes "converging ea opa eb opb c ra rb m n k s"
  shows "q \<in> set (to_a s) \<Longrightarrow> \<exists>at. takes (le_cs ea c) opa at q"
    and "q \<in> set (to_b s) \<Longrightarrow> \<exists>at. takes (le_cs eb c) opb at q"
  using assms agreeing_takes [of ea opa eb opb c ra rb m n s q]
    agreeing_takes [of eb opb ea opa c rb ra n m "swap_net s" q]
  by (auto simp: converging_def split: if_splits)

lemma converging_receives:
  assumes "ends_ok ea opa eb opb c ra rb m n" and "converging ea opa eb opb c ra rb m n k s"
  shows "q \<in> set (to_a s) \<Longrightarrow>
      \<exists>p l es. opa q = Some p \<and> link_receive_handshake ea (na s) p (Some q) = Inr (l, es, True)"
    and "q \<in> set (to_b s) \<Longrightarrow>
      \<exists>p l es. opb q = Some p \<and> link_receive_handshake eb (nb s) p (Some q) = Inr (l, es, True)"
proof -
  show "\<exists>p l es. opa q = Some p \<and> link_receive_handshake ea (na s) p (Some q) = Inr (l, es, True)"
    if q: "q \<in> set (to_a s)"
  proof -
    obtain qs qs' where "to_a s = qs @ q # qs'" using q by (meson split_list)
    then show ?thesis
      using assms agreeing_at_a [of ea c eb opb n m opa ra rb s qs q qs']
        agreeing_at_b [of ea c eb opb m n ra opa rb "swap_net s" qs q qs']
      unfolding converging_def ends_ok_def by (auto split: if_splits)
  qed
  show "\<exists>p l es. opb q = Some p \<and> link_receive_handshake eb (nb s) p (Some q) = Inr (l, es, True)"
    if q: "q \<in> set (to_b s)"
  proof -
    obtain qs qs' where "to_b s = qs @ q # qs'" using q by (meson split_list)
    then show ?thesis
      using assms agreeing_at_b [of eb c ea opa n m rb opb ra s qs q qs']
        agreeing_at_a [of eb c ea opa m n opb rb ra "swap_net s" qs q qs']
      unfolding converging_def ends_ok_def by (auto split: if_splits)
  qed
qed

lemma converging_settles:
  assumes "ends_ok ea opa eb opb c ra rb m n" and "converging ea opa eb opb c ra rb m n b s"
  shows "settles ea opa eb opb (max m n) b s"
  unfolding settles_def
proof (intro allI impI)
  fix k t
  assume "(hs_step ea opa eb opb ^^ k) s t"
  then have t: "k \<le> b \<and> converging ea opa eb opb c ra rb m n (b - k) t"
  proof (induction k arbitrary: t)
    case (Suc k)
    then obtain u where u: "(hs_step ea opa eb opb ^^ k) s u" "hs_step ea opa eb opb u t" by auto
    with Suc.IH have "k \<le> b" "converging ea opa eb opb c ra rb m n (b - k) u" by auto
    then show ?case using converging_step [OF assms(1) _ u(2)] by fastforce
  qed (use assms in simp)
  then show "k \<le> b \<and>
      (if to_a t = [] \<and> to_b t = [] then agreed (max m n) t else \<exists>u. hs_step ea opa eb opb t u)"
    using converging_agreed converging_progress [OF assms(1)] by fastforce
qed

section \<open>From the keys to the agreement\<close>

text \<open>The first outgoing counter of an end, by its order and its clock.\<close>

definition start_at :: "nat \<Rightarrow> u32 \<Rightarrow> u32" where
  "start_at r now = (if even (unat now) \<longleftrightarrow> r = 2 then now else now + 1)"

lemma mod_2_even: "((w :: u32) mod 2 = 0) \<longleftrightarrow> even (unat w)"
  by (simp add: word_unat_eq_iff unat_mod even_iff_mod_2_eq_zero)

lemma unat_mod_2: "unat ((w :: u32) mod 2) = (if even (unat w) then 0 else 1)"
  using unat_mod [of w 2] by (simp add: mod2_eq_if)

lemma start_at_parity:
  assumes "now \<noteq> 0" and "now < - 1" and "r = 1 \<or> r = 2"
  shows "start_at r now \<noteq> 0" and "unat (start_at r now mod 2) + 1 = 3 - r"
proof -
  have "unat now < 4294967295" using assms(2) by (simp add: word_less_nat_alt unsigned_minus_1_eq_mask mask_eq_exp_minus_1)
  then have "unat (now + 1) = unat now + 1" by (simp add: unat_word_ariths)
  then have "unat (start_at r now) = (if even (unat now) \<longleftrightarrow> r = 2 then unat now else unat now + 1)"
    by (simp add: start_at_def)
  moreover have "unat now \<noteq> 0" using assms(1) by (simp add: unat_eq_0)
  ultimately have "unat (start_at r now) \<noteq> 0" "even (unat (start_at r now)) \<longleftrightarrow> r = 2" by auto
  then show "start_at r now \<noteq> 0" "unat (start_at r now mod 2) + 1 = 3 - r"
    using assms(3) by (simp_all add: unat_mod_2 split: if_splits) auto
qed

lemma exchange_out_new:
  assumes "now \<noteq> 0" and "x = e3x_exchange_new self c key token"
  shows "e3x_exchange_out x now = x\<lparr>xout := start_at (xorder x) now\<rparr>"
  using assms
  by (auto simp: e3x_exchange_out_def e3x_exchange_new_def start_at_def mod_2_even Let_def word_neq_0_conv)

text \<open>An end that loads the raw key of the other and is given a pipe sends its first handshake.\<close>

lemma pipe_starts:
  assumes "env_ok env" and "seals (le_cs env c) cs' opn" and "cl_x l = None" and "cl_send l = None"
    and "link_load env l c key = (l', True)" and "lob_ok key" and "body_len key \<noteq> 0"
    and "le_now env \<noteq> 0" and "le_now env < - 1"
  defines "r \<equiv> exchange_order (body key) (le_self env c)"
  assumes "r = 1 \<or> r = 2"
  shows "\<exists>l'' es q. link_pipe env l' (Some pipe) = Inr (l'', es) \<and>
    at_end c r l'' 0 (start_at r (le_now env)) \<and> sent es = [q] \<and> takes cs' opn (start_at r (le_now env)) q"
proof -
  let ?copy = "lob_body lob_new (Some (body key)) (body_len key)"
  have copy: "body ?copy = body key"
    using lob_body_result(3) [OF lob_new_ok, of "Some (body key)" "body_len key"] lob_raw_parts(3) [OF assms(6)]
    by simp
  obtain token where l': "l' = l\<lparr>cl_x := Some (e3x_exchange_out
      (e3x_exchange_new (le_self env c) c (body key) token) (le_now env)), cl_csid := c, cl_key := Some ?copy\<rparr>"
    using assms(3,5,7) copy by (auto simp: link_load_def Let_def split: if_splits option.splits)
  have end1: "at_end c r (l'\<lparr>cl_send := Some pipe\<rparr>) 0 (start_at r (le_now env))"
    by (simp add: at_end_def l' exchange_out_new [OF assms(8) refl])
      (simp add: e3x_exchange_new_def r_def Let_def)
  obtain b q where q: "link_sync env (l'\<lparr>cl_send := Some pipe\<rparr>) = Inr [SendPacket b q]"
    "takes cs' opn (start_at r (le_now env)) q"
    using sync_says [OF assms(1,2) end1] start_at_parity(1) [OF assms(8,9,11)] by blast
  have "cl_send l' = None" using assms(4) l' by simp
  then have "link_pipe env l' (Some pipe) = Inr (l'\<lparr>cl_send := Some pipe\<rparr>, [SendPacket b q])"
    using q by (simp add: link_pipe_def)
  with end1 q(2) show ?thesis by auto
qed

lemma converging_start:
  assumes "ends_ok ea opa eb opb c ra rb m n" and "m \<noteq> n" and "at_end c ra a 0 m" and "at_end c rb b 0 n"
    and "takes (le_cs eb c) opb m q" and "ps = [] \<or> (\<exists>p. ps = [p] \<and> takes (le_cs ea c) opa n p)"
  shows "converging ea opa eb opb c ra rb m n 5 \<lparr>na = a, nb = b, to_a = ps, to_b = [q]\<rparr>"
proof -
  let ?s = "\<lparr>na = a, nb = b, to_a = ps, to_b = [q]\<rparr>"
  have q: "at_of opb q = m" using assms(5) by (rule takes_at)
  have ps: "list_all (\<lambda>p. takes (le_cs ea c) opa n p \<and> at_of opa p = n) ps" "length ps \<le> 1"
    using assms(6) takes_at by auto
  have nz: "m \<noteq> 0" "n \<noteq> 0" using assms(1) by (simp_all add: ends_ok_def)
  show ?thesis
  proof (cases "n < m")
    case True
    have "agreeing ea opa eb opb c ra rb m n ?s"
      unfolding agreeing_def
      by (rule exI [of _ 0], rule exI [of _ 0], rule exI [of _ n])
        (use assms(3-5) ps(1) nz in \<open>auto simp: list_all_iff\<close>)
    moreover have "cost opa m ?s \<le> 5"
      using ps assms(2) by (cases ps) (auto simp: cost_def)
    ultimately show ?thesis using True by (simp add: converging_def)
  next
    case False
    then have lt: "m < n" using assms(2) by simp
    have "agreeing eb opb ea opa c rb ra n m (swap_net ?s)"
      unfolding agreeing_def
      by (rule exI [of _ 0], rule exI [of _ 0], rule exI [of _ m])
        (use assms(3-5) ps(1) nz q in \<open>auto simp: list_all_iff\<close>)
    moreover have "cost opb n (swap_net ?s) \<le> 5"
      using ps(2) q assms(2) by (simp add: cost_def)
    ultimately show ?thesis using lt False by (simp add: converging_def)
  qed
qed


text \<open>
  An instance: the sealed packet is the body behind sixteen bytes and the length of its head in
  unary; keys have one byte.
\<close>

definition demo_seal :: "lob \<Rightarrow> lob" where
  "demo_seal p =
     \<lparr>raw = [0, 1, 26] @ replicate 16 7 @ replicate (head_len p) 0 @ [1] @ raw p, head_len = 1,
      body_len = 17 + head_len p + length (raw p)\<rparr>"

definition demo_opn :: "lob \<Rightarrow> lob option" where
  "demo_opn q =
     (let b = drop 19 (raw q);
          h = length (takeWhile (\<lambda>x. x = 0) b);
          r = drop (h + 1) b
      in Some \<lparr>raw = r, head_len = h, body_len = length r - 2 - h\<rparr>)"

definition demo_cs :: "unit cipher_set" where
  "demo_cs = \<lparr>cs_verify = \<lambda>q. 0, cs_ephemeral = \<lambda>q. Some (), cs_message = \<lambda>p. Some (demo_seal p),
     cs_encrypt = \<lambda>e. Some, cs_decrypt = \<lambda>e. Some\<rparr>"

definition demo_env :: "u8 \<Rightarrow> u32 \<Rightarrow> unit link_env" where
  "demo_env k now = \<lparr>le_self = \<lambda>c. [k], le_remote = \<lambda>c key. Some (replicate 16 0), le_cs = \<lambda>c. demo_cs,
     le_handshake = lob_new, le_im = \<lambda>c. lob_new, le_hash = \<lambda>b. b, le_keys = [], le_now = now\<rparr>"

definition demo_key :: "u8 \<Rightarrow> lob" where
  "demo_key k = lob_body lob_new (Some [k]) 1"

definition demo_link :: "unit clink" where
  "demo_link = snd (hd (link_new 0 [] (replicate 32 3)))"

lemma demo_env_ok: "env_ok (demo_env k now)"
  unfolding env_ok_def demo_env_def using json_is_new by (auto simp: lob_new_def lob_ok_def be16_def)

lemma takeWhile_zeros: "takeWhile (\<lambda>x. x = 0) (replicate n (0 :: u8) @ 1 # r) = replicate n 0"
  by (induction n) simp_all

lemma demo_opn_seal: "lob_ok p \<Longrightarrow> demo_opn (demo_seal p) = Some p"
  by (cases p) (simp add: demo_opn_def demo_seal_def lob_ok_def takeWhile_zeros Let_def)

lemma demo_seals: "seals demo_cs demo_cs demo_opn"
proof -
  have "encodable (demo_seal p)" for p
    by (simp add: encodable_def demo_seal_def lob_ok_def be16_def json_ok_def head_def)
  moreover have "head_len (demo_seal p) = 1" "16 \<le> body_len (demo_seal p)" for p
    by (simp_all add: demo_seal_def)
  ultimately show ?thesis by (simp add: seals_def takes_def demo_cs_def demo_opn_seal)
qed

lemma demo_key_ok: "lob_ok (demo_key k)" "body (demo_key k) = [k]"
  using lob_body_result [OF lob_new_ok, of "Some [k]" 1] by (simp_all add: demo_key_def)

lemma demo_load: "link_load (demo_env k now) demo_link 0x1a (demo_key k') =
    (fst (link_load (demo_env k now) demo_link 0x1a (demo_key k')), True)"
  by (simp add: link_load_def demo_link_def link_new_def demo_env_def demo_key_def lob_body_def Let_def)


section \<open>The registry of links\<close>

text \<open>The list as a map from hashnames to links; well formed when ids and addresses are distinct.\<close>

definition links_ok :: "'e links \<Rightarrow> bool" where
  "links_ok ls \<longleftrightarrow>
     distinct (map fst ls) \<and> distinct (map (\<lambda>l. cl_id (snd l)) ls) \<and>
     list_all (\<lambda>l. hashname_ok (cl_id (snd l))) ls"

definition link_map :: "'e links \<Rightarrow> hashname \<rightharpoonup> nat" where
  "link_map ls = map_of (map (\<lambda>l. (cl_id (snd l), fst l)) ls)"

lemma find_link_map:
  assumes "\<And>l. l \<in> set ls \<Longrightarrow> P l \<longleftrightarrow> cl_id (snd l) = i"
  shows "map_option fst (find P ls) = link_map ls i"
  using assms by (induction ls) (auto simp: link_map_def)

lemma text_injective:
  assumes "hashname_ok g" and "hashname_ok h"
  shows "b32_text g = b32_text h \<longleftrightarrow> g = h"
proof
  assume "b32_text g = b32_text h"
  then have "snd (base32_decode (b32_text g) 32) = snd (base32_decode (b32_text h) 32)" by (rule arg_cong)
  then show "g = h" using assms by (simp add: base32_decode_text hashname_ok_def)
qed simp

lemma link_find_map:
  assumes "links_ok ls" and "hashname_ok i"
  shows "link_find ls i = link_map ls i"
    and "mesh_linked ls (hashname_char (Some i)) 0 = link_map ls i"
proof -
  have ok: "hashname_ok (cl_id (snd l))" if "l \<in> set ls" for l
    using assms(1) that by (simp add: links_ok_def list_all_iff)
  show "link_find ls i = link_map ls i"
    unfolding link_find_def
  proof (rule find_link_map)
    fix l assume "l \<in> set ls"
    then show "hashname_cmp (Some i) (Some (cl_id (snd l))) = 0 \<longleftrightarrow> cl_id (snd l) = i"
      using ok [of l] assms(2) by (auto simp: hashname_cmp_def hashname_ok_def memcmp_eq_0_iff)
  qed
  have "map_option fst (find (\<lambda>l. strncmp_0 (b32_text (cl_id (snd l))) (b32_text i) 52) ls) = link_map ls i"
  proof (rule find_link_map)
    fix l assume "l \<in> set ls"
    then show "strncmp_0 (b32_text (cl_id (snd l))) (b32_text i) 52 \<longleftrightarrow> cl_id (snd l) = i"
      using hashname_text(2) [OF ok] hashname_text(2) [OF assms(2)] text_injective [OF ok assms(2)]
      by (simp add: strncmp_0_def)
  qed
  moreover have "find (\<lambda>l. strncmp_0 (the (hashname_char (Some (cl_id (snd l))))) (b32_text i) 52) ls =
      find (\<lambda>l. strncmp_0 (b32_text (cl_id (snd l))) (b32_text i) 52) ls"
    using ok by (intro find_cong) (simp_all add: hashname_text)
  ultimately show "mesh_linked ls (hashname_char (Some i)) 0 = link_map ls i"
    using hashname_text [OF assms(2)] by (simp add: mesh_linked_def)
qed

lemma link_new_map:
  assumes "links_ok ls" and "hashname_ok i" and "link_map ls i = None" and "addr \<notin> fst ` set ls"
  shows "links_ok (link_new addr ls i)" and "link_map (link_new addr ls i) = (link_map ls)(i \<mapsto> addr)"
proof -
  have i: "take 32 i = i" using assms(2) by (simp add: hashname_ok_def)
  have "i \<notin> (\<lambda>l. cl_id (snd l)) ` set ls"
    using assms(3) by (auto simp: link_map_def map_of_eq_None_iff image_image)
  then show "links_ok (link_new addr ls i)"
    using assms(1,2,4) by (auto simp: links_ok_def link_new_def hashname_dup_def i)
  show "link_map (link_new addr ls i) = (link_map ls)(i \<mapsto> addr)"
    by (simp add: link_map_def link_new_def hashname_dup_def i)
qed

definition short_map :: "'e links \<Rightarrow> bytes \<rightharpoonup> nat" where
  "short_map ls = map_of (map (\<lambda>l. (take 5 (cl_id (snd l)), fst l)) ls)"

lemma short_map:
  assumes "\<And>l. l \<in> set ls \<Longrightarrow> length (cl_id (snd l)) = 32" and "length i = 32"
  shows "map_option fst (find (\<lambda>l. hashname_scmp (Some (cl_id (snd l))) (Some i) = 0) ls) = short_map ls (take 5 i)"
  using assms by (induction ls) (auto simp: short_map_def hashname_scmp_def memcmp_eq_0_iff)

text \<open>
  C11. A mesh has one link per hashname. Asking for a link keeps ids and addresses distinct, returns
  the link the hashname had before if it had one, else a new one, and changes no other; afterwards
  the text of the hashname finds the same link. The lookup by binary id is weaker: it compares five
  bytes only, and gives the latest link whose id starts with them.
\<close>

theorem link_registry:
  assumes "links_ok ls" and "hashname_ok i" and "addr \<notin> fst ` set ls"
  shows "case link_get addr ls (Some i) of (ls', found) \<Rightarrow>
    links_ok ls' \<and> found = link_map ls' i \<and>
    link_map ls' = (if i \<in> dom (link_map ls) then link_map ls else (link_map ls)(i \<mapsto> addr)) \<and>
    mesh_linked ls' (hashname_char (Some i)) 0 = found \<and>
    mesh_linkid ls' (Some i) = short_map ls' (take 5 i)"
proof -
  let ?ls' = "fst (link_get addr ls (Some i))"
  have get: "?ls' = (if i \<in> dom (link_map ls) then ls else link_new addr ls i)"
    "snd (link_get addr ls (Some i)) = (if i \<in> dom (link_map ls) then link_map ls i else Some addr)"
    using link_find_map(1) [OF assms(1,2)] by (auto simp: link_get_def split: option.split)
  have ok: "links_ok ?ls'"
    and map: "link_map ?ls' = (if i \<in> dom (link_map ls) then link_map ls else (link_map ls)(i \<mapsto> addr))"
    using link_new_map [OF assms(1,2) _ assms(3)] assms(1) get(1) by (auto simp: domIff)
  have "mesh_linkid ?ls' (Some i) = short_map ?ls' (take 5 i)"
    using ok assms(2) by (simp add: mesh_linkid_def) (simp add: short_map links_ok_def list_all_iff hashname_ok_def)
  then show ?thesis
    using ok map get(2) link_find_map(2) [OF ok assms(2)] by (simp add: case_prod_unfold)
qed

text \<open>
  Two hashnames with the same five bytes: each has its own link, and the lookup by binary id gives
  the link of the second for the first.
\<close>

definition demo_id :: "u8 \<Rightarrow> hashname" where
  "demo_id b = replicate 31 1 @ [b]"

definition demo_links :: "unit links" where
  "demo_links = link_new 1 (link_new 0 [] (demo_id 5)) (demo_id 6)"

theorem link_registry_witness:
  "link_get 2 demo_links (Some (demo_id 5)) = (demo_links, Some 0) \<and>
   mesh_linkid demo_links (Some (demo_id 5)) = Some 1"
proof -
  have ok: "hashname_ok (demo_id b)" for b by (simp add: demo_id_def hashname_ok_def)
  have ls: "links_ok demo_links" "2 \<notin> fst ` set demo_links"
    by (simp_all add: demo_links_def links_ok_def link_new_def hashname_dup_def demo_id_def hashname_ok_def)
  have m: "link_map demo_links (demo_id 5) = Some 0" "short_map demo_links (take 5 (demo_id 5)) = Some 1"
    by (simp_all add: demo_links_def link_map_def short_map_def link_new_def hashname_dup_def demo_id_def)
  have get: "link_get 2 demo_links (Some (demo_id 5)) = (demo_links, Some 0)"
    unfolding link_get_def option.case link_find_map(1) [OF ls(1) ok] m(1) by (rule refl)
  show ?thesis using link_registry [OF ls(1) ok ls(2), of 5] unfolding get by (simp add: m)
qed

end
