(* ===== verification/LinkChans.thy ===== *)
theory LinkChans
  imports CLink Chan
begin

text \<open>
  The channels of a link, \<open>src/link.c\<close>: a list linked through the channels themselves. The channels
  live in a heap, from addresses to a channel and its \<open>next\<close>; a freed channel is not in it, and
  reading one is the fault \<open>UseAfterFree\<close>. A handler works on its own channel, the parameter \<open>app\<close>
  of \<open>chan_process\<close>. The recursion and the loops follow the pointers, so they are defined as partial
  functions; on a list without cycles they return.
\<close>

datatype chan_heap = Heap (cell: "nat \<Rightarrow> (chan \<times> nat option) option")

definition put :: "chan_heap \<Rightarrow> nat \<Rightarrow> (chan \<times> nat option) option \<Rightarrow> chan_heap" where
  "put h a v = Heap ((cell h)(a := v))"

lemma cell_put [simp]: "cell (put h a v) b = (if b = a then v else cell h b)"
  by (simp add: put_def)

record 'e chan_link =
  lc_link :: "'e clink"
  lc_heap :: chan_heap
  lc_first :: "nat option"

section \<open>Operations\<close>

definition process_here ::
  "(nat \<Rightarrow> chan \<Rightarrow> chan) \<Rightarrow> u32 \<Rightarrow> nat \<Rightarrow> chan_heap \<times> nat option \<Rightarrow> c_fault + chan_heap \<times> nat option" where
  "process_here app now a r =
     (case r of (h, next) \<Rightarrow>
        case cell h a of
          None \<Rightarrow> Inl UseAfterFree
        | Some (c, nx) \<Rightarrow>
            and_then (chan_process app now c) (\<lambda>c'.
              case c' of
                None \<Rightarrow> Inr (put h a None, next)
              | Some c' \<Rightarrow> Inr (put h a (Some (c', next)), Some a)))"

text \<open>The recursion, over what is done with a channel after those behind it.\<close>

partial_function (option) process_chans ::
  "(nat \<Rightarrow> chan_heap \<times> nat option \<Rightarrow> c_fault + chan_heap \<times> nat option) \<Rightarrow> chan_heap \<Rightarrow> nat option \<Rightarrow>
    (c_fault + chan_heap \<times> nat option) option" where
  "process_chans here h p =
     (case p of
        None \<Rightarrow> Some (Inr (h, None))
      | Some a \<Rightarrow>
          (case cell h a of
             None \<Rightarrow> Some (Inl UseAfterFree)
           | Some e \<Rightarrow> Option.bind (process_chans here h (snd e)) (\<lambda>r. Some (and_then r (here a)))))"

definition link_process_chan ::
  "(nat \<Rightarrow> chan \<Rightarrow> chan) \<Rightarrow> u32 \<Rightarrow> chan_heap \<Rightarrow> nat option \<Rightarrow> (c_fault + chan_heap \<times> nat option) option" where
  "link_process_chan app now h p = process_chans (process_here app now) h p"

text \<open>The address of the channel with the id.\<close>

partial_function (option) find_chan :: "chan_heap \<Rightarrow> nat option \<Rightarrow> u32 \<Rightarrow> (c_fault + nat option) option" where
  "find_chan h p i =
     (case p of
        None \<Rightarrow> Some (Inr None)
      | Some a \<Rightarrow>
          (case cell h a of
             None \<Rightarrow> Some (Inl UseAfterFree)
           | Some e \<Rightarrow> if chan_id (Some (fst e)) = i then Some (Inr (Some a)) else find_chan h (snd e) i))"

definition link_chan_get :: "'e chan_link \<Rightarrow> u32 \<Rightarrow> (c_fault + nat option) option" where
  "link_chan_get l i = (if i = 0 then Some (Inr None) else find_chan (lc_heap l) (lc_first l) i)"

text \<open>
  \<open>link_receive\<close>: \<open>opener\<close> is \<open>mesh_open\<close>, which says whether some handler took the packet and may
  have changed the link. The result says whether the link was returned.
\<close>

definition link_receive ::
  "(nat \<Rightarrow> chan \<Rightarrow> chan) \<Rightarrow> ('e chan_link \<Rightarrow> lob \<Rightarrow> 'e chan_link \<times> bool) \<Rightarrow> 'e chan_link \<Rightarrow> lob \<Rightarrow>
    (c_fault + 'e chan_link \<times> bool) option" where
  "link_receive app opener l inner =
     Option.bind (link_chan_get l (lob_get_int inner chan_key)) (\<lambda>r.
       case r of
         Inl f \<Rightarrow> Some (Inl f)
       | Inr (Some a) \<Rightarrow>
           let h = (case cell (lc_heap l) a of
                      Some (c, nx) \<Rightarrow> put (lc_heap l) a (Some (chan_receive c inner, nx))
                    | None \<Rightarrow> lc_heap l)
           in Option.bind (link_process_chan app 0 h (lc_first l)) (\<lambda>r.
                Some (and_then r (\<lambda>(h, first). Inr (l\<lparr>lc_heap := h, lc_first := first\<rparr>, True))))
       | Inr None \<Rightarrow>
           Some (Inr (if lob_get inner type_key = None then (l, False)
             else
               case cl_x (lc_link l) of
                 None \<Rightarrow> (l, False)
               | Some x \<Rightarrow>
                   let (x, cid) = e3x_exchange_cid x (Some inner);
                       l = l\<lparr>lc_link := (lc_link l)\<lparr>cl_x := Some x\<rparr>\<rparr>
                   in if cid = 0 then (l, False) else opener l inner)))"

text \<open>The id of a packet that has none: the next of the exchange, 0 without one.\<close>

definition add_cid :: "'e clink \<Rightarrow> lob \<Rightarrow> c_fault + 'e clink \<times> lob" where
  "add_cid l p =
     (if lob_get_int p chan_key \<noteq> 0 then Inr (l, p)
      else
        let (l, cid) = (case cl_x l of
              None \<Rightarrow> (l, 0)
            | Some x \<Rightarrow> (case e3x_exchange_cid x None of (x, cid) \<Rightarrow> (l\<lparr>cl_x := Some x\<rparr>, cid)))
        in and_then (lob_set_uint p chan_key cid) (\<lambda>p. Inr (l, p)))"

text \<open>\<open>link_chan\<close>: \<open>addr\<close> is the address of the new channel.\<close>

definition link_chan :: "nat \<Rightarrow> 'e chan_link \<Rightarrow> lob \<Rightarrow> c_fault + 'e chan_link \<times> nat option" where
  "link_chan addr l op =
     and_then (add_cid (lc_link l) op) (\<lambda>(k, op).
       let l = l\<lparr>lc_link := k\<rparr> in
       case chan_new (Some op) of
         None \<Rightarrow> Inr (l, None)
       | Some c \<Rightarrow> Inr (l\<lparr>lc_heap := put (lc_heap l) addr (Some (c, lc_first l)), lc_first := Some addr\<rparr>, Some addr))"

definition link_direct :: "'e link_env \<Rightarrow> 'e clink \<Rightarrow> lob \<Rightarrow> c_fault + 'e clink \<times> link_event list" where
  "link_direct env l inner =
     (if cl_send l = None then Inr (l, [])
      else
        and_then (add_cid l inner) (\<lambda>(l, inner).
          Inr (l, link_send l (case cl_x l of
            None \<Rightarrow> None
          | Some x \<Rightarrow> e3x_exchange_send (le_cs env (xcsid x)) x inner))))"

definition disconnected_msg :: bytes where "disconnected_msg = map of_char ''disconnected''"

text \<open>
  The loops of \<open>link_down\<close> and of \<open>link_free\<close> over the channels: each reads the pointer to the next
  channel before it works on this one.
\<close>

partial_function (option) down_chans ::
  "(nat \<Rightarrow> chan \<Rightarrow> chan) \<Rightarrow> chan_heap \<Rightarrow> nat option \<Rightarrow> (c_fault + chan_heap) option" where
  "down_chans app h p =
     (case p of
        None \<Rightarrow> Some (Inr h)
      | Some a \<Rightarrow>
          (case cell h a of
             None \<Rightarrow> Some (Inl UseAfterFree)
           | Some e \<Rightarrow>
               (case and_then (chan_err (fst e) (Some disconnected_msg)) (chan_process app 0) of
                  Inl f \<Rightarrow> Some (Inl f)
                | Inr c' \<Rightarrow> down_chans app (put h a (map_option (\<lambda>c'. (c', snd e)) c')) (snd e))))"

partial_function (option) free_chans :: "chan_heap \<Rightarrow> nat option \<Rightarrow> (c_fault + chan_heap) option" where
  "free_chans h p =
     (case p of
        None \<Rightarrow> Some (Inr h)
      | Some a \<Rightarrow>
          (case cell h a of
             None \<Rightarrow> Some (Inl UseAfterFree)
           | Some e \<Rightarrow> free_chans (put h a None) (snd e)))"

definition link_down ::
  "(nat \<Rightarrow> chan \<Rightarrow> chan) \<Rightarrow> 'e chan_link \<Rightarrow> (c_fault + 'e chan_link \<times> link_event list) option" where
  "link_down app l =
     (let k = lc_link l;
          (k, es) = (if link_up k then (k\<lparr>cl_x := map_option e3x_exchange_down (cl_x k)\<rparr>, [LinkChanged]) else (k, []))
      in map_option (\<lambda>r. and_then r (\<lambda>h.
           Inr (case cl_send k of
             None \<Rightarrow> (l\<lparr>lc_link := k, lc_heap := h\<rparr>, es)
           | Some cb \<Rightarrow> (l\<lparr>lc_link := k\<lparr>cl_send := None\<rparr>, lc_heap := h\<rparr>, es @ [PipeClosed cb]))))
         (down_chans app (lc_heap l) (lc_first l)))"

text \<open>\<open>link_free\<close>: what is left is the heap; the caller takes the link off the mesh's list.\<close>

definition link_free :: "'e chan_link \<Rightarrow> (c_fault + chan_heap \<times> link_event list) option" where
  "link_free l =
     map_option (\<lambda>r. and_then r (\<lambda>h.
         Inr (h, case cl_send (lc_link l) of None \<Rightarrow> [] | Some cb \<Rightarrow> [PipeClosed cb])))
       (free_chans (lc_heap l) (lc_first l))"

text \<open>The link is \<open>None\<close> in the result when it was removed.\<close>

definition link_process ::
  "(nat \<Rightarrow> chan \<Rightarrow> chan) \<Rightarrow> 'e chan_link \<Rightarrow> u32 \<Rightarrow>
    (c_fault + 'e chan_link option \<times> chan_heap \<times> link_event list) option" where
  "link_process app l now =
     (if now = 0 then Some (Inr (Some l, lc_heap l, []))
      else
        Option.bind (link_process_chan app now (lc_heap l) (lc_first l)) (\<lambda>r.
        case r of
          Inl f \<Rightarrow> Some (Inl f)
        | Inr (h, first) \<Rightarrow>
            let l = l\<lparr>lc_heap := h, lc_first := first\<rparr> in
            if cl_csid (lc_link l) \<noteq> 0 then Some (Inr (Some l, h, []))
            else
              Option.bind (link_down app l) (\<lambda>r.
              case r of
                Inl f \<Rightarrow> Some (Inl f)
              | Inr (l, es) \<Rightarrow>
                  map_option (\<lambda>r. and_then r (\<lambda>(h, fs). Inr (None, h, es @ fs))) (link_free l))))"

section \<open>Lists of channels\<close>

fun chain :: "chan_heap \<Rightarrow> nat option \<Rightarrow> (nat \<times> chan) list \<Rightarrow> bool" where
  "chain h p [] \<longleftrightarrow> p = None"
| "chain h p ((a, c) # cs) \<longleftrightarrow>
     p = Some a \<and> a \<notin> fst ` set cs \<and> (\<exists>nx. cell h a = Some (c, nx) \<and> chain h nx cs)"

lemma chain_other: "a \<notin> fst ` set cs \<Longrightarrow> chain (put h a v) p cs = chain h p cs"
  by (induction h p cs rule: chain.induct) auto

lemma chain_fresh: "chain h p cs \<Longrightarrow> cell h a = None \<Longrightarrow> a \<notin> fst ` set cs"
  by (induction h p cs rule: chain.induct) auto

lemma chan_err_ok:
  assumes "printable m"
  shows "\<exists>e. chan_err c (Some m) = Inr (c\<lparr>chan_in := chan_in c @ [e]\<rparr>) \<and> lob_get e end_key \<noteq> None"
proof -
  obtain e where "chan_err_packet (chan_cid c) (Some m) = Inr e" "lob_get e end_key = Some (map of_char ''true'')"
    using chan_err_packet_ok [of "Some m"] assms by auto
  then show ?thesis by (intro exI [of _ e]) (simp add: chan_err_def)
qed

lemma clock_total: "\<exists>c'. chan_clock now c = Inr c'"
proof -
  obtain c' where "chan_err (c\<lparr>chan_tmout := 0\<rparr>) (Some timeout_msg) = Inr c'"
    using chan_err_ok [OF printable_msgs(2)] by blast
  then show ?thesis by (simp add: chan_clock_def)
qed

text \<open>A channel is processed without a fault: what is left of it, and of a list of channels.\<close>

definition processed :: "(nat \<Rightarrow> chan \<Rightarrow> chan) \<Rightarrow> u32 \<Rightarrow> chan \<Rightarrow> chan option" where
  "processed app now c = (case chan_process app now c of Inr r \<Rightarrow> r | Inl f \<Rightarrow> None)"

lemma process_total: "chan_process app now c = Inr (processed app now c)"
  using clock_total [of now c] by (auto simp: processed_def chan_process_def Let_def)

definition process_all :: "(nat \<Rightarrow> chan \<Rightarrow> chan) \<Rightarrow> u32 \<Rightarrow> (nat \<times> chan) list \<Rightarrow> (nat \<times> chan) list" where
  "process_all app now = List.map_filter (\<lambda>(a, c). map_option (Pair a) (processed app now c))"

lemma process_all_simps [simp]:
  "process_all app now [] = []"
  "process_all app now ((a, c) # cs) =
     (case processed app now c of None \<Rightarrow> [] | Some c' \<Rightarrow> [(a, c')]) @ process_all app now cs"
  by (simp_all add: process_all_def List.map_filter_simps split: option.split)

lemma process_all_addrs: "fst ` set (process_all app now cs) \<subseteq> fst ` set cs"
  by (induction cs) (fastforce split: option.splits)+

lemma process_all_other: "a \<notin> fst ` set cs \<Longrightarrow> a \<notin> fst ` set (process_all app now cs)"
  using process_all_addrs [of app now cs] by blast

lemma process_chans_chain:
  assumes "chain h p cs"
  shows "\<exists>h' p'. process_chans (process_here app now) h p = Some (Inr (h', p')) \<and>
    chain h' p' (process_all app now cs) \<and>
    (\<forall>a. a \<notin> fst ` set (process_all app now cs) \<longrightarrow>
       cell h' a = (if a \<in> fst ` set cs then None else cell h a))"
  using assms
proof (induction cs arbitrary: p)
  case Nil
  then show ?case by (simp add: process_chans.simps)
next
  case (Cons ac cs)
  obtain a c where ac: "ac = (a, c)" by (cases ac)
  obtain nx where p: "p = Some a" "a \<notin> fst ` set cs" "cell h a = Some (c, nx)" "chain h nx cs"
    using Cons.prems by (auto simp: ac)
  obtain h1 p1 where h1: "process_chans (process_here app now) h nx = Some (Inr (h1, p1))"
    "chain h1 p1 (process_all app now cs)"
    "\<forall>b. b \<notin> fst ` set (process_all app now cs) \<longrightarrow>
      cell h1 b = (if b \<in> fst ` set cs then None else cell h b)"
    using Cons.IH [OF p(4)] by blast
  note a = process_all_other [OF p(2), of app now]
  have "cell h1 a = Some (c, nx)" using h1(3) a p(2,3) by simp
  then have "process_chans (process_here app now) h p = Some (case processed app now c of
      None \<Rightarrow> Inr (put h1 a None, p1) | Some c' \<Rightarrow> Inr (put h1 a (Some (c', p1)), Some a))"
    using p h1(1) by (subst process_chans.simps) (simp add: process_here_def process_total)
  then show ?case
    using h1(2,3) a p(2) by (cases "processed app now c") (auto simp: ac chain_other)
qed

text \<open>
  C9. Processing the channels of a link is processing each: on a list without cycles the recursion
  returns without a fault, what is left is a list of the channels that did not end, in their order
  and each as it is after its own processing, the ended ones are freed, and no other address is
  touched.
\<close>

theorem link_channels_processed:
  assumes "chain h p cs"
  shows "\<exists>h' p'. link_process_chan app now h p = Some (Inr (h', p')) \<and> chain h' p' (process_all app now cs) \<and>
    (\<forall>a. a \<notin> fst ` set (process_all app now cs) \<longrightarrow>
       cell h' a = (if a \<in> fst ` set cs then None else cell h a))"
  using process_chans_chain [OF assms] by (simp add: link_process_chan_def)

text \<open>Two channels, the second ended: it is freed.\<close>

definition demo_heap :: chan_heap where
  "demo_heap = Heap [0 \<mapsto> (demo_c_chan, Some 1), 1 \<mapsto> (demo_c_chan\<lparr>chan_st := CHAN_ENDED\<rparr>, None)]"

theorem link_channels_processed_witness:
  "\<exists>h' p'. link_process_chan (\<lambda>h c. c) 0 demo_heap (Some 0) = Some (Inr (h', p')) \<and>
     chain h' p' [(0, demo_c_chan)] \<and> cell h' 1 = None"
proof -
  let ?cs = "[(0, demo_c_chan), (1, demo_c_chan\<lparr>chan_st := CHAN_ENDED\<rparr>)]"
  have c: "chain demo_heap (Some 0) ?cs" by (simp add: demo_heap_def)
  have p: "process_all (\<lambda>h c. c) 0 ?cs = [(0, demo_c_chan)]"
    by (simp add: processed_def chan_process_def chan_clock_def demo_c_chan_def)
  show ?thesis using link_channels_processed [OF c, of "\<lambda>h c. c" 0] unfolding p by auto
qed

section \<open>Dispatch\<close>

lemma find_chan_chain:
  "chain h p cs \<Longrightarrow> find_chan h p i = Some (Inr (map_option fst (find (\<lambda>ac. chan_cid (snd ac) = i) cs)))"
proof (induction cs arbitrary: p)
  case Nil
  then show ?case by (simp add: find_chan.simps)
next
  case (Cons ac cs)
  obtain a c where ac: "ac = (a, c)" by (cases ac)
  then obtain nx where "p = Some a" "cell h a = Some (c, nx)" "chain h nx cs" using Cons.prems by auto
  then show ?case using Cons.IH [of nx] by (subst find_chan.simps) (simp add: ac chan_id_def)
qed

definition given :: "nat \<Rightarrow> lob \<Rightarrow> (nat \<times> chan) list \<Rightarrow> (nat \<times> chan) list" where
  "given a p = map (\<lambda>bc. if fst bc = a then (a, chan_receive (snd bc) p) else bc)"

lemma given_addrs: "fst ` set (given a p cs) = fst ` set cs"
  by (induction cs) (auto simp: given_def)

lemma given_other: "a \<notin> fst ` set cs \<Longrightarrow> given a p cs = cs"
  by (induction cs) (auto simp: given_def)

lemma chain_given:
  assumes "chain h p cs" and "(a, c) \<in> set cs"
  shows "\<exists>nx. cell h a = Some (c, nx) \<and> chain (put h a (Some (chan_receive c q, nx))) p (given a q cs)"
  using assms
proof (induction cs arbitrary: p)
  case (Cons bd cs)
  obtain b d where bd: "bd = (b, d)" by (cases bd)
  obtain nx where p: "p = Some b" "b \<notin> fst ` set cs" "cell h b = Some (d, nx)" "chain h nx cs"
    using Cons.prems(1) by (auto simp: bd)
  show ?case
  proof (cases "(a, c) = (b, d)")
    case True
    then show ?thesis
      using p chain_other [of b cs h] given_other [of b cs q] by (auto simp: bd given_def)
  next
    case False
    then have ac: "(a, c) \<in> set cs" using Cons.prems(2) by (auto simp: bd)
    then have "a \<noteq> b" using p(2) by force
    obtain nx' where "cell h a = Some (c, nx')" "chain (put h a (Some (chan_receive c q, nx'))) nx (given a q cs)"
      using Cons.IH [OF p(4) ac] by blast
    then show ?thesis
      using p \<open>a \<noteq> b\<close> given_addrs [of a q cs] by (auto simp: bd given_def)
  qed
qed simp

text \<open>
  C10. A packet for a channel reaches it and no other: if some channel of the link has the id of the
  packet, the packet is put at the end of the queue of the first such channel, then the channels are
  processed, and the link is returned. A packet without the id of a channel leaves the channels
  alone, and is offered to the open handlers only if it has a type and the exchange accepts its id.
\<close>

theorem link_receive_dispatch:
  assumes "chain (lc_heap l) (lc_first l) cs"
  shows "case find (\<lambda>ac. chan_cid (snd ac) = lob_get_int p chan_key) cs of
      Some (a, c) \<Rightarrow> lob_get_int p chan_key \<noteq> 0 \<longrightarrow>
        (\<exists>l'. link_receive app opener l p = Some (Inr (l', True)) \<and> lc_link l' = lc_link l \<and>
          chain (lc_heap l') (lc_first l') (process_all app 0 (given a p cs)))
    | None \<Rightarrow>
        (\<exists>k. link_receive app opener l p =
          Some (Inr (if lob_get p type_key = None \<or> cl_x (lc_link l) = None \<or>
              snd (check_cid (the (cl_x (lc_link l))) p) = 0
            then (l\<lparr>lc_link := k\<rparr>, False) else opener (l\<lparr>lc_link := k\<rparr>) p)))"
proof (cases "find (\<lambda>ac. chan_cid (snd ac) = lob_get_int p chan_key) cs")
  case None
  have get: "link_chan_get l (lob_get_int p chan_key) = Some (Inr None)"
    using find_chan_chain [OF assms] None by (simp add: link_chan_get_def)
  have "\<exists>k. link_receive app opener l p =
      Some (Inr (if lob_get p type_key = None \<or> cl_x (lc_link l) = None \<or>
          snd (check_cid (the (cl_x (lc_link l))) p) = 0
        then (l\<lparr>lc_link := k\<rparr>, False) else opener (l\<lparr>lc_link := k\<rparr>) p))"
  proof (cases "lob_get p type_key = None \<or> cl_x (lc_link l) = None")
    case True
    then show ?thesis
      by (intro exI [of _ "lc_link l"]) (auto simp: link_receive_def get split: option.split)
  next
    case False
    then obtain x where x: "cl_x (lc_link l) = Some x" by blast
    show ?thesis
      by (intro exI [of _ "(lc_link l)\<lparr>cl_x := Some (fst (check_cid x p))\<rparr>"])
        (use False x in \<open>auto simp: link_receive_def get e3x_exchange_cid_def case_prod_unfold Let_def\<close>)
  qed
  with None show ?thesis by simp
next
  case (Some ac)
  obtain a c where ac: "ac = (a, c)" by (cases ac)
  have mem: "(a, c) \<in> set cs"
    using find_Some_iff [of "\<lambda>ac. chan_cid (snd ac) = lob_get_int p chan_key" cs ac] Some ac
    by (metis nth_mem)
  obtain nx where nx: "cell (lc_heap l) a = Some (c, nx)"
    "chain (put (lc_heap l) a (Some (chan_receive c p, nx))) (lc_first l) (given a p cs)"
    using chain_given [OF assms mem] by blast
  obtain h' p' where h': "link_process_chan app 0 (put (lc_heap l) a (Some (chan_receive c p, nx))) (lc_first l) =
      Some (Inr (h', p'))" "chain h' p' (process_all app 0 (given a p cs))"
    using process_chans_chain [OF nx(2), of app 0] unfolding link_process_chan_def by blast
  have "link_receive app opener l p = Some (Inr (l\<lparr>lc_heap := h', lc_first := p'\<rparr>, True))"
    if "lob_get_int p chan_key \<noteq> 0"
  proof -
    have "link_chan_get l (lob_get_int p chan_key) = Some (Inr (Some a))"
      using that find_chan_chain [OF assms] Some ac by (simp add: link_chan_get_def)
    then show ?thesis by (simp add: link_receive_def nx(1) h'(1))
  qed
  with Some ac h'(2) show ?thesis by auto
qed

text \<open>
  A packet of the channel 1 for a link with that channel only, whose handler takes all there is;
  and one for the channel 2, which there is not, on a link without exchange.
\<close>

definition drain_app :: "nat \<Rightarrow> chan \<Rightarrow> chan" where
  "drain_app h c = snd (cq.drain (length (chan_in c)) c)"

definition demo_chan_link :: "unit chan_link" where
  "demo_chan_link = \<lparr>lc_link = demo_link,
     lc_heap = Heap [0 \<mapsto> (demo_c_chan\<lparr>chan_handler := Some 0\<rparr>, None)], lc_first = Some 0\<rparr>"

definition demo_chan_packet :: lob where
  "demo_chan_packet = lob_put lob_new (chan_key, dec_digits 1)"

lemma demo_chan_packet_fields:
  "lob_get_int demo_chan_packet chan_key = 1" "lob_get demo_chan_packet end_key = None"
proof -
  have new: "body_len lob_new = 0" by (simp add: lob_new_def)
  obtain q where q: "lob_set_raw lob_new chan_key 0 (dec_digits 1) 0 = Inr q"
    "json_is q (AList.update chan_key (dec_digits 1) [])" "lob_get q chan_key = Some (dec_digits 1)"
    using set_bare_get [OF json_is_new disjI1 [OF new] chan_key_ok bare_digits(1) dec_digits_plain, of 1]
    by blast
  then show "lob_get_int demo_chan_packet chan_key = 1"
    using strto_digits(1) [of 1] by (simp add: demo_chan_packet_def lob_put_def lob_get_int_def strtol10_def)
  have "lob_get q end_key = lob_get lob_new end_key"
    by (rule json_is_update_other [OF json_is_new q(2)]) (simp_all add: end_key_def chan_key_def)
  then show "lob_get demo_chan_packet end_key = None"
    using q(1) by (simp add: demo_chan_packet_def lob_put_def lob_get_def [of lob_new]) (simp add: lob_new_def)
qed

theorem link_receive_dispatch_witness:
  "\<exists>l'. link_receive drain_app (\<lambda>l p. (l, False)) demo_chan_link demo_chan_packet = Some (Inr (l', True)) \<and>
     chain (lc_heap l') (lc_first l') [(0, demo_c_chan\<lparr>chan_handler := Some 0\<rparr>)]"
proof -
  let ?c = "demo_c_chan\<lparr>chan_handler := Some 0\<rparr>"
  have c: "chain (lc_heap demo_chan_link) (lc_first demo_chan_link) [(0, ?c)]"
    by (simp add: demo_chan_link_def)
  have p: "process_all drain_app 0 (given 0 demo_chan_packet [(0, ?c)]) = [(0, ?c)]"
    by (simp add: given_def processed_def chan_process_def chan_clock_def demo_c_chan_def chan_receive_def
        drain_app_def chan_receiving_def demo_chan_packet_fields)
  have "find (\<lambda>ac. chan_cid (snd ac) = 1) [(0 :: nat, ?c)] = Some (0, ?c)" by (simp add: demo_c_chan_def)
  then show ?thesis
    using link_receive_dispatch [OF c, where p = demo_chan_packet and app = drain_app and opener = "\<lambda>l p. (l, False)"]
    unfolding demo_chan_packet_fields by (auto simp only: option.case prod.case p simp_thms zero_neq_one one_neq_zero)
qed

section \<open>Removing a link\<close>

text \<open>Between packets: open, nothing queued, no timeout set.\<close>

definition quiet :: "chan \<Rightarrow> bool" where
  "quiet c \<longleftrightarrow> chan_st c \<noteq> CHAN_ENDED \<and> chan_in c = [] \<and> chan_tmout c = 0"

lemma quiet_processed: "quiet c \<Longrightarrow> now \<noteq> 0 \<Longrightarrow> processed app now c = Some (c\<lparr>chan_trecv := now\<rparr>)"
  by (simp add: processed_def chan_process_def chan_clock_def quiet_def split: option.split)

lemma quiet_process_all:
  "list_all (\<lambda>ac. quiet (snd ac)) cs \<Longrightarrow> now \<noteq> 0 \<Longrightarrow>
     process_all app now cs = map (\<lambda>ac. (fst ac, (snd ac)\<lparr>chan_trecv := now\<rparr>)) cs"
  by (induction cs) (auto simp: quiet_processed)

text \<open>The error ends a channel that has a handler; without one it stays in the queue.\<close>

lemma quiet_down:
  assumes "quiet c"
  shows "\<exists>c'. and_then (chan_err c (Some disconnected_msg)) (chan_process drain_app 0) =
    Inr (if chan_handler c = None then Some c' else None)"
proof -
  obtain e where e: "chan_err c (Some disconnected_msg) = Inr (c\<lparr>chan_in := chan_in c @ [e]\<rparr>)"
    "lob_get e end_key \<noteq> None"
    using chan_err_ok [of disconnected_msg c] by (auto simp: printable_def disconnected_msg_def)
  show ?thesis
    using e(2) assms unfolding e(1)
    by (auto simp: chan_process_def chan_clock_def quiet_def drain_app_def chan_receiving_def
        split: option.split)
qed

text \<open>The list as the loop of \<open>link_down\<close> leaves it: links to places some of which are freed.\<close>

fun stale :: "chan_heap \<Rightarrow> nat option \<Rightarrow> (nat \<times> bool) list \<Rightarrow> bool" where
  "stale h p [] \<longleftrightarrow> p = None"
| "stale h p ((a, freed) # as) \<longleftrightarrow>
     p = Some a \<and> a \<notin> fst ` set as \<and>
     (if freed then cell h a = None else \<exists>c nx. cell h a = Some (c, nx) \<and> stale h nx as)"

lemma stale_other: "a \<notin> fst ` set as \<Longrightarrow> stale (put h a v) p as = stale h p as"
  by (induction h p as rule: stale.induct) auto

lemma down_chans_chain:
  assumes "chain h p cs" and "list_all (\<lambda>ac. quiet (snd ac)) cs"
  shows "\<exists>h'. down_chans drain_app h p = Some (Inr h') \<and>
    stale h' p (map (\<lambda>ac. (fst ac, chan_handler (snd ac) \<noteq> None)) cs) \<and>
    (\<forall>a. a \<notin> fst ` set cs \<longrightarrow> cell h' a = cell h a)"
  using assms
proof (induction cs arbitrary: h p)
  case Nil
  then show ?case by (simp add: down_chans.simps)
next
  case (Cons ac cs)
  obtain a c where ac: "ac = (a, c)" by (cases ac)
  obtain nx where p: "p = Some a" "a \<notin> fst ` set cs" "cell h a = Some (c, nx)" "chain h nx cs"
    using Cons.prems(1) by (auto simp: ac)
  obtain c' where c': "and_then (chan_err c (Some disconnected_msg)) (chan_process drain_app 0) =
      Inr (if chan_handler c = None then Some c' else None)"
    using quiet_down [of c] Cons.prems(2) by (auto simp: ac)
  let ?h = "put h a (if chan_handler c = None then Some (c', nx) else None)"
  have "chain ?h nx cs" using p(2,4) by (simp add: chain_other)
  then obtain h' where h': "down_chans drain_app ?h nx = Some (Inr h')"
    "stale h' nx (map (\<lambda>ac. (fst ac, chan_handler (snd ac) \<noteq> None)) cs)"
    "\<forall>a. a \<notin> fst ` set cs \<longrightarrow> cell h' a = cell ?h a"
    using Cons.IH [of ?h nx] Cons.prems(2) by auto
  have "down_chans drain_app h p = Some (Inr h')"
    using p h'(1) c' by (subst down_chans.simps) (cases "chan_handler c", simp_all)
  moreover have "cell h' a = (if chan_handler c = None then Some (c', nx) else None)"
    using h'(3) p(2) by simp
  ultimately show ?case
    using h'(2,3) p(1,2) by (auto simp: ac image_image)
qed

lemma link_down_heap:
  assumes "down_chans app (lc_heap l) (lc_first l) = Some (Inr h)"
  shows "\<exists>l' es. link_down app l = Some (Inr (l', es)) \<and> lc_heap l' = h \<and> lc_first l' = lc_first l"
  using assms by (cases "cl_send (lc_link l)"; cases "link_up (lc_link l)") (simp_all add: link_down_def Let_def)

lemma free_chans_stale:
  "stale h p as \<Longrightarrow>
     if list_ex snd as then free_chans h p = Some (Inl UseAfterFree)
     else \<exists>h'. free_chans h p = Some (Inr h') \<and> (\<forall>a. cell h' a = (if a \<in> fst ` set as then None else cell h a))"
proof (induction as arbitrary: h p)
  case Nil
  then show ?case by (simp add: free_chans.simps)
next
  case (Cons af as)
  obtain a freed where af: "af = (a, freed)" by (cases af)
  show ?case
  proof (cases freed)
    case True
    then show ?thesis using Cons.prems by (subst free_chans.simps) (simp add: af)
  next
    case False
    then obtain c nx where a: "p = Some a" "a \<notin> fst ` set as" "cell h a = Some (c, nx)" "stale h nx as"
      using Cons.prems by (auto simp: af)
    then have "stale (put h a None) nx as" by (simp add: stale_other)
    moreover have "free_chans h p = free_chans (put h a None) nx"
      using a by (subst free_chans.simps) simp
    moreover note Cons.IH [of "put h a None" nx]
    ultimately show ?thesis
    proof (cases "list_ex snd as")
      case True
      with \<open>free_chans h p = _\<close> \<open>stale (put h a None) nx as\<close> Cons.IH [of "put h a None" nx] False
      show ?thesis by (simp add: af)
    next
      case 2: False
      then obtain h' where "free_chans (put h a None) nx = Some (Inr h')"
        "\<forall>b. cell h' b = (if b \<in> fst ` set as then None else cell (put h a None) b)"
        using \<open>stale (put h a None) nx as\<close> Cons.IH [of "put h a None" nx] by auto
      with \<open>free_chans h p = _\<close> False 2 show ?thesis by (simp add: af)
    qed
  qed
qed

text \<open>
  C8. Removing a link that has a channel with a handler uses freed memory. The next \<open>link_process\<close>
  after \<open>mesh_unlink\<close> takes the link down, where the error ends every channel that has a handler and
  the channel is freed; the link's list is not updated, and freeing the link walks it. So, for
  channels that are quiet and a handler that takes what there is, the call ends in the fault
  \<open>UseAfterFree\<close> exactly if some channel has a handler; else it removes the link and frees all its
  channels.
\<close>

theorem unlink_use_after_free:
  assumes "chain (lc_heap l) (lc_first l) cs" and "list_all (\<lambda>ac. quiet (snd ac)) cs" and "now \<noteq> 0"
  shows "if list_ex (\<lambda>ac. chan_handler (snd ac) \<noteq> None) cs
    then link_process drain_app (l\<lparr>lc_link := mesh_unlink (lc_link l)\<rparr>) now = Some (Inl UseAfterFree)
    else \<exists>h es. link_process drain_app (l\<lparr>lc_link := mesh_unlink (lc_link l)\<rparr>) now = Some (Inr (None, h, es)) \<and>
      (\<forall>a \<in> fst ` set cs. cell h a = None)"
proof -
  let ?l = "l\<lparr>lc_link := mesh_unlink (lc_link l)\<rparr>"
  let ?cs = "map (\<lambda>ac. (fst ac, (snd ac)\<lparr>chan_trecv := now\<rparr>)) cs"
  let ?as = "map (\<lambda>ac. (fst ac, chan_handler (snd ac) \<noteq> None)) ?cs"
  obtain h1 p1 where h1: "link_process_chan drain_app now (lc_heap l) (lc_first l) = Some (Inr (h1, p1))"
    "chain h1 p1 ?cs"
    using process_chans_chain [OF assms(1), of drain_app now] quiet_process_all [OF assms(2,3), of drain_app]
    unfolding link_process_chan_def by auto
  have "list_all (\<lambda>ac. quiet (snd ac)) ?cs" using assms(2) by (simp add: list_all_iff quiet_def)
  then obtain h2 where h2: "down_chans drain_app h1 p1 = Some (Inr h2)" "stale h2 p1 ?as"
    using down_chans_chain [OF h1(2)] by blast
  define l1 where "l1 = ?l\<lparr>lc_heap := h1, lc_first := p1\<rparr>"
  obtain l2 es where l2: "link_down drain_app l1 = Some (Inr (l2, es))" "lc_heap l2 = h2" "lc_first l2 = p1"
    using link_down_heap [of drain_app l1 h2] h2(1) by (auto simp: l1_def)
  have run: "link_process drain_app ?l now =
      map_option (\<lambda>r. and_then r (\<lambda>(h, fs). Inr (None, h, es @ fs))) (link_free l2)"
    using assms(3) h1(1) l2(1) by (simp add: link_process_def mesh_unlink_def l1_def)
  have ex: "list_ex snd ?as = list_ex (\<lambda>ac. chan_handler (snd ac) \<noteq> None) cs"
    by (simp add: list_ex_iff)
  have addrs: "fst ` set ?as = fst ` set cs" by (simp add: image_image)
  show ?thesis
  proof (cases "list_ex (\<lambda>ac. chan_handler (snd ac) \<noteq> None) cs")
    case True
    then have "free_chans (lc_heap l2) (lc_first l2) = Some (Inl UseAfterFree)"
      using free_chans_stale [OF h2(2)] l2(2,3) unfolding ex by simp
    with True show ?thesis by (simp add: run link_free_def)
  next
    case False
    then obtain h' where "free_chans (lc_heap l2) (lc_first l2) = Some (Inr h')"
      "\<forall>a. cell h' a = (if a \<in> fst ` set cs then None else cell h2 a)"
      using free_chans_stale [OF h2(2)] l2(2,3) unfolding ex addrs by auto
    with False show ?thesis by (simp add: run link_free_def)
  qed
qed

theorem unlink_use_after_free_witness:
  "link_process drain_app (demo_chan_link\<lparr>lc_link := mesh_unlink (lc_link demo_chan_link)\<rparr>) 100 =
     Some (Inl UseAfterFree)"
proof -
  have "chain (lc_heap demo_chan_link) (lc_first demo_chan_link) [(0, demo_c_chan\<lparr>chan_handler := Some 0\<rparr>)]"
    by (simp add: demo_chan_link_def)
  from unlink_use_after_free [OF this, of 100] show ?thesis
    by (simp add: quiet_def demo_c_chan_def)
qed

end
