(* ===== verification/JsStorage.thy ===== *)
theory JsStorage
  imports JsMesh Lob
begin

text \<open>
  The small functions at the head of \<open>js/core.js\<close> that carry packets between JavaScript and the
  library, the keys of a mesh as hexadecimal text, and the short methods of \<open>Channel\<close> and \<open>Link\<close>. A
  packet of the library is a \<open>lob option\<close>, \<open>None\<close> for a null pointer; a string is the list of its
  code units, as in \<open>JsBridge\<close>.
\<close>

section \<open>Packets\<close>

text \<open>An argument is a pointer or a buffer.\<close>

definition lob_to_c :: "lob option + bytes \<Rightarrow> lob option" where
  "lob_to_c buf = (case buf of Inl ptr \<Rightarrow> ptr | Inr b \<Rightarrow> lob_parse (Some b))"

definition buf_lob_from_c :: "lob option \<Rightarrow> bytes" where
  "buf_lob_from_c ptr = take (lob_len ptr) (case lob_raw ptr of None \<Rightarrow> [] | Some r \<Rightarrow> r)"

definition lob_from_c :: "(bytes \<Rightarrow> js_packet option) \<Rightarrow> lob option \<Rightarrow> js_packet option" where
  "lob_from_c decode ptr = decode (buf_lob_from_c ptr)"

section \<open>Hexadecimal buffers\<close>

text \<open>
  \<open>buf.toString("hex")\<close> and \<open>new Buffer(hex, "hex")\<close> of node: two lower case digits per byte; decoding
  takes digits of either case and stops at the first pair that is not one.
\<close>

definition hex_char :: "nat \<Rightarrow> nat" where
  "hex_char d = (if d < 10 then 48 + d else 87 + d)"

definition hex_value :: "nat \<Rightarrow> nat option" where
  "hex_value c =
     (if 48 \<le> c \<and> c \<le> 57 then Some (c - 48)
      else if 65 \<le> c \<and> c \<le> 70 then Some (c - 55)
      else if 97 \<le> c \<and> c \<le> 102 then Some (c - 87)
      else None)"

definition buf_to_hex :: "bytes \<Rightarrow> js_string" where
  "buf_to_hex buf = concat (map (\<lambda>b. [hex_char (unat b div 16), hex_char (unat b mod 16)]) buf)"

fun buf_from_hex :: "js_string \<Rightarrow> bytes" where
  "buf_from_hex (a # b # s) =
     (case (hex_value a, hex_value b) of
        (Some x, Some y) \<Rightarrow> of_nat (16 * x + y) # buf_from_hex s
      | _ \<Rightarrow> [])"
| "buf_from_hex _ = []"

definition hex_to_lob :: "js_string \<Rightarrow> lob option" where
  "hex_to_lob hex = lob_parse (Some (buf_from_hex hex))"

section \<open>Keys\<close>

text \<open>
  \<open>_getKeys\<close> reads two variables of the environment. \<open>start\<close> gives \<open>_storeKeys\<close> the texts of the
  secrets and of the keys linked to them; as delivered the function does nothing.
\<close>

definition getKeys :: "(string \<rightharpoonup> js_string) \<Rightarrow> js_string option \<times> js_string option" where
  "getKeys env = (env ''TELEHASH_SECRET_KEYS'', env ''TELEHASH_PUBLIC_KEYS'')"

definition storeKeys :: "js_string \<Rightarrow> js_string \<Rightarrow> (string \<rightharpoonup> js_string) \<Rightarrow> (string \<rightharpoonup> js_string)" where
  "storeKeys secrets keys env = env"

definition stored_texts :: "lob option \<Rightarrow> lob option \<Rightarrow> js_string \<times> js_string" where
  "stored_texts secrets linked =
     (buf_to_hex (buf_lob_from_c secrets), buf_to_hex (buf_lob_from_c linked))"

text \<open>The two packets \<open>start\<close> gives to \<open>mesh_load\<close>, when there are both texts.\<close>

definition loaded_keys :: "js_string option \<times> js_string option \<Rightarrow> (lob option \<times> lob option) option" where
  "loaded_keys keyring =
     (case keyring of
        (Some (x # xs), Some (y # ys)) \<Rightarrow> Some (hex_to_lob (x # xs), hex_to_lob (y # ys))
      | _ \<Rightarrow> None)"

section \<open>Short methods\<close>

text \<open>The handler of \<open>'data'\<close> of a channel calls \<open>receiving\<close>, which a subclass may define.\<close>

definition channel_on_data :: "(js_packet \<Rightarrow> 'c channel \<Rightarrow> 'c channel) \<Rightarrow> js_packet \<Rightarrow> 'c channel \<Rightarrow> 'c channel" where
  "channel_on_data receiving packet s = receiving packet s"

definition channel_no_receiving :: "js_packet \<Rightarrow> 'c channel \<Rightarrow> 'c channel" where
  "channel_no_receiving packet s = s"

definition channel_send :: "'c chan_api \<Rightarrow> js_packet \<Rightarrow> 'c channel \<Rightarrow> 'c channel" where
  "channel_send api packet s = channel_write api packet s"

text \<open>\<open>direct\<close> of a Link: the packet given to \<open>link_direct\<close>.\<close>

definition link_direct_packet :: "(js_packet \<Rightarrow> bytes) \<Rightarrow> (string \<rightharpoonup> nat) \<Rightarrow> bytes \<Rightarrow> lob option" where
  "link_direct_packet encode json content = lob_to_c (Inr (encode (json, content)))"

section \<open>Stored keys come back\<close>

lemma hex_value_char: "d < 16 \<Longrightarrow> hex_value (hex_char d) = Some d"
  by (simp add: hex_value_def hex_char_def)

lemma buf_from_to_hex: "buf_from_hex (buf_to_hex buf) = buf"
proof (induction buf)
  case (Cons b buf)
  have "unat b < 256" using unsigned_less [of b, where ?'a = nat] by simp
  then have "hex_value (hex_char (unat b div 16)) = Some (unat b div 16)"
    "hex_value (hex_char (unat b mod 16)) = Some (unat b mod 16)"
    by (simp_all add: hex_value_char)
  then show ?case using Cons by (simp add: buf_to_hex_def)
qed (simp add: buf_to_hex_def)

lemma buf_to_hex_Nil: "buf_to_hex buf = [] \<longleftrightarrow> buf = []"
  by (cases buf) (simp_all add: buf_to_hex_def)

lemma buf_lob_raw: "lob_ok p \<Longrightarrow> buf_lob_from_c (Some p) = raw p"
  by (simp add: buf_lob_from_c_def lob_raw_def lob_len_raw)

lemma hex_to_lob_stored: "encodable p \<Longrightarrow> hex_to_lob (buf_to_hex (buf_lob_from_c (Some p))) = Some p"
  using lob_direct_raw [of p]
  by (simp add: hex_to_lob_def buf_from_to_hex encodable_def buf_lob_raw lob_parse_direct)

text \<open>
  C30. Stored keys come back. If a key store keeps the two texts that \<open>start\<close> hands it, for encodable
  packets, and yields them at the next start, that start loads the mesh with the same two packets
  and generates nothing.
\<close>

theorem stored_keys_load:
  assumes "encodable secrets" and "encodable linked"
    and "env ''TELEHASH_SECRET_KEYS'' = Some (fst (stored_texts (Some secrets) (Some linked)))"
    and "env ''TELEHASH_PUBLIC_KEYS'' = Some (snd (stored_texts (Some secrets) (Some linked)))"
  shows "loaded_keys (getKeys env) = Some (Some secrets, Some linked) \<and>
    start_keys (getKeys env) ok s =
      (case stored_texts (Some secrets) (Some linked) of
         (x, y) \<Rightarrow> Inr (ml_call (CLoad (ml_mesh s) x y) s))"
proof -
  have ne: "buf_to_hex (buf_lob_from_c (Some p)) \<noteq> []" if "encodable p" for p
    using that by (auto simp: buf_to_hex_Nil buf_lob_raw encodable_def lob_ok_def)
  obtain x xs y ys where xy: "buf_to_hex (buf_lob_from_c (Some secrets)) = x # xs"
    "buf_to_hex (buf_lob_from_c (Some linked)) = y # ys"
    using ne [OF assms(1)] ne [OF assms(2)] by (meson neq_Nil_conv)
  have env: "getKeys env = (Some (x # xs), Some (y # ys))"
    using assms(3,4) xy by (simp add: getKeys_def stored_texts_def)
  have "hex_to_lob (x # xs) = Some secrets" "hex_to_lob (y # ys) = Some linked"
    using hex_to_lob_stored [OF assms(1)] hex_to_lob_stored [OF assms(2)] unfolding xy by blast+
  then show ?thesis by (simp add: env loaded_keys_def start_keys_def stored_texts_def xy)
qed

theorem stored_keys_load_witness:
  "loaded_keys (getKeys [''TELEHASH_SECRET_KEYS'' \<mapsto> buf_to_hex [0, 0, 255],
     ''TELEHASH_PUBLIC_KEYS'' \<mapsto> buf_to_hex [0, 1, 26]]) =
   Some (Some \<lparr>raw = [0, 0, 255], head_len = 0, body_len = 1\<rparr>, Some \<lparr>raw = [0, 1, 26], head_len = 1, body_len = 0\<rparr>)"
proof -
  let ?s = "\<lparr>raw = [0, 0, 255], head_len = 0, body_len = 1\<rparr>" and ?k = "\<lparr>raw = [0, 1, 26], head_len = 1, body_len = 0\<rparr>"
  have ok: "encodable ?s" "encodable ?k"
    by (simp_all add: encodable_def lob_ok_def be16_def json_ok_def head_def)
  then have "buf_lob_from_c (Some ?s) = [0, 0, 255]" "buf_lob_from_c (Some ?k) = [0, 1, 26]"
    by (simp_all add: buf_lob_raw encodable_def)
  then show ?thesis by (intro stored_keys_load [OF ok, THEN conjunct1]) (simp_all add: stored_texts_def)
qed

end
