(* ===== verification/JsDatagram.thy ===== *)
theory JsDatagram
  imports LinkChans JsStorage
begin

text \<open>
  Two programs over datagrams, \<open>js/samples/send.js\<close> and \<open>js/samples/udp.js\<close>: each sends its
  key as a greeting and gives the link a pipe to the address a greeting came from. The functions of
  the library they call on the mesh are a parameter; a packet is a \<open>lob\<close>, and a call into the mesh
  returns the packets it passed to pipes, as in \<open>JsFrames\<close>. What a program prints is left out but
  for its errors, which are counted.
\<close>

type_synonym addr = nat

record 'm dgram_api =
  da_vkey :: "lob \<Rightarrow> bool" \<comment> \<open>\<open>hashname_vkey(packet, 0x1a)\<close>\<close>
  da_get_key :: "'m \<Rightarrow> lob \<Rightarrow> 'm \<times> nat option" \<comment> \<open>\<open>link_get_key\<close>\<close>
  da_hello :: "'m \<Rightarrow> lob option" \<comment> \<open>\<open>hashname_im(mesh_keys(mesh), 0x1a)\<close>\<close>
  da_pipe :: "'m \<Rightarrow> nat \<Rightarrow> 'm \<times> lob option list" \<comment> \<open>\<open>link_pipe\<close> with a new function\<close>
  da_receive :: "'m \<Rightarrow> lob option \<Rightarrow> 'm \<times> (nat \<times> lob option) list" \<comment> \<open>\<open>mesh_receive\<close>\<close>
  da_direct :: "'m \<Rightarrow> nat \<Rightarrow> lob \<Rightarrow> 'm \<times> (nat \<times> lob option) list"

record 'm dgram_peer =
  dp_mesh :: 'm
  dp_link :: "nat option"
  dp_pipes :: "nat \<rightharpoonup> addr"
  dp_sent :: "(addr \<times> bytes) list"
  dp_errors :: nat

section \<open>Pipes\<close>

text \<open>The function given to \<open>link_pipe\<close>, which sends to the address it was made for.\<close>

definition pipe_packet :: "addr \<Rightarrow> lob option \<Rightarrow> 'm dgram_peer \<Rightarrow> 'm dgram_peer" where
  "pipe_packet to p s =
     (case p of
        None \<Rightarrow> s
      | Some q \<Rightarrow> s\<lparr>dp_sent := dp_sent s @ [(to, buf_lob_from_c (Some q))]\<rparr>)"

definition route_packet :: "nat \<times> lob option \<Rightarrow> 'm dgram_peer \<Rightarrow> 'm dgram_peer" where
  "route_packet lp s =
     (case dp_pipes s (fst lp) of None \<Rightarrow> s | Some to \<Rightarrow> pipe_packet to (snd lp) s)"

definition plumb_pipe :: "'m dgram_api \<Rightarrow> addr \<Rightarrow> 'm dgram_peer \<Rightarrow> 'm dgram_peer" where
  "plumb_pipe api to s =
     (case dp_link s of
        None \<Rightarrow> s
      | Some l \<Rightarrow>
          let (m, ps) = da_pipe api (dp_mesh s) l
          in fold (pipe_packet to) ps (s\<lparr>dp_mesh := m, dp_pipes := (dp_pipes s)(l \<mapsto> to)\<rparr>))"

definition mesh_packet :: "'m dgram_api \<Rightarrow> bytes \<Rightarrow> 'm dgram_peer \<Rightarrow> 'm dgram_peer" where
  "mesh_packet api msg s =
     (let (m, ps) = da_receive api (dp_mesh s) (lob_parse (Some msg))
      in fold route_packet ps (s\<lparr>dp_mesh := m\<rparr>))"

section \<open>udp.js\<close>

definition lob_head_len :: "lob option \<Rightarrow> nat" where
  "lob_head_len p = (case p of None \<Rightarrow> 0 | Some q \<Rightarrow> head_len q)"

definition udp_greet :: "'m dgram_api \<Rightarrow> addr \<Rightarrow> 'm dgram_peer \<Rightarrow> 'm dgram_peer" where
  "udp_greet api to s =
     s\<lparr>dp_sent := dp_sent s @ [(to, buf_lob_from_c (da_hello api (dp_mesh s)))]\<rparr>"

definition udp_receive :: "'m dgram_api \<Rightarrow> bytes \<Rightarrow> addr \<Rightarrow> 'm dgram_peer \<Rightarrow> 'm dgram_peer" where
  "udp_receive api msg from s =
     (case lob_parse (Some msg) of
        Some packet \<Rightarrow>
          if lob_head_len (Some packet) > 6 then
            if da_vkey api packet then
              let (m, l) = da_get_key api (dp_mesh s) packet;
                  s = s\<lparr>dp_mesh := m, dp_link := l\<rparr>
              in plumb_pipe api from (udp_greet api from s)
            else s\<lparr>dp_errors := dp_errors s + 1\<rparr>
          else mesh_packet api msg s
      | None \<Rightarrow> mesh_packet api msg s)"

definition stdin_word :: bytes where "stdin_word = map of_char ''stdin''"

text \<open>The handler of opened channels prints the body of a packet of type \<open>stdin\<close>.\<close>

definition udp_open :: "lob \<Rightarrow> bytes option" where
  "udp_open packet = (if lob_get packet type_field = Some stdin_word then Some (body packet) else None)"

section \<open>send.js\<close>

definition send_receive :: "'m dgram_api \<Rightarrow> bytes \<Rightarrow> addr \<Rightarrow> 'm dgram_peer \<Rightarrow> 'm dgram_peer" where
  "send_receive api msg from s =
     (case lob_parse (Some msg) of
        Some packet \<Rightarrow>
          if da_vkey api packet then
            let (m, l) = da_get_key api (dp_mesh s) packet
            in plumb_pipe api from (s\<lparr>dp_mesh := m, dp_link := l\<rparr>)
          else mesh_packet api msg s
      | None \<Rightarrow> mesh_packet api msg s)"

text \<open>The greeting goes to a fixed address.\<close>

definition send_start :: "'m dgram_api \<Rightarrow> addr \<Rightarrow> 'm \<Rightarrow> 'm dgram_peer" where
  "send_start api server m =
     \<lparr>dp_mesh = m, dp_link = None, dp_pipes = Map.empty,
      dp_sent = [(server, buf_lob_from_c (da_hello api m))], dp_errors = 0\<rparr>"

definition send_stdin :: "'m dgram_api \<Rightarrow> bytes \<Rightarrow> 'm dgram_peer \<Rightarrow> c_fault + 'm dgram_peer" where
  "send_stdin api data s =
     (case dp_link s of
        None \<Rightarrow> Inr (s\<lparr>dp_errors := dp_errors s + 1\<rparr>)
      | Some l \<Rightarrow>
          (case lob_set lob_new type_field stdin_word of
             Inl f \<Rightarrow> Inl f
           | Inr packet \<Rightarrow>
               let packet = lob_body packet (Some data) (length data);
                   (m, ps) = da_direct api (dp_mesh s) l packet
               in Inr (fold route_packet ps (s\<lparr>dp_mesh := m\<rparr>))))"

section \<open>A mesh with one link\<close>

text \<open>
  The parameter for the links of \<open>CLink\<close>, in a mesh that knows one peer: the link, once there is
  one, has the number 0. Each call of \<open>link_pipe\<close> passes a new function. \<open>opn\<close> decrypts a handshake
  and brings it into normal form; one that comes before there is a link finds none. \<open>vkey\<close> says which
  packets hold a key.
\<close>

definition fresh_link :: "hashname \<Rightarrow> 'e clink" where
  "fresh_link i = snd (hd (link_new 0 [] i))"

definition one_get_key ::
  "'e link_env \<Rightarrow> (lob \<Rightarrow> hashname) \<Rightarrow> 'e clink option \<Rightarrow> lob \<Rightarrow> 'e clink option \<times> nat option" where
  "one_get_key env name m p =
     (let l = (case m of None \<Rightarrow> fresh_link (name p) | Some l \<Rightarrow> l) in
      if cl_key l = None then
        (case link_load env l 0x1a p of (l, ok) \<Rightarrow> (Some l, if ok then Some 0 else None))
      else (Some l, Some 0))"

definition new_function :: "'e clink \<Rightarrow> nat" where
  "new_function l = (case cl_send l of None \<Rightarrow> 0 | Some f \<Rightarrow> f + 1)"

definition one_pipe :: "'e link_env \<Rightarrow> 'e clink option \<Rightarrow> nat \<Rightarrow> 'e clink option \<times> lob option list" where
  "one_pipe env m i =
     (case m of
        None \<Rightarrow> (m, [])
      | Some l \<Rightarrow>
          (case link_pipe env l (Some (new_function l)) of
             Inl f \<Rightarrow> (m, [])
           | Inr (l, es) \<Rightarrow> (Some l, map Some (sent es))))"

definition one_receive ::
  "'e link_env \<Rightarrow> (lob \<Rightarrow> lob option) \<Rightarrow> 'e clink option \<Rightarrow> lob option \<Rightarrow>
    'e clink option \<times> (nat \<times> lob option) list" where
  "one_receive env opn m p =
     (case (m, p) of
        (Some l, Some q) \<Rightarrow>
          if head_len q \<noteq> 1 then (m, [])
          else
            (case opn q of
               None \<Rightarrow> (m, [])
             | Some inner \<Rightarrow>
                 (case link_receive_handshake env l inner (Some q) of
                    Inl f \<Rightarrow> (m, [])
                  | Inr (l, es, ok) \<Rightarrow> (Some l, map (\<lambda>q. (0, Some q)) (sent es))))
      | _ \<Rightarrow> (m, []))"

definition one_direct :: "'e link_env \<Rightarrow> 'e clink option \<Rightarrow> nat \<Rightarrow> lob \<Rightarrow> 'e clink option \<times> (nat \<times> lob option) list" where
  "one_direct env m i p =
     (case m of
        None \<Rightarrow> (m, [])
      | Some l \<Rightarrow>
          (case link_direct env l p of
             Inl f \<Rightarrow> (m, [])
           | Inr (l, es) \<Rightarrow> (Some l, map (\<lambda>q. (0, Some q)) (sent es))))"

definition one_link_api ::
  "'e link_env \<Rightarrow> (lob \<Rightarrow> lob option) \<Rightarrow> (lob \<Rightarrow> bool) \<Rightarrow> (lob \<Rightarrow> hashname) \<Rightarrow> lob \<Rightarrow>
    'e clink option dgram_api" where
  "one_link_api env opn vkey name hello =
     \<lparr>da_vkey = vkey, da_get_key = one_get_key env name, da_hello = \<lambda>m. Some hello,
      da_pipe = one_pipe env, da_receive = one_receive env opn, da_direct = one_direct env\<rparr>"

section \<open>The two programs\<close>

text \<open>
  The two programs and the datagrams on the way to each, which arrive in any order; \<open>udp.js\<close> has the
  address 0 and \<open>send.js\<close> the address 1.
\<close>

record 'm dgram_net =
  g_send :: "'m dgram_peer"
  g_udp :: "'m dgram_peer"
  w_send :: "bytes list"
  w_udp :: "bytes list"

definition to_addr :: "addr \<Rightarrow> (addr \<times> bytes) list \<Rightarrow> bytes list" where
  "to_addr a ds = map snd (filter (\<lambda>d. fst d = a) ds)"

definition deliver_send :: "'m dgram_api \<Rightarrow> bytes \<Rightarrow> 'm dgram_net \<Rightarrow> 'm dgram_net" where
  "deliver_send api d g =
     (let s = send_receive api d 0 ((g_send g)\<lparr>dp_sent := []\<rparr>)
      in g\<lparr>g_send := s, w_udp := w_udp g @ to_addr 0 (dp_sent s)\<rparr>)"

definition deliver_udp :: "'m dgram_api \<Rightarrow> bytes \<Rightarrow> 'm dgram_net \<Rightarrow> 'm dgram_net" where
  "deliver_udp api d g =
     (let s = udp_receive api d 1 ((g_udp g)\<lparr>dp_sent := []\<rparr>)
      in g\<lparr>g_udp := s, w_send := w_send g @ to_addr 1 (dp_sent s)\<rparr>)"

inductive dgram_step :: "'m dgram_api \<Rightarrow> 'm dgram_api \<Rightarrow> 'm dgram_net \<Rightarrow> 'm dgram_net \<Rightarrow> bool"
  for sa ua where
  at_send: "w_send g = ds @ d # ds' \<Longrightarrow> dgram_step sa ua g (deliver_send sa d (g\<lparr>w_send := ds @ ds'\<rparr>))"
| at_udp: "w_udp g = ds @ d # ds' \<Longrightarrow> dgram_step sa ua g (deliver_udp ua d (g\<lparr>w_udp := ds @ ds'\<rparr>))"

definition dgram_start :: "'m dgram_api \<Rightarrow> 'm \<Rightarrow> 'm \<Rightarrow> 'm dgram_net" where
  "dgram_start sa ms mu =
     (let s = send_start sa 0 ms
      in \<lparr>g_send = s,
          g_udp = \<lparr>dp_mesh = mu, dp_link = None, dp_pipes = Map.empty, dp_sent = [], dp_errors = 0\<rparr>,
          w_send = [], w_udp = to_addr 0 (dp_sent s)\<rparr>)"

text \<open>A delivery changes what the peer is and adds what it sent.\<close>

lemma to_addr_simps [simp]:
  "to_addr a [] = []" "to_addr a ((b, d) # ds) = (if b = a then d # to_addr a ds else to_addr a ds)"
  "to_addr a (map (\<lambda>q. (a, f q)) qs) = map f qs"
  by (simp_all add: to_addr_def comp_def)

lemma fold_pipe: "fold (pipe_packet to) (map Some qs) s =
    s\<lparr>dp_sent := dp_sent s @ map (\<lambda>q. (to, buf_lob_from_c (Some q))) qs\<rparr>"
  by (induction qs arbitrary: s) (simp_all add: pipe_packet_def)

lemma fold_route:
  "dp_pipes s 0 = Some to \<Longrightarrow> fold route_packet (map (\<lambda>q. (0, Some q)) qs) s =
    s\<lparr>dp_sent := dp_sent s @ map (\<lambda>q. (to, buf_lob_from_c (Some q))) qs\<rparr>"
  by (induction qs arbitrary: s) (simp_all add: route_packet_def pipe_packet_def)

text \<open>A greeting: a packet with a JSON head and the key in the body.\<close>

definition greeting :: "(lob \<Rightarrow> bool) \<Rightarrow> lob \<Rightarrow> bytes \<Rightarrow> bool" where
  "greeting vkey p key \<longleftrightarrow> encodable p \<and> 6 < head_len p \<and> vkey p \<and> body p = key"

lemma parse_raw: "encodable q \<Longrightarrow> lob_parse (Some (raw q)) = Some q"
  using lob_direct_raw [of q] by (simp add: lob_parse_direct)

lemma buf_raw: "encodable q \<Longrightarrow> buf_lob_from_c (Some q) = raw q"
  by (simp add: buf_lob_raw encodable_def)

text \<open>What a program does with a handshake that its link takes, and with one before there is a link.\<close>

lemma mesh_packet_link:
  assumes "encodable q" and "head_len q = 1" and "dp_mesh s = Some l" and "opn q = Some p"
    and "link_receive_handshake env l p (Some q) = Inr (l', es, ok)" and "dp_pipes s 0 = Some to"
  shows "mesh_packet (one_link_api env opn vkey name hello) (raw q) s =
    s\<lparr>dp_mesh := Some l', dp_sent := dp_sent s @ map (\<lambda>q. (to, buf_lob_from_c (Some q))) (sent es)\<rparr>"
  using assms
  by (simp add: mesh_packet_def parse_raw one_link_api_def one_receive_def fold_route)

lemma mesh_packet_none:
  "dp_mesh s = None \<Longrightarrow> mesh_packet (one_link_api env opn vkey name hello) d s = s"
  by (cases s) (simp add: mesh_packet_def one_link_api_def one_receive_def split: option.split)

text \<open>What a program does with the first greeting: load the key, make the pipe, send the handshake.\<close>

lemma load_first:
  assumes "cl_x l = None" and "cl_send l = None" and "c \<noteq> 0" and "body_len p \<noteq> 0"
    and "le_remote env c (lob_body lob_new (Some (body p)) (body_len p)) \<noteq> None"
  shows "\<exists>l'. link_load env l c p = (l', True) \<and> cl_key l' \<noteq> None \<and> cl_send l' = None"
proof -
  obtain token where "le_remote env c (lob_body lob_new (Some (body p)) (body_len p)) = Some token"
    using assms(5) by blast
  then show ?thesis using assms(1-4) by (simp add: link_load_def Let_def)
qed

lemma plumb_first:
  fixes env :: "'e link_env"
  assumes "env_ok env" and "seals (le_cs env 0x1a) cs' opn'" and "greeting vkey p key"
    and "le_remote env 0x1a (lob_body lob_new (Some (body p)) (body_len p)) \<noteq> None"
    and "key \<noteq> []" and "le_now env \<noteq> 0" and "le_now env < - 1"
    and "exchange_order key (le_self env 0x1a) = r" and "r = 1 \<or> r = 2" and "dp_mesh s = None"
  shows "\<exists>l q. at_end 0x1a r l 0 (start_at r (le_now env)) \<and> takes cs' opn' (start_at r (le_now env)) q \<and>
    (case da_get_key (one_link_api env opn vkey name hello) (dp_mesh s) p of (m, i) \<Rightarrow>
      plumb_pipe (one_link_api env opn vkey name hello) to (s\<lparr>dp_mesh := m, dp_link := i, dp_sent := out\<rparr>) =
      s\<lparr>dp_mesh := Some l, dp_link := Some 0, dp_pipes := (dp_pipes s)(0 \<mapsto> to), dp_sent := out @ [(to, raw q)]\<rparr>)"
proof -
  let ?l0 = "fresh_link (name p) :: 'e clink"
  have l0: "cl_x ?l0 = None" "cl_send ?l0 = None" "cl_key ?l0 = None"
    by (simp_all add: fresh_link_def link_new_def)
  have p: "lob_ok p" "body p = key" using assms(3) by (simp_all add: greeting_def encodable_def)
  then have len: "body_len p \<noteq> 0" using lob_raw_parts(3) [OF p(1)] assms(5) by (metis length_0_conv)
  obtain l1 where l1: "link_load env ?l0 0x1a p = (l1, True)" "cl_key l1 \<noteq> None" "cl_send l1 = None"
    using load_first [OF l0(1,2) _ len assms(4)] by auto
  obtain l es q where l: "link_pipe env l1 (Some 0) = Inr (l, es)" "at_end 0x1a r l 0 (start_at r (le_now env))"
    "sent es = [q]" "takes cs' opn' (start_at r (le_now env)) q"
    using pipe_starts [OF assms(1,2) l0(1,2) l1(1) p(1) len assms(6,7), of 0] assms(8,9) unfolding p(2) by blast
  let ?api = "one_link_api env opn vkey name hello"
  have get: "da_get_key ?api None p = (Some l1, Some 0)"
    using l0(3) l1(1) by (auto simp: one_link_api_def one_get_key_def Let_def)
  have pipe: "da_pipe ?api (Some l1) 0 = (Some l, [Some q])"
    using l(1,3) l1(3) by (simp add: one_link_api_def one_pipe_def new_function_def)
  have "buf_lob_from_c (Some q) = raw q" using l(4) by (simp add: takes_def buf_raw)
  then have "plumb_pipe ?api to (s\<lparr>dp_mesh := Some l1, dp_link := Some 0, dp_sent := out\<rparr>) =
      s\<lparr>dp_mesh := Some l, dp_link := Some 0, dp_pipes := (dp_pipes s)(0 \<mapsto> to), dp_sent := out @ [(to, raw q)]\<rparr>"
    by (simp add: plumb_pipe_def pipe pipe_packet_def)
  with l(2,4) get assms(10) show ?thesis by (intro exI [of _ l] exI [of _ q]) simp
qed

text \<open>What the theorem asks of the two programs: \<open>es\<close> and \<open>hs\<close> belong to \<open>send.js\<close>, \<open>eu\<close> and \<open>hu\<close> to \<open>udp.js\<close>.\<close>

definition samples_ok ::
  "'e link_env \<Rightarrow> (lob \<Rightarrow> lob option) \<Rightarrow> (lob \<Rightarrow> bool) \<Rightarrow> lob \<Rightarrow>
   'e link_env \<Rightarrow> (lob \<Rightarrow> lob option) \<Rightarrow> (lob \<Rightarrow> bool) \<Rightarrow> lob \<Rightarrow> bool" where
  "samples_ok es ops vs hs eu opu vu hu \<longleftrightarrow>
     env_ok es \<and> env_ok eu \<and>
     seals (le_cs es 0x1a) (le_cs eu 0x1a) opu \<and> seals (le_cs eu 0x1a) (le_cs es 0x1a) ops \<and>
     greeting vu hs (le_self es 0x1a) \<and> greeting vs hu (le_self eu 0x1a) \<and>
     (\<forall>q. head_len q = 1 \<longrightarrow> \<not> vs q) \<and>
     le_remote es 0x1a (lob_body lob_new (Some (body hu)) (body_len hu)) \<noteq> None \<and>
     le_remote eu 0x1a (lob_body lob_new (Some (body hs)) (body_len hs)) \<noteq> None \<and>
     length (le_self es 0x1a) = length (le_self eu 0x1a) \<and> le_self es 0x1a \<noteq> le_self eu 0x1a \<and>
     le_now es \<noteq> 0 \<and> le_now es < - 1 \<and> le_now eu \<noteq> 0 \<and> le_now eu < - 1"

abbreviation s_order :: "'e link_env \<Rightarrow> 'e link_env \<Rightarrow> nat" where
  "s_order es eu \<equiv> exchange_order (le_self eu 0x1a) (le_self es 0x1a)"

abbreviation s_at :: "'e link_env \<Rightarrow> 'e link_env \<Rightarrow> u32" where
  "s_at es eu \<equiv> start_at (s_order es eu) (le_now es)"

lemma samples_ends:
  assumes "samples_ok es ops vs hs eu opu vu hu"
  shows "ends_ok es ops eu opu 0x1a (s_order es eu) (s_order eu es) (s_at es eu) (s_at eu es)"
    and "s_at es eu \<noteq> s_at eu es" and "s_order es eu = 1 \<or> s_order es eu = 2"
    and "s_order eu es = 1 \<or> s_order eu es = 2"
    and "le_self es 0x1a \<noteq> []" and "le_self eu 0x1a \<noteq> []"
proof -
  have orders: "s_order es eu = 1 \<and> s_order eu es = 2 \<or> s_order es eu = 2 \<and> s_order eu es = 1"
    using exchange_orders [of "le_self es 0x1a" "le_self eu 0x1a"] assms
    by (auto simp: samples_ok_def doubleton_eq_iff)
  then show "s_order es eu = 1 \<or> s_order es eu = 2" "s_order eu es = 1 \<or> s_order eu es = 2" by auto
  have at: "s_at es eu \<noteq> 0" "unat (s_at es eu mod 2) + 1 = s_order eu es"
    "s_at eu es \<noteq> 0" "unat (s_at eu es mod 2) + 1 = s_order es eu"
    using start_at_parity [of "le_now es" "s_order es eu"] start_at_parity [of "le_now eu" "s_order eu es"]
      orders assms by (auto simp: samples_ok_def)
  then show "ends_ok es ops eu opu 0x1a (s_order es eu) (s_order eu es) (s_at es eu) (s_at eu es)"
    using assms by (simp add: samples_ok_def ends_ok_def)
  show "s_at es eu \<noteq> s_at eu es" using at(2,4) orders by auto
  show "le_self es 0x1a \<noteq> []" "le_self eu 0x1a \<noteq> []" using assms by (auto simp: samples_ok_def)
qed

text \<open>The phases of a run, with the number of deliveries that may still come.\<close>

definition linked_phase ::
  "'e link_env \<Rightarrow> (lob \<Rightarrow> lob option) \<Rightarrow> 'e link_env \<Rightarrow> (lob \<Rightarrow> lob option) \<Rightarrow> nat \<Rightarrow>
    'e clink option dgram_net \<Rightarrow> bool" where
  "linked_phase es ops eu opu k g \<longleftrightarrow>
     (\<exists>h. converging es ops eu opu 0x1a (s_order es eu) (s_order eu es) (s_at es eu) (s_at eu es) k h \<and>
        dp_mesh (g_send g) = Some (na h) \<and> dp_mesh (g_udp g) = Some (nb h) \<and>
        dp_pipes (g_send g) 0 = Some 0 \<and> dp_pipes (g_udp g) 0 = Some 1 \<and>
        w_send g = map raw (to_a h) \<and> w_udp g = map raw (to_b h))"

definition greeted_phase ::
  "'e link_env \<Rightarrow> (lob \<Rightarrow> lob option) \<Rightarrow> 'e link_env \<Rightarrow> lob \<Rightarrow> nat \<Rightarrow> 'e clink option dgram_net \<Rightarrow> bool" where
  "greeted_phase es ops eu hu k g \<longleftrightarrow>
     (\<exists>l q. at_end 0x1a (s_order eu es) l 0 (s_at eu es) \<and> takes (le_cs es 0x1a) ops (s_at eu es) q \<and>
        dp_mesh (g_send g) = None \<and> dp_pipes (g_send g) = Map.empty \<and>
        dp_mesh (g_udp g) = Some l \<and> dp_pipes (g_udp g) 0 = Some 1 \<and> w_udp g = [] \<and>
        (w_send g = [raw hu, raw q] \<and> k = 7 \<or> w_send g = [raw hu] \<and> k = 6))"

definition first_phase :: "lob \<Rightarrow> nat \<Rightarrow> 'e clink option dgram_net \<Rightarrow> bool" where
  "first_phase hs k g \<longleftrightarrow>
     dp_mesh (g_send g) = None \<and> dp_pipes (g_send g) = Map.empty \<and> dp_mesh (g_udp g) = None \<and>
     w_send g = [] \<and> w_udp g = [raw hs] \<and> k = 8"

text \<open>The first greeting: \<open>udp.js\<close> answers with its own and its handshake.\<close>

lemma first_phase_step:
  assumes ok: "samples_ok es ops vs hs eu opu vu hu" and "first_phase hs k g"
    and "dgram_step (one_link_api es ops vs names hs) (one_link_api eu opu vu nameu hu) g g'"
  shows "greeted_phase es ops eu hu 7 g'"
proof -
  let ?ua = "one_link_api eu opu vu nameu hu"
  have g: "dp_mesh (g_send g) = None" "dp_pipes (g_send g) = Map.empty" "dp_mesh (g_udp g) = None"
    "w_send g = []" "w_udp g = [raw hs]"
    using assms(2) by (simp_all add: first_phase_def)
  have g': "g' = deliver_udp ?ua (raw hs) (g\<lparr>w_udp := []\<rparr>)"
    using assms(3) g(4,5) by (cases rule: dgram_step.cases) (auto simp: append_eq_Cons_conv)
  have hs: "greeting vu hs (le_self es 0x1a)" and hu: "greeting vs hu (le_self eu 0x1a)"
    using ok by (simp_all add: samples_ok_def)
  note ends = samples_ends [OF ok]
  obtain l q where l: "at_end 0x1a (s_order eu es) l 0 (s_at eu es)" "takes (le_cs es 0x1a) ops (s_at eu es) q"
    "case da_get_key ?ua (dp_mesh ((g_udp g)\<lparr>dp_sent := []\<rparr>)) hs of (m, i) \<Rightarrow>
      plumb_pipe ?ua 1 ((g_udp g)\<lparr>dp_sent := []\<rparr>\<lparr>dp_mesh := m, dp_link := i, dp_sent := [(1, raw hu)]\<rparr>) =
      (g_udp g)\<lparr>dp_sent := []\<rparr>\<lparr>dp_mesh := Some l, dp_link := Some 0,
        dp_pipes := (dp_pipes ((g_udp g)\<lparr>dp_sent := []\<rparr>))(0 \<mapsto> 1), dp_sent := [(1, raw hu)] @ [(1, raw q)]\<rparr>"
    using plumb_first [of eu "le_cs es 0x1a" ops vu hs "le_self es 0x1a" "s_order eu es"
        "(g_udp g)\<lparr>dp_sent := []\<rparr>" opu nameu hu 1 "[(1, raw hu)]"] ok ends(4,5) g(3)
    by (auto simp: samples_ok_def)
  have "buf_lob_from_c (da_hello ?ua m) = raw hu" for m
    using hu by (simp add: one_link_api_def greeting_def buf_raw)
  moreover have "lob_parse (Some (raw hs)) = Some hs" "6 < lob_head_len (Some hs)" "da_vkey ?ua hs"
    using hs by (simp_all add: greeting_def parse_raw lob_head_len_def one_link_api_def)
  ultimately have "udp_receive ?ua (raw hs) 1 ((g_udp g)\<lparr>dp_sent := []\<rparr>) =
      (g_udp g)\<lparr>dp_mesh := Some l, dp_link := Some 0, dp_pipes := (dp_pipes (g_udp g))(0 \<mapsto> 1),
        dp_sent := [(1, raw hu), (1, raw q)]\<rparr>"
    using l(3) by (simp add: udp_receive_def udp_greet_def case_prod_unfold Let_def)
  then show ?thesis
    using g l(1,2) unfolding g' greeted_phase_def
    by (intro exI [of _ l] exI [of _ q]) (simp add: deliver_udp_def)
qed

text \<open>A greeting for \<open>send.js\<close>: it has the pipe now, and sends its handshake.\<close>

lemma greeted_send:
  assumes ok: "samples_ok es ops vs hs eu opu vu hu"
    and "dp_mesh s = None" and "dp_sent s = []"
  shows "\<exists>l q. at_end 0x1a (s_order es eu) l 0 (s_at es eu) \<and> takes (le_cs eu 0x1a) opu (s_at es eu) q \<and>
    send_receive (one_link_api es ops vs names hs) (raw hu) 0 s =
      s\<lparr>dp_mesh := Some l, dp_link := Some 0, dp_pipes := (dp_pipes s)(0 \<mapsto> 0), dp_sent := [(0, raw q)]\<rparr>"
proof -
  let ?sa = "one_link_api es ops vs names hs"
  have hu: "greeting vs hu (le_self eu 0x1a)" using ok by (simp add: samples_ok_def)
  note ends = samples_ends [OF ok]
  obtain l q where l: "at_end 0x1a (s_order es eu) l 0 (s_at es eu)" "takes (le_cs eu 0x1a) opu (s_at es eu) q"
    "case da_get_key ?sa (dp_mesh s) hu of (m, i) \<Rightarrow>
      plumb_pipe ?sa 0 (s\<lparr>dp_mesh := m, dp_link := i, dp_sent := []\<rparr>) =
      s\<lparr>dp_mesh := Some l, dp_link := Some 0, dp_pipes := (dp_pipes s)(0 \<mapsto> 0), dp_sent := [] @ [(0, raw q)]\<rparr>"
    using plumb_first [of es "le_cs eu 0x1a" opu vs hu "le_self eu 0x1a" "s_order es eu" s ops names hs 0 "[]"]
      ok ends(3,6) assms(2) by (auto simp: samples_ok_def)
  have "lob_parse (Some (raw hu)) = Some hu" "da_vkey ?sa hu"
    using hu by (simp_all add: greeting_def parse_raw one_link_api_def)
  then have "send_receive ?sa (raw hu) 0 s =
      s\<lparr>dp_mesh := Some l, dp_link := Some 0, dp_pipes := (dp_pipes s)(0 \<mapsto> 0), dp_sent := [(0, raw q)]\<rparr>"
    using l(3) assms(3) by (cases s) (simp add: send_receive_def case_prod_unfold Let_def)
  with l(1,2) show ?thesis by blast
qed

text \<open>A handshake is no greeting, for either program.\<close>

lemma receive_handshake:
  assumes "samples_ok es ops vs hs eu opu vu hu" and "encodable q" and "head_len q = 1"
  shows "send_receive (one_link_api es ops vs names hs) (raw q) from s =
      mesh_packet (one_link_api es ops vs names hs) (raw q) s"
    and "udp_receive (one_link_api eu opu vu nameu hu) (raw q) from t =
      mesh_packet (one_link_api eu opu vu nameu hu) (raw q) t"
  using assms
  by (simp_all add: send_receive_def udp_receive_def parse_raw lob_head_len_def samples_ok_def one_link_api_def)

lemma greeted_phase_step:
  assumes ok: "samples_ok es ops vs hs eu opu vu hu" and "greeted_phase es ops eu hu k g"
    and "dgram_step (one_link_api es ops vs names hs) (one_link_api eu opu vu nameu hu) g g'"
  shows "greeted_phase es ops eu hu (k - 1) g' \<or> linked_phase es ops eu opu 5 g'"
proof -
  let ?sa = "one_link_api es ops vs names hs"
  obtain lu q where g: "at_end 0x1a (s_order eu es) lu 0 (s_at eu es)" "takes (le_cs es 0x1a) ops (s_at eu es) q"
    "dp_mesh (g_send g) = None" "dp_pipes (g_send g) = Map.empty"
    "dp_mesh (g_udp g) = Some lu" "dp_pipes (g_udp g) 0 = Some 1" "w_udp g = []"
    "w_send g = [raw hu, raw q] \<and> k = 7 \<or> w_send g = [raw hu] \<and> k = 6"
    using assms(2) unfolding greeted_phase_def by blast
  obtain ds d ds' where d: "w_send g = ds @ d # ds'" "g' = deliver_send ?sa d (g\<lparr>w_send := ds @ ds'\<rparr>)"
    using assms(3) g(7) by (cases rule: dgram_step.cases) auto
  have q: "encodable q" "head_len q = 1" using g(2) by (simp_all add: takes_def)
  note ends = samples_ends [OF ok]
  show ?thesis
  proof (cases "d = raw hu \<and> (ds @ ds' = [] \<or> ds @ ds' = [raw q])")
    case True
    obtain l p where l: "at_end 0x1a (s_order es eu) l 0 (s_at es eu)" "takes (le_cs eu 0x1a) opu (s_at es eu) p"
      "send_receive ?sa (raw hu) 0 ((g_send g)\<lparr>dp_sent := []\<rparr>) =
        (g_send g)\<lparr>dp_sent := []\<rparr>\<lparr>dp_mesh := Some l, dp_link := Some 0,
          dp_pipes := (dp_pipes ((g_send g)\<lparr>dp_sent := []\<rparr>))(0 \<mapsto> 0), dp_sent := [(0, raw p)]\<rparr>"
      using greeted_send [OF ok, of "(g_send g)\<lparr>dp_sent := []\<rparr>" names] g(3) by auto
    have "ds @ ds' = map raw [] \<or> ds @ ds' = map raw [q]" using True by simp
    then obtain ps where ps: "ds @ ds' = map raw ps" "ps = [] \<or> ps = [q]" by blast
    have "converging es ops eu opu 0x1a (s_order es eu) (s_order eu es) (s_at es eu) (s_at eu es) 5
        \<lparr>na = l, nb = lu, to_a = ps, to_b = [p]\<rparr>"
      by (rule converging_start [OF ends(1,2) l(1) g(1) l(2)]) (use g(2) ps(2) in auto)
    then have "linked_phase es ops eu opu 5 g'"
      unfolding linked_phase_def d(2)
      by (intro exI [of _ "\<lparr>na = l, nb = lu, to_a = ps, to_b = [p]\<rparr>"])
        (use g(4-7) ps(1) True l(3) in \<open>simp add: deliver_send_def\<close>)
    then show ?thesis by blast
  next
    case False
    then have d': "d = raw q" "ds @ ds' = [raw hu]" "k = 7"
      using d(1) g(8) by (auto simp: Cons_eq_append_conv append_eq_Cons_conv)
    have "send_receive ?sa (raw q) 0 ((g_send g)\<lparr>dp_sent := []\<rparr>) = (g_send g)\<lparr>dp_sent := []\<rparr>"
      using receive_handshake(1) [OF ok q] g(3) by (simp add: mesh_packet_none)
    then have "greeted_phase es ops eu hu 6 g'"
      unfolding greeted_phase_def d(2)
      by (intro exI [of _ lu] exI [of _ q]) (use g d' in \<open>simp add: deliver_send_def\<close>)
    with d'(3) show ?thesis by simp
  qed
qed

text \<open>With links at both ends a delivery is one of \<open>CLink\<close>.\<close>

lemma linked_phase_step:
  assumes ok: "samples_ok es ops vs hs eu opu vu hu" and "linked_phase es ops eu opu k g"
    and "dgram_step (one_link_api es ops vs names hs) (one_link_api eu opu vu nameu hu) g g'"
  shows "0 < k \<and> linked_phase es ops eu opu (k - 1) g'"
proof -
  let ?sa = "one_link_api es ops vs names hs" and ?ua = "one_link_api eu opu vu nameu hu"
  let ?conv = "converging es ops eu opu 0x1a (s_order es eu) (s_order eu es) (s_at es eu) (s_at eu es)"
  obtain h where h: "?conv k h" "dp_mesh (g_send g) = Some (na h)" "dp_mesh (g_udp g) = Some (nb h)"
    "dp_pipes (g_send g) 0 = Some 0" "dp_pipes (g_udp g) 0 = Some 1"
    "w_send g = map raw (to_a h)" "w_udp g = map raw (to_b h)"
    using assms(2) unfolding linked_phase_def by blast
  note ends = samples_ends(1) [OF ok]
  have raws: "map (\<lambda>q. buf_lob_from_c (Some q)) qs = map raw qs"
    if "\<And>q. q \<in> set qs \<Longrightarrow> \<exists>cs opn at. takes (cs :: 'a cipher_set) opn at q" for qs
    using that by (auto simp: takes_def buf_raw)
  from assms(3) show ?thesis
  proof (cases rule: dgram_step.cases)
    case (at_send ds d ds')
    then obtain qs q qs' where q: "to_a h = qs @ q # qs'" "ds = map raw qs" "d = raw q" "ds' = map raw qs'"
      using h(6) by (auto simp: map_eq_append_conv map_eq_Cons_conv)
    obtain p l out where r: "ops q = Some p" "link_receive_handshake es (na h) p (Some q) = Inr (l, out, True)"
      using converging_receives(1) [OF ends h(1), of q] q(1) by auto
    have enc: "encodable q" "head_len q = 1"
      using converging_takes(1) [OF h(1), of q] q(1) by (auto simp: takes_def)
    let ?h = "h\<lparr>na := l, to_a := qs @ qs', to_b := to_b h @ sent out\<rparr>"
    have step: "0 < k \<and> ?conv (k - 1) ?h"
      by (rule converging_step [OF ends h(1)]) (rule hs_step.at_a [of h qs q qs' ops p es l out True, OF q(1) r])
    then have "map (\<lambda>q. buf_lob_from_c (Some q)) (sent out) = map raw (sent out)"
      using converging_takes(2) [of es ops eu opu "0x1a" _ _ _ _ "k - 1" ?h] by (intro raws) fastforce
    moreover have "send_receive ?sa (raw q) 0 ((g_send g)\<lparr>dp_sent := []\<rparr>) =
        (g_send g)\<lparr>dp_mesh := Some l, dp_sent := map (\<lambda>q. (0, buf_lob_from_c (Some q))) (sent out)\<rparr>"
      using receive_handshake(1) [OF ok enc] mesh_packet_link [of q "(g_send g)\<lparr>dp_sent := []\<rparr>" "na h" ops p es l out True 0]
        enc r h(2,4)
      by simp
    ultimately have "linked_phase es ops eu opu (k - 1) g'"
      unfolding linked_phase_def at_send(1)
      by (intro exI [of _ ?h]) (use step h q in \<open>simp add: deliver_send_def\<close>)
    with step show ?thesis by blast
  next
    case (at_udp ds d ds')
    then obtain qs q qs' where q: "to_b h = qs @ q # qs'" "ds = map raw qs" "d = raw q" "ds' = map raw qs'"
      using h(7) by (auto simp: map_eq_append_conv map_eq_Cons_conv)
    obtain p l out where r: "opu q = Some p" "link_receive_handshake eu (nb h) p (Some q) = Inr (l, out, True)"
      using converging_receives(2) [OF ends h(1), of q] q(1) by auto
    have enc: "encodable q" "head_len q = 1"
      using converging_takes(2) [OF h(1), of q] q(1) by (auto simp: takes_def)
    let ?h = "h\<lparr>nb := l, to_b := qs @ qs', to_a := to_a h @ sent out\<rparr>"
    have step: "0 < k \<and> ?conv (k - 1) ?h"
      by (rule converging_step [OF ends h(1)]) (rule hs_step.at_b [of h qs q qs' opu p eu l out True, OF q(1) r])
    then have "map (\<lambda>q. buf_lob_from_c (Some q)) (sent out) = map raw (sent out)"
      using converging_takes(1) [of es ops eu opu "0x1a" _ _ _ _ "k - 1" ?h] by (intro raws) fastforce
    moreover have "udp_receive ?ua (raw q) 1 ((g_udp g)\<lparr>dp_sent := []\<rparr>) =
        (g_udp g)\<lparr>dp_mesh := Some l, dp_sent := map (\<lambda>q. (1, buf_lob_from_c (Some q))) (sent out)\<rparr>"
      using receive_handshake(2) [OF ok enc] mesh_packet_link [of q "(g_udp g)\<lparr>dp_sent := []\<rparr>" "nb h" opu p eu l out True 1]
        enc r h(3,5)
      by simp
    ultimately have "linked_phase es ops eu opu (k - 1) g'"
      unfolding linked_phase_def at_udp(1)
      by (intro exI [of _ ?h]) (use step h q in \<open>simp add: deliver_udp_def\<close>)
    with step show ?thesis by blast
  qed
qed

definition run_phase ::
  "'e link_env \<Rightarrow> (lob \<Rightarrow> lob option) \<Rightarrow> lob \<Rightarrow> 'e link_env \<Rightarrow> (lob \<Rightarrow> lob option) \<Rightarrow> lob \<Rightarrow> nat \<Rightarrow>
    'e clink option dgram_net \<Rightarrow> bool" where
  "run_phase es ops hs eu opu hu j g \<longleftrightarrow>
     first_phase hs j g \<or> greeted_phase es ops eu hu j g \<or> (\<exists>b \<le> j. linked_phase es ops eu opu b g)"

lemma run_phase_step:
  assumes ok: "samples_ok es ops vs hs eu opu vu hu" and "run_phase es ops hs eu opu hu j g"
    and step: "dgram_step (one_link_api es ops vs names hs) (one_link_api eu opu vu nameu hu) g g'"
  shows "0 < j \<and> run_phase es ops hs eu opu hu (j - 1) g'"
proof -
  consider "first_phase hs j g" | "greeted_phase es ops eu hu j g" | b where "b \<le> j" "linked_phase es ops eu opu b g"
    using assms(2) unfolding run_phase_def by blast
  then show ?thesis
  proof cases
    case 1
    then have "j = 8" by (simp add: first_phase_def)
    then show ?thesis using first_phase_step [OF ok 1 step] by (simp add: run_phase_def)
  next
    case 2
    then have "6 \<le> j" by (auto simp: greeted_phase_def)
    then show ?thesis using greeted_phase_step [OF ok 2 step] by (fastforce simp: run_phase_def)
  next
    case 3
    then show ?thesis using linked_phase_step [OF ok 3(2) step] by (fastforce simp: run_phase_def)
  qed
qed

definition connected :: "u32 \<Rightarrow> 'e clink option dgram_net \<Rightarrow> bool" where
  "connected m g \<longleftrightarrow>
     (\<exists>a b. dp_mesh (g_send g) = Some a \<and> dp_mesh (g_udp g) = Some b \<and>
        agreed m \<lparr>na = a, nb = b, to_a = [], to_b = []\<rparr> \<and>
        dp_pipes (g_send g) 0 = Some 0 \<and> dp_pipes (g_udp g) 0 = Some 1)"

lemma run_phase_connected:
  assumes "run_phase es ops hs eu opu hu j g" and "w_send g = []" and "w_udp g = []"
  shows "connected (max (s_at es eu) (s_at eu es)) g"
proof -
  obtain k where "linked_phase es ops eu opu k g"
    using assms by (auto simp: run_phase_def first_phase_def greeted_phase_def)
  then obtain h where h: "converging es ops eu opu 0x1a (s_order es eu) (s_order eu es) (s_at es eu) (s_at eu es) k h"
    "dp_mesh (g_send g) = Some (na h)" "dp_mesh (g_udp g) = Some (nb h)"
    "dp_pipes (g_send g) 0 = Some 0" "dp_pipes (g_udp g) 0 = Some 1" "to_a h = []" "to_b h = []"
    using assms(2,3) by (auto simp: linked_phase_def)
  have "agreed (max (s_at es eu) (s_at eu es)) h" by (rule converging_agreed [OF h(1,6,7)])
  then show ?thesis using h(2-5) by (simp add: connected_def agreed_def)
qed


text \<open>The programs of the demo cipher set; the run up to the answer of \<open>udp.js\<close>.\<close>

definition demo_hello :: "u8 \<Rightarrow> lob" where
  "demo_hello key = lob_body (lob_put lob_new (at_key, dec_digits 1)) (Some [key]) 1"

definition demo_api :: "u8 \<Rightarrow> u32 \<Rightarrow> unit clink option dgram_api" where
  "demo_api key now =
     one_link_api (demo_env key now) demo_opn (\<lambda>p. 6 < head_len p) (\<lambda>p. replicate 32 0) (demo_hello key)"

definition demo_answered :: "unit clink option dgram_net" where
  "demo_answered =
     deliver_udp (demo_api 2 200) (raw (demo_hello 1))
       ((dgram_start (demo_api 1 100) None None)\<lparr>w_udp := []\<rparr>)"

lemma demo_greeting: "greeting (\<lambda>p. 6 < head_len p) (demo_hello key) [key]"
proof -
  define p where "p = lob_put lob_new (at_key, dec_digits 1)"
  have new: "body_len lob_new = 0" by (simp add: lob_new_def)
  have v: "json_value (dec_digits 1)" by (intro value_bare bare_digits)
  obtain q where q: "lob_set_raw lob_new at_key 0 (dec_digits 1) 0 = Inr q"
    "json_is q (AList.update at_key (dec_digits 1) [])"
    using set_raw_no_body [OF json_is_new new at_key_ok v, of 0 0] by auto
  moreover have "dec_digits 1 = [49]" by (subst dec_digits.simps) simp
  ultimately have p: "json_is p [(at_key, [49])]" by (simp add: p_def lob_put_def)
  have hd: "head p = object_text [(at_key, [49])]" by (rule json_is_head(1) [OF p]) simp
  have len: "head_len p = 8"
    using hd p lob_raw_parts(2) [of p]
    by (simp add: json_is_def object_text_def field_text_def key_text_def at_key_def)
  have "encodable p" by (rule json_packet_encodable [OF p]) (simp add: len)
  moreover have "head_len (demo_hello key) = 8" unfolding demo_hello_def p_def [symmetric] by (simp add: lob_body_def len)
  moreover note lob_body_result [of p "Some [key]" 1]
  ultimately show ?thesis unfolding demo_hello_def p_def [symmetric] by (simp add: greeting_def encodable_def)
qed


end
