(* ===== verification/JsSerial.thy ===== *)
theory JsSerial
  imports JsFrames Exchange
begin

text \<open>
  A mesh on a serial port, \<open>js/samples/serial.js\<close>: frames of 64 bytes, written in a loop that
  waits for nothing. The functions of the library are a parameter, as in \<open>JsFrames\<close>; the variables
  of the program are the fields of \<open>serial_port\<close>, with the blocks given to \<open>port.write\<close> and the calls
  of \<open>link_pipe\<close>. A loop that does not end is \<open>None\<close>.
\<close>

record ('f, 'p, 'm) serial_api =
  sr_new :: "nat \<Rightarrow> 'f"
  sr_malloc :: "nat \<Rightarrow> bytes" \<comment> \<open>what a fresh block holds\<close>
  sr_outbox :: "'f \<Rightarrow> bytes \<Rightarrow> 'f \<times> bytes \<times> bool" \<comment> \<open>the block afterwards, and whether the result is truthy\<close>
  sr_sent :: "'f \<Rightarrow> 'f \<times> bool"
  sr_send :: "'f \<Rightarrow> 'p \<Rightarrow> 'f"
  sr_inbox :: "'f \<Rightarrow> bytes \<Rightarrow> 'f"
  sr_receive :: "'f \<Rightarrow> 'f \<times> 'p option"
  sr_mesh_receive :: "'m \<Rightarrow> 'p \<Rightarrow> 'm \<times> 'p option list \<times> nat option"
  sr_link_pipe :: "'m \<Rightarrow> nat \<Rightarrow> 'm \<times> 'p option list"
  sr_hello :: "'m \<Rightarrow> 'p"

record ('f, 'm) serial_port =
  sp_frames :: 'f
  sp_mesh :: 'm
  sp_linked :: "nat option"
  sp_readbuf :: bytes
  sp_out :: "bytes list"
  sp_piped :: "nat list"

definition serial_new :: "('f, 'p, 'm) serial_api \<Rightarrow> 'm \<Rightarrow> ('f, 'm) serial_port" where
  "serial_new api mesh =
     \<lparr>sp_frames = sr_new api 64, sp_mesh = mesh, sp_linked = None, sp_readbuf = [], sp_out = [],
      sp_piped = []\<rparr>"

section \<open>Writing\<close>

text \<open>The loop of \<open>frames_flush\<close>; all its rounds use the one block.\<close>

partial_function (option) serial_frames ::
  "('f, 'p, 'm) serial_api \<Rightarrow> bytes \<Rightarrow> ('f, 'm) serial_port \<Rightarrow> ('f, 'm) serial_port option" where
  "serial_frames api frame s =
     (case sr_outbox api (sp_frames s) frame of
        (f, frame, ok) \<Rightarrow>
          if \<not> ok then Some (s\<lparr>sp_frames := f\<rparr>)
          else
            (case sr_sent api f of
               (f, rest) \<Rightarrow>
                 if \<not> rest then Some (s\<lparr>sp_frames := f, sp_out := sp_out s @ [take 64 frame]\<rparr>)
                 else serial_frames api frame (s\<lparr>sp_frames := f, sp_out := sp_out s @ [take 64 frame]\<rparr>)))"

definition serial_flush ::
  "('f, 'p, 'm) serial_api \<Rightarrow> ('f, 'm) serial_port \<Rightarrow> ('f, 'm) serial_port option" where
  "serial_flush api s = serial_frames api (sr_malloc api 64) s"

text \<open>The callback of \<open>new SerialPort\<close>.\<close>

definition serial_open ::
  "('f, 'p, 'm) serial_api \<Rightarrow> bool \<Rightarrow> ('f, 'm) serial_port \<Rightarrow> ('f, 'm) serial_port option" where
  "serial_open api err s =
     (if err then Some s
      else serial_flush api (s\<lparr>sp_frames := sr_send api (sp_frames s) (sr_hello api (sp_mesh s))\<rparr>))"

text \<open>The callback given to \<open>link_pipe\<close>, and a call into the mesh that passes packets to it.\<close>

definition serial_pipe ::
  "('f, 'p, 'm) serial_api \<Rightarrow> 'p option \<Rightarrow> ('f, 'm) serial_port \<Rightarrow> ('f, 'm) serial_port option" where
  "serial_pipe api packet s =
     (case packet of
        None \<Rightarrow> Some s
      | Some p \<Rightarrow> serial_flush api (s\<lparr>sp_frames := sr_send api (sp_frames s) p\<rparr>))"

fun serial_pipes ::
  "('f, 'p, 'm) serial_api \<Rightarrow> 'p option list \<Rightarrow> ('f, 'm) serial_port \<Rightarrow> ('f, 'm) serial_port option" where
  "serial_pipes api [] s = Some s"
| "serial_pipes api (p # ps) s = Option.bind (serial_pipe api p s) (serial_pipes api ps)"

section \<open>Reading\<close>

function serial_read :: "('f, 'p, 'm) serial_api \<Rightarrow> 'f \<Rightarrow> bytes \<Rightarrow> 'f \<times> bytes" where
  "serial_read api f buf =
     (if 64 \<le> length buf then serial_read api (sr_inbox api f (take 64 buf)) (drop 64 buf) else (f, buf))"
  by pat_completeness auto
termination
  by (relation "measure (\<lambda>(api, f, buf). length buf)") auto

declare serial_read.simps [simp del]

text \<open>The first link gets the pipe; later packets go to the mesh only.\<close>

definition serial_plumb ::
  "('f, 'p, 'm) serial_api \<Rightarrow> nat option \<Rightarrow> ('f, 'm) serial_port \<Rightarrow> ('f, 'm) serial_port option" where
  "serial_plumb api r s =
     (case r of
        None \<Rightarrow> Some s
      | Some link \<Rightarrow>
          if sp_linked s \<noteq> None then Some s
          else
            let s = s\<lparr>sp_linked := Some link, sp_piped := sp_piped s @ [link]\<rparr>;
                (m, ps) = sr_link_pipe api (sp_mesh s) link
            in serial_pipes api ps (s\<lparr>sp_mesh := m\<rparr>))"

definition serial_packet ::
  "('f, 'p, 'm) serial_api \<Rightarrow> 'p \<Rightarrow> ('f, 'm) serial_port \<Rightarrow> ('f, 'm) serial_port option" where
  "serial_packet api packet s =
     (let (m, sent, r) = sr_mesh_receive api (sp_mesh s) packet
      in Option.bind (serial_pipes api sent (s\<lparr>sp_mesh := m\<rparr>)) (serial_plumb api r))"

partial_function (option) serial_receive ::
  "('f, 'p, 'm) serial_api \<Rightarrow> ('f, 'm) serial_port \<Rightarrow> ('f, 'm) serial_port option" where
  "serial_receive api s =
     (case sr_receive api (sp_frames s) of
        (f, None) \<Rightarrow> Some (s\<lparr>sp_frames := f\<rparr>)
      | (f, Some packet) \<Rightarrow>
          Option.bind (serial_packet api packet (s\<lparr>sp_frames := f\<rparr>)) (\<lambda>s. serial_receive api s))"

text \<open>The handler of \<open>'data'\<close>.\<close>

definition serial_data ::
  "('f, 'p, 'm) serial_api \<Rightarrow> bytes \<Rightarrow> ('f, 'm) serial_port \<Rightarrow> ('f, 'm) serial_port option" where
  "serial_data api data s =
     (let (f, buf) = serial_read api (sp_frames s) (sp_readbuf s @ data)
      in Option.bind (serial_receive api (s\<lparr>sp_frames := f, sp_readbuf := buf\<rparr>)) (serial_flush api))"

text \<open>The packet sent on every change of a link.\<close>

definition serial_on_link :: "c_fault + lob" where
  "serial_on_link =
     (case lob_set lob_new type_field (map of_char ''console'') of
        Inl f \<Rightarrow> Inl f
      | Inr open_ \<Rightarrow> (let cmd = map of_char ''tap('' @ [39] @ map of_char ''led.blue'' @ [39] @ map of_char '')''
                    in Inr (lob_body open_ (Some cmd) (length cmd))))"

section \<open>Returning from the handlers\<close>

lemma serial_read_full:
  "serial_read api f buf = (foldl (sr_inbox api) f (full_frames 64 buf), partial_frame 64 buf)"
proof (induction "length buf" arbitrary: f buf rule: less_induct)
  case less
  show ?case
  proof (cases "64 \<le> length buf")
    case True
    with less.hyps [of "drop 64 buf"] full_frames_step [of 64 buf] show ?thesis
      by (subst serial_read.simps) simp
  next
    case False
    then show ?thesis by (subst serial_read.simps) (simp add: full_frames_def partial_frame_def)
  qed
qed

text \<open>
  What the program relies on in the framing: what is still to write, \<open>pend\<close> blocks, gets less with
  every block written, and the two functions say when nothing is left; a packet received leaves its
  queue, and no other call lengthens it. \<open>ok\<close> is an invariant of the framing.
\<close>

locale serial_laws =
  fixes api :: "('f, 'p, 'm) serial_api"
    and ok :: "'f \<Rightarrow> bool"
    and pend :: "'f \<Rightarrow> nat"
    and queued :: "'f \<Rightarrow> nat"
  assumes write_law: "ok f \<Longrightarrow> sr_outbox api f b = (f1, b1, True) \<Longrightarrow> sr_sent api f1 = (f2, rest) \<Longrightarrow>
        ok f2 \<and> queued f2 \<le> queued f \<and> pend f2 < pend f \<and> (\<not> rest \<longrightarrow> pend f2 = 0)"
    and empty_law: "ok f \<Longrightarrow> sr_outbox api f b = (f1, b1, False) \<Longrightarrow> ok f1 \<and> queued f1 \<le> queued f \<and> pend f1 = 0"
    and send_law: "ok f \<Longrightarrow> ok (sr_send api f p) \<and> queued (sr_send api f p) \<le> queued f"
    and inbox_law: "ok f \<Longrightarrow> ok (sr_inbox api f d)"
    and receive_law: "ok f \<Longrightarrow> sr_receive api f = (f', r) \<Longrightarrow>
        ok f' \<and> queued f' \<le> queued f \<and> (r \<noteq> None \<longrightarrow> queued f' < queued f)"
begin

definition keeps :: "('f, 'm) serial_port \<Rightarrow> ('f, 'm) serial_port \<Rightarrow> bool" where
  "keeps s s' \<longleftrightarrow> ok (sp_frames s') \<and> queued (sp_frames s') \<le> queued (sp_frames s) \<and> sp_readbuf s' = sp_readbuf s"

lemma keeps_trans: "keeps s t \<Longrightarrow> keeps t u \<Longrightarrow> keeps s u"
  by (auto simp: keeps_def)

lemma frames_returns:
  "ok (sp_frames s) \<Longrightarrow> \<exists>s'. serial_frames api b s = Some s' \<and> keeps s s' \<and> pend (sp_frames s') = 0"
proof (induction "pend (sp_frames s)" arbitrary: s b rule: less_induct)
  case less
  obtain f b1 r where o: "sr_outbox api (sp_frames s) b = (f, b1, r)" by (metis prod_cases3)
  show ?case
  proof (cases r)
    case False
    then show ?thesis using empty_law [OF less.prems] o
      by (subst serial_frames.simps) (simp add: keeps_def)
  next
    case True
    obtain f2 rest where t: "sr_sent api f = (f2, rest)" by fastforce
    let ?s = "s\<lparr>sp_frames := f2, sp_out := sp_out s @ [take 64 b1]\<rparr>"
    have w: "ok f2" "queued f2 \<le> queued (sp_frames s)" "pend f2 < pend (sp_frames s)" "\<not> rest \<Longrightarrow> pend f2 = 0"
      using write_law [OF less.prems _ t] o True by auto
    then obtain s' where "serial_frames api b1 ?s = Some s'" "keeps ?s s'" "pend (sp_frames s') = 0"
      using less.hyps [of ?s b1] by auto
    with True w o t show ?thesis by (subst serial_frames.simps) (auto simp: keeps_def)
  qed
qed

lemma flush_returns:
  "ok (sp_frames s) \<Longrightarrow> \<exists>s'. serial_flush api s = Some s' \<and> keeps s s' \<and> pend (sp_frames s') = 0"
  unfolding serial_flush_def by (rule frames_returns)

lemma pipe_returns: "ok (sp_frames s) \<Longrightarrow> \<exists>s'. serial_pipe api p s = Some s' \<and> keeps s s'"
proof (cases p)
  case (Some q)
  assume "ok (sp_frames s)"
  note law = send_law [OF this, of q]
  obtain s' where "serial_flush api (s\<lparr>sp_frames := sr_send api (sp_frames s) q\<rparr>) = Some s'"
    "keeps (s\<lparr>sp_frames := sr_send api (sp_frames s) q\<rparr>) s'"
    using flush_returns [of "s\<lparr>sp_frames := sr_send api (sp_frames s) q\<rparr>"] law by auto
  with Some law show ?thesis by (simp add: serial_pipe_def keeps_def)
qed (simp add: serial_pipe_def keeps_def)

lemma pipes_return: "ok (sp_frames s) \<Longrightarrow> \<exists>s'. serial_pipes api ps s = Some s' \<and> keeps s s'"
proof (induction ps arbitrary: s)
  case (Cons p ps)
  obtain t where t: "serial_pipe api p s = Some t" "keeps s t" using pipe_returns [OF Cons.prems] by blast
  then obtain u where "serial_pipes api ps t = Some u" "keeps t u" using Cons.IH [of t] by (auto simp: keeps_def)
  with t show ?case using keeps_trans by auto
qed (simp add: keeps_def)

lemma plumb_returns: "ok (sp_frames s) \<Longrightarrow> \<exists>s'. serial_plumb api r s = Some s' \<and> keeps s s'"
proof (cases "r = None \<or> sp_linked s \<noteq> None")
  case False
  assume ok: "ok (sp_frames s)"
  from False obtain l where l: "r = Some l" "sp_linked s = None" by auto
  obtain m ps where m: "sr_link_pipe api (sp_mesh s) l = (m, ps)" by fastforce
  let ?s = "s\<lparr>sp_linked := Some l, sp_piped := sp_piped s @ [l], sp_mesh := m\<rparr>"
  obtain s' where "serial_pipes api ps ?s = Some s'" "keeps ?s s'" using pipes_return [of ?s ps] ok by auto
  with l m show ?thesis by (auto simp: serial_plumb_def keeps_def)
qed (auto simp: serial_plumb_def keeps_def split: option.split)

lemma packet_returns: "ok (sp_frames s) \<Longrightarrow> \<exists>s'. serial_packet api p s = Some s' \<and> keeps s s'"
proof -
  assume ok: "ok (sp_frames s)"
  obtain m ps r where m: "sr_mesh_receive api (sp_mesh s) p = (m, ps, r)" by (metis prod_cases3)
  obtain t where t: "serial_pipes api ps (s\<lparr>sp_mesh := m\<rparr>) = Some t" "keeps s t"
    using pipes_return [of "s\<lparr>sp_mesh := m\<rparr>" ps] ok by (auto simp: keeps_def)
  then obtain u where "serial_plumb api r t = Some u" "keeps t u"
    using plumb_returns [of t r] by (auto simp: keeps_def)
  with t m show ?thesis using keeps_trans by (auto simp: serial_packet_def)
qed

lemma receive_returns: "ok (sp_frames s) \<Longrightarrow> \<exists>s'. serial_receive api s = Some s' \<and> keeps s s'"
proof (induction "queued (sp_frames s)" arbitrary: s rule: less_induct)
  case less
  obtain f r where f: "sr_receive api (sp_frames s) = (f, r)" by fastforce
  note law = receive_law [OF less.prems f]
  show ?case
  proof (cases r)
    case None
    then have "serial_receive api s = Some (s\<lparr>sp_frames := f\<rparr>)" by (subst serial_receive.simps) (simp add: f)
    then show ?thesis using law None by (simp add: keeps_def)
  next
    case (Some p)
    obtain t where t: "serial_packet api p (s\<lparr>sp_frames := f\<rparr>) = Some t" "keeps (s\<lparr>sp_frames := f\<rparr>) t"
      using packet_returns [of "s\<lparr>sp_frames := f\<rparr>" p] law by auto
    then have "queued (sp_frames t) < queued (sp_frames s)" "ok (sp_frames t)"
      using law Some by (auto simp: keeps_def)
    then obtain u where "serial_receive api t = Some u" "keeps t u" using less.hyps by blast
    with t f Some law show ?thesis by (subst serial_receive.simps) (auto simp: keeps_def)
  qed
qed

lemma read_ok: "ok f \<Longrightarrow> ok (fst (serial_read api f buf))"
proof (induction "length buf" arbitrary: f buf rule: less_induct)
  case less
  then show ?case
    using less.hyps [of "drop 64 buf" "sr_inbox api f (take 64 buf)"] inbox_law
    by (subst serial_read.simps) simp
qed

lemma data_returns:
  assumes "ok (sp_frames s)"
  shows "\<exists>s'. serial_data api d s = Some s' \<and> ok (sp_frames s') \<and> pend (sp_frames s') = 0 \<and>
    sp_readbuf s' = partial_frame 64 (sp_readbuf s @ d)"
proof -
  obtain f buf where r: "serial_read api (sp_frames s) (sp_readbuf s @ d) = (f, buf)" by fastforce
  then have f: "ok f" using read_ok [OF assms, of "sp_readbuf s @ d"] by auto
  obtain t where t: "serial_receive api (s\<lparr>sp_frames := f, sp_readbuf := buf\<rparr>) = Some t"
    "keeps (s\<lparr>sp_frames := f, sp_readbuf := buf\<rparr>) t"
    using receive_returns [of "s\<lparr>sp_frames := f, sp_readbuf := buf\<rparr>"] f by auto
  then obtain u where "serial_flush api t = Some u" "keeps t u" "pend (sp_frames u) = 0"
    using flush_returns [of t] by (auto simp: keeps_def)
  with t r f show ?thesis
    using serial_read_full [of api "sp_frames s" "sp_readbuf s @ d"] by (auto simp: serial_data_def keeps_def)
qed

end

text \<open>
  C28. The handler of \<open>'data'\<close> of a serial port returns whatever arrives and whatever the packets make
  the mesh send, and then everything is written: the library has nothing left to send, and in the
  buffer waits exactly what is after the last full frame.
\<close>

theorem serial_data_returns:
  assumes "serial_laws api ok pend queued" and "ok (sp_frames s)"
  shows "\<exists>s'. serial_data api d s = Some s' \<and> ok (sp_frames s') \<and> pend (sp_frames s') = 0 \<and>
    sp_readbuf s' = partial_frame 64 (sp_readbuf s @ d)"
  by (rule serial_laws.data_returns [OF assms])

section \<open>The library of this repository\<close>

text \<open>
  As in \<open>JsFrames\<close>: \<open>util_frames_outbox(frames, frame, null)\<close> stores the length in the block and
  returns the pointer, which is only tested; \<open>util_frames_inbox(frames, frame, null)\<close> has length 0.
\<close>

definition cs_outbox :: "c_fault + frames \<Rightarrow> bytes \<Rightarrow> (c_fault + frames) \<times> bytes \<times> bool" where
  "cs_outbox r b =
     (case r of
        Inl e \<Rightarrow> (Inl e, b, False)
      | Inr f \<Rightarrow>
          (let (f', p) = util_frames_outbox f
           in (Inr f', le32 (of_nat (outlen f')) @ drop 4 b, p \<noteq> None)))"

definition cs_sent :: "c_fault + frames \<Rightarrow> (c_fault + frames) \<times> bool" where
  "cs_sent r =
     (case r of
        Inl e \<Rightarrow> (Inl e, False)
      | Inr f \<Rightarrow> (case util_frames_sent f of Inl e \<Rightarrow> (Inl e, False) | Inr (f', b) \<Rightarrow> (Inr f', b)))"

definition c_serial_api ::
  "(nat \<Rightarrow> bytes) \<Rightarrow> (c_fault + frames, lob, 'm) serial_api \<Rightarrow> (c_fault + frames, lob, 'm) serial_api" where
  "c_serial_api junk api =
     api\<lparr>sr_new := \<lambda>n. Inr (util_frames_new (of_nat n) 0),
         sr_malloc := junk,
         sr_outbox := cs_outbox,
         sr_sent := cs_sent,
         sr_send := \<lambda>r p. on_frames (\<lambda>f. Inr (fst (util_frames_send f (Some p)))) r,
         sr_inbox := c_inbox,
         sr_receive := c_receive\<rparr>"

lemma c_serial_api_simps [simp]:
  "sr_new (c_serial_api junk api) = (\<lambda>n. Inr (util_frames_new (of_nat n) 0))"
  "sr_malloc (c_serial_api junk api) = junk" "sr_outbox (c_serial_api junk api) = cs_outbox"
  "sr_sent (c_serial_api junk api) = cs_sent"
  "sr_send (c_serial_api junk api) = (\<lambda>r p. on_frames (\<lambda>f. Inr (fst (util_frames_send f (Some p)))) r)"
  "sr_inbox (c_serial_api junk api) = c_inbox" "sr_receive (c_serial_api junk api) = c_receive"
  "sr_hello (c_serial_api junk api) = sr_hello api"
  by (simp_all add: c_serial_api_def)

text \<open>What \<open>out\<close> points to fits the front of the outbox; packets are at least eight bytes.\<close>

definition cs_ok :: "c_fault + frames \<Rightarrow> bool" where
  "cs_ok r \<longleftrightarrow>
     (case r of
        Inl e \<Rightarrow> True
      | Inr f \<Rightarrow>
          \<not> is_sending f \<and> (\<forall>p \<in> set (qlob_packets (outbox f)). 8 \<le> lob_len (Some p)) \<and>
          (case out f of
             OutNull \<Rightarrow> outlen f = 0
           | OutHeader h \<Rightarrow> outlen f = 8 \<and> (\<exists>p qs. outbox f = Some p # qs)
           | OutRaw b \<Rightarrow> 8 \<le> outlen f \<and> (\<exists>p qs. outbox f = Some p # qs)))"

definition cs_pend :: "c_fault + frames \<Rightarrow> nat" where
  "cs_pend r =
     (case r of
        Inl e \<Rightarrow> 0
      | Inr f \<Rightarrow> 2 * length (qlob_packets (outbox f)) - (case out f of OutRaw b \<Rightarrow> 1 | _ \<Rightarrow> 0))"

lemma cs_outbox_empty:
  assumes "cs_ok (Inr f)" and "util_frames_outbox f = (f1, None)"
  shows "outlen f = 0" and "qlob_packets (outbox f) = []" and "f1 = f\<lparr>outbox := []\<rparr>"
  using assms qlob_trim_packets(2) [of "outbox f"] qlob_trim_packets(1) [of "outbox f"]
  by (cases "qlob_packets (outbox f)";
      auto simp: cs_ok_def util_frames_outbox_def Let_def split: if_splits out_ptr.splits list.splits)+

lemma cs_outbox_block:
  assumes "cs_ok (Inr f)" and "util_frames_outbox f = (f1, Some d)"
  shows "cs_ok (Inr f1)" and "cs_pend (Inr f1) = cs_pend (Inr f)" and "outlen f1 \<noteq> 0"
    and "\<exists>p qs. outbox f1 = Some p # qs" and "inbox f1 = inbox f"
proof -
  show "inbox f1 = inbox f" using outbox_inbox [of f] assms(2) by simp
  have "cs_ok (Inr f1) \<and> cs_pend (Inr f1) = cs_pend (Inr f) \<and> outlen f1 \<noteq> 0 \<and> (\<exists>p qs. outbox f1 = Some p # qs)"
  proof (cases "outlen f = 0")
    case False
    then show ?thesis using assms by (auto simp: cs_ok_def util_frames_outbox_def Let_def split: out_ptr.splits)
  next
    case True
    then have o: "out f = OutNull" using assms(1) by (auto simp: cs_ok_def split: out_ptr.splits)
    show ?thesis
    proof (cases "qlob_packets (outbox f)")
      case Nil
      with qlob_trim_packets(1) [OF Nil] True assms show ?thesis
        by (auto simp: cs_ok_def util_frames_outbox_def Let_def)
    next
      case (Cons p ps)
      obtain qs where "qlob_trim False (outbox f) = Some p # qs" "qlob_packets qs = ps"
        using qlob_trim_packets(2) [OF Cons] by blast
      with Cons o True assms show ?thesis
        by (auto simp: cs_ok_def cs_pend_def util_frames_outbox_def Let_def)
    qed
  qed
  then show "cs_ok (Inr f1)" and "cs_pend (Inr f1) = cs_pend (Inr f)" and "outlen f1 \<noteq> 0"
    and "\<exists>p qs. outbox f1 = Some p # qs" by blast+
qed

lemma cs_sent_block:
  assumes "cs_ok (Inr f)" and "outlen f \<noteq> 0" and "cs_sent (Inr f) = (r, rest)"
  shows "cs_ok r \<and> cs_pend r < cs_pend (Inr f) \<and> (\<not> rest \<longrightarrow> cs_pend r = 0) \<and> c_queued r \<le> c_queued (Inr f)"
  using assms
  by (auto simp: cs_ok_def cs_pend_def cs_sent_def c_queued_def util_frames_sent_def util_frames_outlen_def qlob_len_0 Let_def
      split: out_ptr.splits if_splits)

lemma cs_receive:
  assumes "c_receive r = (r', p)"
  shows "c_queued r' \<le> c_queued r \<and> (p \<noteq> None \<longrightarrow> c_queued r' < c_queued r) \<and> cs_ok r' = cs_ok r \<and>
    cs_pend r' = cs_pend r \<and> (c_queued r = 0 \<longrightarrow> p = None)"
proof (cases r)
  case (Inr f)
  show ?thesis
  proof (cases "qlob_packets (inbox f)")
    case Nil
    with Inr qlob_take_packets(1) [OF Nil] assms show ?thesis
      by (auto simp: c_receive_def util_frames_receive_def Let_def c_queued_def cs_ok_def cs_pend_def
          split: out_ptr.split)
  next
    case (Cons q ps)
    with Inr qlob_take_packets(2) [OF Cons] assms show ?thesis
      by (auto simp: c_receive_def util_frames_receive_def Let_def c_queued_def cs_ok_def cs_pend_def
          case_prod_unfold split: out_ptr.split)
  qed
qed (use assms in \<open>simp add: c_receive_def\<close>)

interpretation cs: serial_laws "c_serial_api junk api" cs_ok cs_pend c_queued
  for junk and api :: "(c_fault + frames, lob, 'm) serial_api"
proof
  fix r r1 r2 r' :: "c_fault + frames" and b b1 rest q d and p :: "lob option"
  assume ok: "cs_ok r"
  show "cs_ok r2 \<and> c_queued r2 \<le> c_queued r \<and> cs_pend r2 < cs_pend r \<and> (\<not> rest \<longrightarrow> cs_pend r2 = 0)"
    if o: "sr_outbox (c_serial_api junk api) r b = (r1, b1, True)" and t: "sr_sent (c_serial_api junk api) r1 = (r2, rest)"
  proof (cases r)
    case (Inr f)
    then obtain f1 d where f1: "util_frames_outbox f = (f1, Some d)" "r1 = Inr f1"
      using o by (cases "util_frames_outbox f") (auto simp: cs_outbox_def)
    note blk = cs_outbox_block [OF ok [unfolded Inr] f1(1)]
    from cs_sent_block [OF blk(1,3)] t f1(2) blk(2,5) Inr show ?thesis by (auto simp: c_queued_def)
  qed (use o in \<open>simp add: cs_outbox_def\<close>)
  show "cs_ok r1 \<and> c_queued r1 \<le> c_queued r \<and> cs_pend r1 = 0"
    if o: "sr_outbox (c_serial_api junk api) r b = (r1, b1, False)"
  proof (cases r)
    case (Inr f)
    then obtain f1 where f1: "util_frames_outbox f = (f1, None)" "r1 = Inr f1"
      using o by (cases "util_frames_outbox f") (auto simp: cs_outbox_def)
    from cs_outbox_empty [OF ok [unfolded Inr] f1(1)] ok Inr f1(2) show ?thesis
      by (auto simp: cs_ok_def c_queued_def cs_pend_def split: out_ptr.splits)
  qed (use o in \<open>auto simp: cs_outbox_def cs_ok_def cs_pend_def\<close>)
  show "cs_ok (sr_send (c_serial_api junk api) r q) \<and> c_queued (sr_send (c_serial_api junk api) r q) \<le> c_queued r"
    using ok by (cases r) (auto simp: on_frames_def util_frames_send_def cs_ok_def c_queued_def Let_def split: out_ptr.splits)
  show "cs_ok (sr_inbox (c_serial_api junk api) r d)" using ok by simp
  show "cs_ok r' \<and> c_queued r' \<le> c_queued r \<and> (p \<noteq> None \<longrightarrow> c_queued r' < c_queued r)"
    if "sr_receive (c_serial_api junk api) r = (r', p)"
    using cs_receive [of r r' p] that ok by simp
qed

section \<open>A port on this library only greets\<close>

datatype 'p serial_event = SData bytes | SPipe "'p option"

inductive serial_step ::
  "('f, 'p, 'm) serial_api \<Rightarrow> ('f, 'm) serial_port \<Rightarrow> 'p serial_event \<Rightarrow> ('f, 'm) serial_port \<Rightarrow> bool"
  for api where
  ss_data: "serial_data api d (s\<lparr>sp_mesh := m\<rparr>) = Some s' \<Longrightarrow> serial_step api s (SData d) s'"
| ss_pipe: "sp_piped s \<noteq> [] \<Longrightarrow> serial_pipe api p (s\<lparr>sp_mesh := m\<rparr>) = Some s' \<Longrightarrow> serial_step api s (SPipe p) s'"

text \<open>What the greeting puts on the wire: a block per call of \<open>outbox\<close>, a length and what was in memory.\<close>

definition greeting_blocks :: "(nat \<Rightarrow> bytes) \<Rightarrow> lob \<Rightarrow> bytes list" where
  "greeting_blocks junk p = map (\<lambda>n. take 64 (le32 (of_nat n) @ drop 4 (junk 64))) [8, lob_len (Some p)]"

definition only_greeted :: "(nat \<Rightarrow> bytes) \<Rightarrow> lob \<Rightarrow> (c_fault + frames, 'm) serial_port \<Rightarrow> bool" where
  "only_greeted junk p s \<longleftrightarrow>
     cs_ok (sp_frames s) \<and> cs_pend (sp_frames s) = 0 \<and> c_queued (sp_frames s) = 0 \<and>
     sp_linked s = None \<and> sp_piped s = [] \<and> sp_out s = greeting_blocks junk p"

lemma greeted_flush:
  assumes "only_greeted junk p s" and "serial_flush (c_serial_api junk api) s = Some s'"
  shows "only_greeted junk p s'"
proof -
  have pend: "cs_ok (sp_frames s)" "cs_pend (sp_frames s) = 0" "c_queued (sp_frames s) = 0"
    using assms(1) by (simp_all add: only_greeted_def)
  obtain r b where o: "cs_outbox (sp_frames s) (junk 64) = (r, b, False)"
  proof -
    obtain r b x where x: "cs_outbox (sp_frames s) (junk 64) = (r, b, x)" by (metis prod_cases3)
    obtain r2 rest where "cs_sent r = (r2, rest)" by fastforce
    then have "x = False" using x cs.write_law [of "sp_frames s" junk undefined "junk 64" r b r2 rest] pend by auto
    with x that show ?thesis by blast
  qed
  then have "cs_ok r \<and> c_queued r \<le> 0 \<and> cs_pend r = 0"
    using cs.empty_law [of "sp_frames s" junk undefined "junk 64" r b] pend by simp
  moreover have "s' = s\<lparr>sp_frames := r\<rparr>"
    using assms(2) o unfolding serial_flush_def by (subst (asm) serial_frames.simps) simp
  ultimately show ?thesis using assms(1) by (simp add: only_greeted_def)
qed

lemma greeted_data:
  assumes "only_greeted junk p s" and "serial_data (c_serial_api junk api) d s = Some s'"
  shows "only_greeted junk p s'"
proof -
  let ?api = "c_serial_api junk api"
  have same: "foldl c_inbox f ds = f" for f ds by (induction ds arbitrary: f) simp_all
  define t where "t = s\<lparr>sp_readbuf := partial_frame 64 (sp_readbuf s @ d)\<rparr>"
  have s': "Option.bind (serial_receive ?api t) (serial_flush ?api) = Some s'"
    using assms(2) by (simp add: serial_data_def serial_read_full same t_def)
  obtain r q where r: "c_receive (sp_frames s) = (r, q)" by fastforce
  from cs_receive [OF r] assms(1) have "q = None" "only_greeted junk p (t\<lparr>sp_frames := r\<rparr>)"
    by (auto simp: only_greeted_def t_def)
  moreover have "serial_receive ?api t = Some (t\<lparr>sp_frames := r\<rparr>)"
    using r \<open>q = None\<close> by (subst serial_receive.simps) (simp add: t_def)
  ultimately show ?thesis using s' greeted_flush by simp
qed

interpretation og: event_invariant "serial_step (c_serial_api junk api)" "\<lambda>_. True" "only_greeted junk p"
  for junk and api :: "(c_fault + frames, lob, 'm) serial_api" and p
proof
  fix s s' :: "(c_fault + frames, 'm) serial_port" and e
  assume "serial_step (c_serial_api junk api) s e s'" and g: "only_greeted junk p s"
  then show "only_greeted junk p s'"
  proof cases
    case (ss_data d m)
    have "only_greeted junk p (s\<lparr>sp_mesh := m\<rparr>)" using g by (simp add: only_greeted_def)
    from greeted_data [OF this ss_data(2)] show ?thesis .
  qed (use g in \<open>simp add: only_greeted_def\<close>)
qed

lemma greeting_written:
  assumes "8 < lob_len (Some p)" and "s = serial_new (c_serial_api junk api) m"
    and "sr_hello api m = p" and "serial_open (c_serial_api junk api) False s = Some s'"
  shows "only_greeted junk p s'"
proof -
  let ?f = "(util_frames_new 64 0)\<lparr>outbox := [Some p]\<rparr>"
  let ?h = "le32 64 @ le32 (of_nat (lob_len (Some p)))"
  let ?f1 = "?f\<lparr>out := OutHeader ?h, outlen := 8\<rparr>"
  let ?f2 = "?f\<lparr>out := OutRaw (raw p), outlen := lob_len (Some p)\<rparr>"
  let ?f3 = "?f\<lparr>out := OutNull, outlen := 0, outbox := [None]\<rparr>"
  define b8 where "b8 = le32 (of_nat 8) @ drop 4 (junk 64)"
  define bl where "bl = le32 (of_nat (lob_len (Some p))) @ drop 4 (junk 64)"
  have start: "serial_frames (c_serial_api junk api) (junk 64) (s\<lparr>sp_frames := Inr ?f\<rparr>) = Some s'"
    using assms by (simp add: serial_open_def serial_flush_def on_frames_def serial_new_def util_frames_send_def util_frames_new_def Let_def)
  have 1: "cs_outbox (Inr ?f) (junk 64) = (Inr ?f1, b8, True)"
    by (simp add: b8_def cs_outbox_def util_frames_outbox_def util_frames_new_def Let_def)
  have 2: "cs_sent (Inr ?f1) = (Inr ?f2, True)"
    using assms(1) by (simp add: cs_sent_def util_frames_sent_def util_frames_outlen_def qlob_len_def Let_def)
  have 3: "cs_outbox (Inr ?f2) b8 = (Inr ?f2, bl, True)"
    using assms(1) by (simp add: b8_def bl_def cs_outbox_def util_frames_outbox_def Let_def le32_def)
  have 4: "cs_sent (Inr ?f2) = (Inr ?f3, False)"
    using assms(1) by (simp add: cs_sent_def util_frames_sent_def util_frames_outlen_def qlob_len_def lob_len_def Let_def)
  have "serial_frames (c_serial_api junk api) b8 (s\<lparr>sp_frames := Inr ?f2, sp_out := [take 64 b8]\<rparr>) = Some s'"
    using start assms(2) by (subst (asm) serial_frames.simps) (simp add: 1 2 serial_new_def)
  then have "s' = s\<lparr>sp_frames := Inr ?f3, sp_out := [take 64 b8, take 64 bl]\<rparr>"
    by (subst (asm) serial_frames.simps) (simp add: 3 4)
  then have "s' = s\<lparr>sp_frames := Inr ?f3, sp_out := greeting_blocks junk p\<rparr>"
    by (simp add: greeting_blocks_def b8_def bl_def)
  then show ?thesis
    using assms(2) by (simp add: only_greeted_def serial_new_def cs_ok_def cs_pend_def c_queued_def util_frames_new_def)
qed

text \<open>
  C29. On the library of this repository a serial port sends its greeting and then nothing more, and
  never gets a link, whatever arrives; and of the greeting only two lengths leave the program, each
  in front of sixty bytes of whatever the fresh block held.
\<close>

theorem serial_only_greets:
  assumes "8 < lob_len (Some (sr_hello api m))"
    and "serial_open (c_serial_api junk api) False (serial_new (c_serial_api junk api) m) = Some s"
    and "runs (serial_step (c_serial_api junk api)) s es s'"
  shows "sp_out s' = greeting_blocks junk (sr_hello api m) \<and> sp_linked s' = None \<and> sp_piped s' = []"
proof -
  have "only_greeted junk (sr_hello api m) s" by (rule greeting_written [OF assms(1) refl refl assms(2)])
  from og.runs_inv [OF assms(3) _ this] show ?thesis by (simp add: only_greeted_def list_all_iff)
qed

definition demo_serial_mesh :: "(c_fault + frames, lob, nat) serial_api" where
  "demo_serial_mesh =
     \<lparr>sr_new = \<lambda>n. Inl OverRead, sr_malloc = \<lambda>n. [], sr_outbox = \<lambda>r b. (r, b, False), sr_sent = \<lambda>r. (r, False),
      sr_send = \<lambda>r p. r, sr_inbox = \<lambda>r d. r, sr_receive = \<lambda>r. (r, None),
      sr_mesh_receive = \<lambda>m p. (m, [], Some 5), sr_link_pipe = \<lambda>m l. (m, [Some demo_packet]),
      sr_hello = \<lambda>m. demo_packet\<rparr>"

abbreviation "demo_serial \<equiv> c_serial_api (\<lambda>n. replicate n 170) demo_serial_mesh"

lemma demo_serial_ok: "cs_ok (sp_frames (serial_new demo_serial 0))" "sp_readbuf (serial_new demo_serial 0) = []"
  by (simp_all add: serial_new_def cs_ok_def util_frames_new_def)

theorem serial_data_returns_witness:
  "\<exists>s'. serial_data demo_serial (replicate 70 1) (serial_new demo_serial 0) = Some s' \<and> cs_ok (sp_frames s') \<and>
    cs_pend (sp_frames s') = 0 \<and> sp_readbuf s' = partial_frame 64 (replicate 70 1)"
  using serial_data_returns [OF cs.serial_laws_axioms demo_serial_ok(1), where d = "replicate 70 1"] demo_serial_ok(2) by simp

theorem serial_only_greets_witness:
  "\<exists>s s'. serial_open demo_serial False (serial_new demo_serial 0) = Some s \<and>
    serial_step demo_serial s (SData (replicate 70 1)) s' \<and> sp_out s' = greeting_blocks (\<lambda>n. replicate n 170) demo_packet"
proof -
  have hello: "sr_hello demo_serial_mesh 0 = demo_packet" by (simp add: demo_serial_mesh_def)
  let ?s0 = "serial_new demo_serial 0"
  let ?s1 = "?s0\<lparr>sp_frames := sr_send demo_serial (sp_frames ?s0) (sr_hello demo_serial (sp_mesh ?s0))\<rparr>"
  have "cs_ok (sp_frames ?s1)" using cs.send_law [OF demo_serial_ok(1)] by simp
  then obtain s where s: "serial_open demo_serial False ?s0 = Some s" "cs_ok (sp_frames s)"
    using cs.flush_returns [of ?s1] by (auto simp: serial_open_def cs.keeps_def)
  then obtain s' where "serial_data demo_serial (replicate 70 1) (s\<lparr>sp_mesh := 0\<rparr>) = Some s'"
    using cs.data_returns [of "s\<lparr>sp_mesh := 0\<rparr>" "\<lambda>n. replicate n 170" demo_serial_mesh "replicate 70 1"] by auto
  then have step: "serial_step demo_serial s (SData (replicate 70 1)) s'" by (rule ss_data)
  then have runs: "runs (serial_step demo_serial) s [SData (replicate 70 1)] s'" by blast
  have "8 < lob_len (Some (sr_hello demo_serial_mesh 0))" by (simp add: lob_len_def demo_packet_def hello)
  from serial_only_greets [OF this s(1) runs] show ?thesis using step s(1) unfolding hello by blast
qed

end
