(* ===== verification/UtilSort.thy ===== *)
theory UtilSort
  imports Prelude "HOL-Library.Multiset"
begin

text \<open>
  \<open>util_sort\<close> of \<open>src/util/util.c\<close>, a shell sort, and its default order. The array is a list of
  elements: the C code counts in bytes, \<open>width\<close> per element, and all its gaps are of the form
  \<open>3 * h + 1\<close>, so that its division by three loses nothing. The number of bytes fits in 32 bits.
\<close>

section \<open>The sort\<close>

text \<open>The innermost loop moves an element down by steps of \<open>gap\<close> until the one below is not greater.\<close>

function sort_sift :: "('a \<Rightarrow> 'a \<Rightarrow> int) \<Rightarrow> nat \<Rightarrow> nat \<Rightarrow> 'a list \<Rightarrow> 'a list" where
  "sort_sift cmp gap j xs =
     (let j' = j - gap; a = xs ! j'; b = xs ! (j' + gap) in
      if cmp a b \<le> 0 then xs
      else
        let xs = xs[j' := b, j' + gap := a] in
        if gap \<le> j' \<and> 0 < gap then sort_sift cmp gap j' xs else xs)"
  by pat_completeness auto
termination
  by (relation "measure (\<lambda>(cmp, gap, j, xs). j)") auto

declare sort_sift.simps [simp del]

lemma length_sort_sift [simp]: "length (sort_sift cmp gap j xs) = length xs"
  by (induction cmp gap j xs rule: sort_sift.induct) (subst sort_sift.simps, simp add: Let_def)

function sort_pass :: "('a \<Rightarrow> 'a \<Rightarrow> int) \<Rightarrow> nat \<Rightarrow> nat \<Rightarrow> 'a list \<Rightarrow> 'a list" where
  "sort_pass cmp gap i xs =
     (let xs = sort_sift cmp gap i xs
      in if i + 1 < length xs then sort_pass cmp gap (i + 1) xs else xs)"
  by pat_completeness auto
termination
  by (relation "measure (\<lambda>(cmp, gap, i, xs). length xs - i)") auto

declare sort_pass.simps [simp del]

function sort_gap :: "nat \<Rightarrow> nat \<Rightarrow> nat" where
  "sort_gap n gap = (let gap = 3 * gap + 1 in if gap < (n - 1) div 3 then sort_gap n gap else gap)"
  by pat_completeness auto
termination
  by (relation "measure (\<lambda>(n, gap). n - gap)") auto

declare sort_gap.simps [simp del]

function sort_passes :: "('a \<Rightarrow> 'a \<Rightarrow> int) \<Rightarrow> nat \<Rightarrow> 'a list \<Rightarrow> 'a list" where
  "sort_passes cmp gap xs =
     (let xs = sort_pass cmp gap gap xs; gap = (gap - 1) div 3
      in if gap \<noteq> 0 then sort_passes cmp gap xs else xs)"
  by pat_completeness auto
termination
  by (relation "measure (\<lambda>(cmp, gap, xs). gap)") auto

declare sort_passes.simps [simp del]

definition util_sort :: "('a \<Rightarrow> 'a \<Rightarrow> int) \<Rightarrow> 'a list \<Rightarrow> 'a list" where
  "util_sort cmp xs = (if 1 < length xs then sort_passes cmp (sort_gap (length xs) 0) xs else xs)"

text \<open>\<open>strcmp\<close> on strings without their NUL, and the default order; \<open>NULL\<close> comes first.\<close>

fun strcmp :: "bytes \<Rightarrow> bytes \<Rightarrow> int" where
  "strcmp (a # s) (b # t) = (if a = b then strcmp s t else if a < b then - 1 else 1)"
| "strcmp [] [] = 0"
| "strcmp [] t = - 1"
| "strcmp s [] = 1"

definition util_sort_alpha :: "bytes option \<Rightarrow> bytes option \<Rightarrow> int" where
  "util_sort_alpha a b =
     (case (a, b) of (None, _) \<Rightarrow> - 1 | (Some s, None) \<Rightarrow> 1 | (Some s, Some t) \<Rightarrow> strcmp s t)"

section \<open>The result is a permutation\<close>

lemma mset_sort_sift: "gap \<le> j \<Longrightarrow> j < length xs \<Longrightarrow> mset (sort_sift cmp gap j xs) = mset xs"
proof (induction cmp gap j xs rule: sort_sift.induct)
  case (1 cmp gap j xs)
  have "mset (xs[j - gap := xs ! j, j := xs ! (j - gap)]) = mset xs"
    using "1.prems" by (intro mset_swap) auto
  moreover have "j - gap + gap = j" using "1.prems" by simp
  ultimately show ?case using 1 by (subst sort_sift.simps) (auto simp: Let_def)
qed

lemma mset_sort_pass: "gap \<le> i \<Longrightarrow> i < length xs \<Longrightarrow> mset (sort_pass cmp gap i xs) = mset xs"
proof (induction cmp gap i xs rule: sort_pass.induct)
  case (1 cmp gap i xs)
  then show ?case by (subst sort_pass.simps) (simp add: Let_def mset_sort_sift)
qed

section \<open>The last pass sorts\<close>

text \<open>With a gap of 1 the innermost loop inserts an element into what is before it.\<close>

definition insert_right :: "('a \<Rightarrow> 'a \<Rightarrow> int) \<Rightarrow> 'a list \<Rightarrow> 'a \<Rightarrow> 'a list" where
  "insert_right cmp as b =
     rev (dropWhile (\<lambda>a. 0 < cmp a b) (rev as)) @ b # rev (takeWhile (\<lambda>a. 0 < cmp a b) (rev as))"

lemma sort_sift_insert:
  "as \<noteq> [] \<Longrightarrow> sort_sift cmp 1 (length as) (as @ b # ys) = insert_right cmp as b @ ys"
proof (induction as arbitrary: ys rule: rev_induct)
  case (snoc a as)
  have swap: "((as @ [a]) @ b # ys)[length as := b, Suc (length as) := a] = as @ b # a # ys"
    by (simp add: list_update_append)
  show ?case
  proof (cases "cmp a b \<le> 0")
    case True
    then show ?thesis by (subst sort_sift.simps) (simp add: Let_def nth_append insert_right_def)
  next
    case False
    then have "sort_sift cmp 1 (length (as @ [a])) ((as @ [a]) @ b # ys) =
        (if 1 \<le> length as then sort_sift cmp 1 (length as) (as @ b # a # ys) else as @ b # a # ys)"
      using swap by (subst sort_sift.simps) (simp add: Let_def nth_append)
    then show ?thesis using snoc.IH [of "a # ys"] False by (cases "as = []") (simp_all add: insert_right_def Suc_le_eq)
  qed
qed simp

text \<open>What the order has to be: every two elements compare, and the relation is transitive.\<close>

definition comp_ok :: "('a \<Rightarrow> 'a \<Rightarrow> int) \<Rightarrow> bool" where
  "comp_ok cmp \<longleftrightarrow>
     (\<forall>a b. cmp a b \<le> 0 \<or> cmp b a \<le> 0) \<and> (\<forall>a b c. cmp a b \<le> 0 \<longrightarrow> cmp b c \<le> 0 \<longrightarrow> cmp a c \<le> 0)"

abbreviation sorted_by :: "('a \<Rightarrow> 'a \<Rightarrow> int) \<Rightarrow> 'a list \<Rightarrow> bool" where
  "sorted_by cmp \<equiv> sorted_wrt (\<lambda>a b. cmp a b \<le> 0)"

lemma sorted_insert_right:
  assumes "comp_ok cmp" and "sorted_by cmp as"
  shows "sorted_by cmp (insert_right cmp as b)"
proof -
  have total: "\<And>a b. cmp a b \<le> 0 \<or> cmp b a \<le> 0"
    and trans: "\<And>a b c. cmp a b \<le> 0 \<Longrightarrow> cmp b c \<le> 0 \<Longrightarrow> cmp a c \<le> 0"
    using assms(1) by (auto simp: comp_ok_def)
  show ?thesis
    using assms(2)
  proof (induction as rule: rev_induct)
    case (snoc a as)
    show ?case
    proof (cases "cmp a b \<le> 0")
      case True
      with snoc.prems trans show ?thesis by (auto simp: insert_right_def sorted_wrt_append)
    next
      case False
      then have "insert_right cmp (as @ [a]) b = insert_right cmp as b @ [a]" by (simp add: insert_right_def)
      moreover have "set (insert_right cmp as b) = insert b (set as)"
        by (auto simp: insert_right_def dest: set_dropWhileD set_takeWhileD)
          (metis Un_iff set_append set_rev takeWhile_dropWhile_id)
      moreover have "cmp b a \<le> 0" using False total [of a b] by auto
      ultimately show ?thesis using snoc by (auto simp: sorted_wrt_append)
    qed
  qed (simp add: insert_right_def)
qed

lemma sort_pass_sorts:
  assumes "comp_ok cmp"
  shows "1 \<le> i \<Longrightarrow> i < length xs \<Longrightarrow> sorted_by cmp (take i xs) \<Longrightarrow> sorted_by cmp (sort_pass cmp 1 i xs)"
proof (induction "length xs - i" arbitrary: i xs rule: less_induct)
  case less
  obtain as b ys where xs: "xs = as @ b # ys" "length as = i" using less.prems(2) id_take_nth_drop [of i xs] by fastforce
  then have "as \<noteq> []" using less.prems(1) by auto
  note sift = sort_sift_insert [OF this, of cmp b ys, folded xs(1), unfolded xs(2)]
  have len: "length (insert_right cmp as b) = i + 1"
    using arg_cong [OF sift, of length] xs by simp
  have sorted: "sorted_by cmp (insert_right cmp as b)"
    using sorted_insert_right [OF assms] less.prems(3) xs by simp
  show ?case
  proof (cases "i + 1 < length xs")
    case True
    have "sorted_by cmp (sort_pass cmp 1 (i + 1) (insert_right cmp as b @ ys))"
      by (rule less.hyps) (use True len sorted xs in auto)
    then show ?thesis using True sift xs len by (subst sort_pass.simps) (simp add: Let_def)
  next
    case False
    then have "ys = []" using xs by simp
    then show ?thesis using False sift sorted xs len by (subst sort_pass.simps) (simp add: Let_def)
  qed
qed

text \<open>The gaps go down to 1.\<close>

inductive gap_ok :: "nat \<Rightarrow> bool" where
  gap_1: "gap_ok 1"
| gap_3: "gap_ok h \<Longrightarrow> gap_ok (3 * h + 1)"

lemma sort_gap_ok:
  "gap = 0 \<or> gap_ok gap \<Longrightarrow> 1 < n \<Longrightarrow> 3 * gap + 1 < n \<Longrightarrow> gap_ok (sort_gap n gap) \<and> sort_gap n gap < n"
proof (induction n gap rule: sort_gap.induct)
  case (1 n gap)
  have ok: "gap_ok (3 * gap + 1)" using "1.prems"(1) gap_1 gap_3 [of gap] by auto
  have "3 * (3 * gap + 1) + 1 < n" if "3 * gap + 1 < (n - 1) div 3"
    using that by presburger
  with 1 ok show ?case by (subst (1 2) sort_gap.simps) (auto simp: Let_def)
qed

lemma sort_passes_sorts:
  assumes "comp_ok cmp" and "gap_ok gap"
  shows "gap < length xs \<Longrightarrow> sorted_by cmp (sort_passes cmp gap xs) \<and> mset (sort_passes cmp gap xs) = mset xs"
  using assms(2)
proof (induction gap arbitrary: xs)
  case gap_1
  have "sorted_by cmp (take 1 xs)" by (cases xs) simp_all
  then show ?case
    using gap_1 sort_pass_sorts [OF assms(1), of 1 xs] mset_sort_pass [of 1 1 xs cmp]
    by (subst (1 2) sort_passes.simps) (simp add: Let_def)
next
  case (gap_3 h)
  let ?ys = "sort_pass cmp (3 * h + 1) (3 * h + 1) xs"
  have m: "mset ?ys = mset xs" using gap_3.prems by (intro mset_sort_pass) auto
  then have "length ?ys = length xs" by (metis size_mset)
  then have "sorted_by cmp (sort_passes cmp h ?ys) \<and> mset (sort_passes cmp h ?ys) = mset ?ys"
    using gap_3 by simp
  moreover have "h \<noteq> 0" using gap_3.hyps by cases auto
  then have "sort_passes cmp (3 * h + 1) xs = sort_passes cmp h ?ys"
    by (subst sort_passes.simps) (simp add: Let_def)
  ultimately show ?case using m by simp
qed

lemma util_sort_perm:
  assumes "comp_ok cmp"
  shows "sorted_by cmp (util_sort cmp xs) \<and> mset (util_sort cmp xs) = mset xs"
proof (cases "1 < length xs")
  case True
  have "gap_ok (sort_gap (length xs) 0) \<and> sort_gap (length xs) 0 < length xs"
    using sort_gap_ok [of 0 "length xs"] True by simp
  then show ?thesis using sort_passes_sorts [OF assms] True by (simp add: util_sort_def)
next
  case False
  then show ?thesis by (cases xs) (auto simp: util_sort_def)
qed

text \<open>
  C20. The shell sort sorts: whatever the order, if it compares every two elements and is transitive,
  the result has the same elements as the array, each as often, in ascending order.
\<close>

theorem util_sort_sorts:
  assumes "comp_ok cmp"
  shows "sorted_by cmp (util_sort cmp xs) \<and> mset (util_sort cmp xs) = mset xs"
  by (rule util_sort_perm [OF assms])

section \<open>The default order\<close>

lemma strcmp_total: "strcmp s t \<le> 0 \<or> strcmp t s \<le> 0"
  by (induction s t rule: strcmp.induct) auto

lemma strcmp_trans: "strcmp s t \<le> 0 \<Longrightarrow> strcmp t u \<le> 0 \<Longrightarrow> strcmp s u \<le> 0"
proof (induction s arbitrary: t u)
  case Nil
  then show ?case by (cases u) auto
next
  case (Cons a s)
  then show ?case by (cases t; cases u) (auto split: if_splits)
qed

lemma strcmp_0: "strcmp s t = 0 \<longleftrightarrow> s = t"
  by (induction s t rule: strcmp.induct) auto

lemma strcmp_antisym: "strcmp s t \<le> 0 \<Longrightarrow> strcmp t s \<le> 0 \<Longrightarrow> s = t"
  by (induction s t rule: strcmp.induct) (auto split: if_splits)

lemma strcmp_asym: "strcmp s t < 0 \<Longrightarrow> \<not> strcmp t s < 0"
  using strcmp_antisym [of s t] strcmp_0 [of s t] by auto

text \<open>There is only one strictly ascending list of the same elements.\<close>

lemma strict_sorted_unique:
  assumes "\<And>a b. r a b \<Longrightarrow> \<not> r b a" and "sorted_wrt r xs" and "sorted_wrt r ys" and "set xs = set ys"
  shows "xs = ys"
  using assms(2-4)
proof (induction xs arbitrary: ys)
  case (Cons x xs)
  then obtain y zs where ys: "ys = y # zs" by (cases ys) auto
  have "x = y"
  proof (rule ccontr)
    assume "x \<noteq> y"
    moreover have "x \<in> insert y (set zs)" "y \<in> insert x (set xs)" using Cons.prems(3) unfolding ys by auto
    ultimately have "r y x" "r x y" using Cons.prems(1,2) unfolding ys by auto
    then show False using assms(1) by blast
  qed
  moreover have "x \<notin> set xs" "y \<notin> set zs" using Cons.prems(1,2) assms(1) unfolding ys by auto
  ultimately have "set xs = set zs" using Cons.prems(3) unfolding ys by auto
  then show ?case using Cons \<open>x = y\<close> unfolding ys by simp
qed simp

lemma util_sort_alpha_ok: "comp_ok util_sort_alpha"
  using strcmp_total strcmp_trans
  by (auto simp: comp_ok_def util_sort_alpha_def split: option.splits)

theorem util_sort_sorts_witness:
  "mset (util_sort util_sort_alpha [Some [51, 97], None, Some [49, 97], Some [50, 97], Some [49]]) =
    mset [Some [51, 97], None, Some [49, 97], Some [50, 97], Some [49]]"
  using util_sort_sorts [OF util_sort_alpha_ok] by blast

end
