(* ===== verification/LobKeys.thy ===== *)
theory LobKeys
  imports LobJson Util UtilSort
begin

text \<open>
  The fields of a JSON head by their place, and what \<open>src/lib/lob.c\<close> builds on that: counting,
  sorting, comparing and copying fields.
\<close>

section \<open>Elements by index\<close>

text \<open>An index that finds something is below the length of the text, so the loops over them end.\<close>

lemma js_CAP_index:
  "js_CAP key json e cur s = JsNext s' \<Longrightarrow> js_klen s = 0 \<Longrightarrow> js_index s' = js_index s \<and> js_klen s' = 0 \<and> js_val s' = js_val s"
  by (auto simp: js_CAP_def js_cap_def js_match_def split: option.splits if_splits js_step.splits)

definition index_inv :: "nat \<Rightarrow> nat \<Rightarrow> js_state \<Rightarrow> bool" where
  "index_inv i cur s \<longleftrightarrow> js_klen s = 0 \<and> i \<le> js_index s + cur \<and> (js_val s \<noteq> None \<longrightarrow> i < cur)"

lemma index_CAP:
  assumes "index_inv i cur s" and "js_klen s = 0"
  shows "case js_CAP key json e c s of JsReturn v n \<Rightarrow> v \<noteq> None \<longrightarrow> i < cur | JsNext s' \<Rightarrow> index_inv i cur s'"
  using assms
  by (auto simp: js_CAP_def js_cap_def js_match_def index_inv_def split: option.splits if_splits js_step.splits)

lemma index_push: "index_inv i cur s \<Longrightarrow> index_inv i (cur + 1) (js_push k c s)"
  by (auto simp: js_push_def index_inv_def)

lemma index_mono: "index_inv i cur s \<Longrightarrow> index_inv i (cur + 1) s"
  by (auto simp: index_inv_def)

lemma index_fields [simp]:
  "index_inv i cur (s\<lparr>js_go := g\<rparr>) = index_inv i cur s" "index_inv i cur (s\<lparr>js_depth := d\<rparr>) = index_inv i cur s"
  "index_inv i cur (s\<lparr>js_utf8 := u\<rparr>) = index_inv i cur s"
  by (simp_all add: index_inv_def)

lemma index_label:
  assumes "index_inv i cur s"
  shows "case js_label_step key json c l s of JsReturn v n \<Rightarrow> v \<noteq> None \<longrightarrow> i < cur | JsNext s' \<Rightarrow> index_inv i (cur + 1) s'"
proof -
  have klen: "js_klen s = 0" using assms by (simp add: index_inv_def)
  have cap: "case js_CAP key json e c t of JsReturn v n \<Rightarrow> v \<noteq> None \<longrightarrow> i < cur | JsNext s' \<Rightarrow> index_inv i (cur + 1) s'"
    if "index_inv i cur t" for e t
    using index_CAP [OF that, of key json e c] that index_mono
    by (auto simp: index_inv_def split: js_step.splits)
  show ?thesis
    using assms cap [of s 0] cap [of "s\<lparr>js_depth := js_depth s - 1\<rparr>" 1] index_push [OF assms] index_mono [OF assms]
    by (cases l) (auto simp: js_label_step_def Let_def split: js_step.splits)
qed

lemma index_byte:
  assumes "index_inv i cur s"
  shows "case js_byte key json c b s of JsReturn v n \<Rightarrow> v \<noteq> None \<longrightarrow> i < cur | JsNext s' \<Rightarrow> index_inv i (cur + 1) s'"
proof (cases "js_jump (js_go s) b = LUnbare")
  case True
  have klen: "js_klen s = 0" using assms by (simp add: index_inv_def)
  show ?thesis
  proof (cases "js_CAP key json 0 c s")
    case (JsReturn v n)
    then show ?thesis using True index_CAP [OF assms klen, of key json 0 c] by (simp add: js_byte_def)
  next
    case (JsNext s')
    then have "index_inv i cur (s'\<lparr>js_go := GoStruct\<rparr>)"
      using index_CAP [OF assms klen, of key json 0 c] by simp
    from index_label [OF this] JsNext True show ?thesis by (simp add: js_byte_def)
  qed
next
  case False
  then show ?thesis using index_label [OF assms] by (simp add: js_byte_def split: js_label.split)
qed

lemma index_loop:
  "index_inv i cur s \<Longrightarrow> fst (js0n_loop key json cs c s) \<noteq> None \<Longrightarrow> i < cur + length cs"
proof (induction cs arbitrary: cur c s)
  case (Cons b cs)
  show ?case
  proof (cases "js_byte key json c b s")
    case (JsReturn v n)
    then show ?thesis using index_byte [OF Cons.prems(1), of key json c b] Cons.prems(2) by simp
  next
    case (JsNext s')
    then have "index_inv i (cur + 1) s'" using index_byte [OF Cons.prems(1), of key json c b] by simp
    from Cons.IH [OF this] JsNext Cons.prems(2) show ?thesis by simp
  qed
qed simp

lemma js0n_index_bound: "fst (js0n None i json) \<noteq> None \<Longrightarrow> i < length json"
proof -
  assume f: "fst (js0n None i json) \<noteq> None"
  let ?s = "\<lparr>js_go = GoStruct, js_depth = 0, js_index = i, js_klen = 0, js_val = None, js_start = Some 0, js_utf8 = 0\<rparr>"
  have "index_inv i 0 ?s" by (simp add: index_inv_def)
  from index_loop [OF this, of "[]" json json 0] f show ?thesis by (auto simp: js0n_def split: if_splits)
qed

definition lob_get_index :: "lob \<Rightarrow> nat \<Rightarrow> bytes option" where
  "lob_get_index p i =
     (case js0n None i (head p) of
        (None, _) \<Rightarrow> None
      | (Some v, len) \<Rightarrow> if len = 0 then None else Some (unescape (take len (drop v (head p)))))"

lemma lob_get_index_bound: "lob_get_index p i \<noteq> None \<Longrightarrow> i < length (head p)"
  using js0n_index_bound [of i "head p"] by (auto simp: lob_get_index_def split: prod.splits option.splits)

text \<open>The count of elements, an odd one counts as none.\<close>

function count_elements :: "lob \<Rightarrow> nat \<Rightarrow> nat" where
  "count_elements p i = (if fst (js0n None i (head p)) \<noteq> None then count_elements p (i + 1) else i)"
  by pat_completeness auto
termination
  using js0n_index_bound by (relation "measure (\<lambda>(p, i). length (head p) - i)") (auto simp: diff_less_mono2)

declare count_elements.simps [simp del]

definition lob_keys :: "lob \<Rightarrow> nat" where
  "lob_keys p = (let i = count_elements p 0 in if i mod 2 \<noteq> 0 then 0 else i div 2)"

section \<open>Sorting\<close>

text \<open>Copying the field of a key; a call with \<open>NULL\<close> changes nothing.\<close>

definition copy_field :: "lob \<Rightarrow> bytes option \<Rightarrow> lob \<Rightarrow> c_fault + lob" where
  "copy_field from key to =
     (case key of
        None \<Rightarrow> Inr to
      | Some k \<Rightarrow>
          (case lob_get_raw from k of
             None \<Rightarrow> Inr to
           | Some v \<Rightarrow> lob_set_raw to k 0 (take (lob_get_len from k) (drop v (head from))) (lob_get_len from k)))"

fun copy_fields :: "lob \<Rightarrow> bytes option list \<Rightarrow> lob \<Rightarrow> c_fault + lob" where
  "copy_fields from [] to = Inr to"
| "copy_fields from (k # ks) to =
     (case copy_field from k to of Inl f \<Rightarrow> Inl f | Inr to \<Rightarrow> copy_fields from ks to)"

definition lob_sort :: "lob \<Rightarrow> c_fault + lob" where
  "lob_sort p =
     (let len = lob_keys p in
      if len = 0 then Inr p
      else
        let keys = util_sort util_sort_alpha (map (\<lambda>i. lob_get_index p (i * 2)) [0..<len]) in
        case copy_fields p keys lob_new of
          Inl f \<Rightarrow> Inl f
        | Inr tmp \<Rightarrow> lob_head p (Some (head tmp)) (head_len tmp))"

text \<open>The loop of \<open>lob_set_json\<close> and that of \<open>lob_cmp\<close>.\<close>

function set_json_loop :: "lob \<Rightarrow> nat \<Rightarrow> lob \<Rightarrow> c_fault + lob" where
  "set_json_loop json i p =
     (case lob_get_index json i of
        None \<Rightarrow> Inr p
      | Some key \<Rightarrow>
          (case copy_field json (Some key) p of Inl f \<Rightarrow> Inl f | Inr p \<Rightarrow> set_json_loop json (i + 2) p))"
  by pat_completeness auto
termination
  using lob_get_index_bound
  by (relation "measure (\<lambda>(json, i, p). length (head json) - i)") (force intro: diff_less_mono2)+

declare set_json_loop.simps [simp del]

definition lob_set_json :: "lob \<Rightarrow> lob \<Rightarrow> c_fault + lob" where
  "lob_set_json p json = set_json_loop json 0 p"

function cmp_loop :: "lob \<Rightarrow> lob \<Rightarrow> nat \<Rightarrow> bool" where
  "cmp_loop a b i =
     (case lob_get_index a i of
        None \<Rightarrow> True
      | Some s \<Rightarrow> if util_cmp (Some s) (lob_get_index b i) \<noteq> 0 then False else cmp_loop a b (i + 1))"
  by pat_completeness auto
termination
  using lob_get_index_bound
  by (relation "measure (\<lambda>(a, b, i). length (head a) - i)") (force intro: diff_less_mono2)+

declare cmp_loop.simps [simp del]

text \<open>\<open>lob_cmp\<close> also sorts both packets.\<close>

definition lob_cmp :: "lob \<Rightarrow> lob \<Rightarrow> c_fault + int \<times> lob \<times> lob" where
  "lob_cmp a b =
     (if body_len a \<noteq> body_len b then Inr (- 1, a, b)
      else if lob_keys a \<noteq> lob_keys b then Inr (- 1, a, b)
      else
        case (lob_sort a, lob_sort b) of
          (Inr a, Inr b) \<Rightarrow>
            if \<not> cmp_loop a b 0 then Inr (- 1, a, b)
            else Inr (sint (util_ct_memcmp (body a) (body b) (body_len a)), a, b)
        | (Inl f, _) \<Rightarrow> Inl f
        | (_, Inl f) \<Rightarrow> Inl f)"

section \<open>The elements of an object\<close>

text \<open>The elements of the object with the bytes that follow them.\<close>

definition quoted :: "bytes \<Rightarrow> bytes" where
  "quoted k = 34 # k @ [34]"

definition sep_text :: "(bytes \<times> u8) list \<Rightarrow> bytes" where
  "sep_text es = concat (map (\<lambda>e. fst e @ [snd e]) es)"

definition elements :: "(bytes \<times> bytes) list \<Rightarrow> (bytes \<times> u8) list" where
  "elements fs = concat (map (\<lambda>f. [(quoted (fst f), 58), (snd f, 44)]) fs)"

lemma sep_text_elements: "sep_text (elements fs) = concat (map (\<lambda>f. field_text f @ [44]) fs)"
  by (induction fs) (simp_all add: sep_text_def elements_def field_text_def key_text_def quoted_def)

lemma length_elements [simp]: "length (elements fs) = 2 * length fs"
  by (induction fs) (simp_all add: elements_def)

lemma skip_elements:
  assumes "\<forall>e \<in> set es. json_value (fst e) \<and> sep_byte (snd e)"
  shows "js0n_loop key json (sep_text es @ ys) cur (at_field 0 (length es + m) st) =
    js0n_loop key json ys (cur + length (sep_text es)) (at_field 0 m st)"
  using assms
proof (induction es arbitrary: cur)
  case (Cons e es)
  obtain v c where e: "e = (v, c)" by fastforce
  have v: "json_value v" "sep_byte c" using Cons.prems e by auto
  have "js0n_loop key json (v @ c # sep_text es @ ys) cur (at_field 0 (Suc (length es + m)) st) =
      js0n_loop key json (c # sep_text es @ ys) (cur + length v) (at_field 0 (length es + m) st)"
    using skip_element [OF v(1), of "Suc (length es + m)" 0 st c key json "sep_text es @ ys" cur] v(2) by simp
  also have "\<dots> = js0n_loop key json (sep_text es @ ys) (cur + length v + 1) (at_field 0 (length es + m) st)"
    using v(2) by (simp add: struct_byte at_field_def)
  also have "\<dots> = js0n_loop key json ys (cur + length v + 1 + length (sep_text es)) (at_field 0 m st)"
    using Cons by simp
  finally show ?case by (simp add: e sep_text_def add.assoc)
qed (simp add: sep_text_def)

lemma js0n_index_open:
  assumes "json = 123 # text"
  shows "js0n None i json = js0n_loop [] json text 1 (at_field 0 i (Some 0))"
proof -
  have "js_byte [] json 0 123 (at_field 0 i (Some 0)\<lparr>js_depth := 0\<rparr>) = JsNext (at_field 0 i (Some 0))"
    by (subst struct_byte(2)) (simp_all add: at_field_def open_byte_def)
  then show ?thesis using assms by (simp add: js0n_def at_field_def)
qed

lemma elements_ok:
  "list_all (\<lambda>f. key_ok (fst f) \<and> json_value (snd f)) fs \<Longrightarrow> \<forall>e \<in> set (elements fs). json_value (fst e) \<and> sep_byte (snd e)"
  by (induction fs) (auto simp: elements_def quoted_def key_ok_def sep_byte_def intro: value_str)

lemma js0n_index_key:
  assumes "fields_ok (fs @ (k, v) # gs)"
  shows "js0n None (2 * length fs) (object_text (fs @ (k, v) # gs)) =
    value_span (1 + length (sep_text (elements fs))) (quoted k)"
proof -
  note ok = fields_ok_split [OF assms]
  have k: "json_value (quoted k)" using ok by (auto simp: quoted_def key_ok_def intro: value_str)
  let ?json = "object_text (fs @ (k, v) # gs)"
  have json: "?json = 123 # sep_text (elements fs) @ quoted k @ 58 # v @ text_after gs"
    by (simp add: object_text_split text_before_def sep_text_elements key_text_def quoted_def)
  have "js0n_loop [] ?json (quoted k @ 58 # v @ text_after gs) (1 + length (sep_text (elements fs))) (at_field 0 0 (Some 0)) =
      value_span (1 + length (sep_text (elements fs))) (quoted k)"
    by (rule take_element [OF k]) (simp add: sep_byte_def)
  then show ?thesis
    using js0n_index_open [OF json, of "2 * length fs"] elements_ok [of fs] ok
      skip_elements [of "elements fs" "[]" ?json _ 1 0 "Some 0"] by simp
qed

lemma js0n_index_value:
  assumes "fields_ok (fs @ (k, v) # gs)"
  shows "js0n None (2 * length fs + 1) (object_text (fs @ (k, v) # gs)) = value_span (length (text_before fs k)) v"
proof -
  note ok = fields_ok_split [OF assms]
  have k: "json_value (quoted k)" using ok by (auto simp: quoted_def key_ok_def intro: value_str)
  let ?json = "object_text (fs @ (k, v) # gs)" and ?es = "elements fs @ [(quoted k, 58)]"
  obtain c cs where after: "text_after gs = c # cs" "c = 44 \<or> c = 125" using text_after_hd by blast
  have json: "?json = 123 # sep_text ?es @ v @ c # cs"
    by (simp add: object_text_split text_before_def sep_text_def sep_text_elements [unfolded sep_text_def] key_text_def
        quoted_def after)
  have es: "\<forall>e \<in> set ?es. json_value (fst e) \<and> sep_byte (snd e)"
    using elements_ok [of fs] ok k by (auto simp: sep_byte_def)
  have len: "1 + length (sep_text ?es) = length (text_before fs k)"
    by (simp add: text_before_def sep_text_def sep_text_elements [unfolded sep_text_def] key_text_def quoted_def)
  have "js0n_loop [] ?json (v @ c # cs) (1 + length (sep_text ?es)) (at_field 0 0 (Some 0)) =
      value_span (1 + length (sep_text ?es)) v"
    using ok after(2) by (intro take_element) (auto simp: sep_byte_def close_byte_def)
  then show ?thesis
    using js0n_index_open [OF json, of "2 * length fs + 1"] skip_elements [OF es, of "[]" ?json "v @ c # cs" 1 0 "Some 0"]
    by (simp only: len) simp
qed

lemma js0n_index_None:
  assumes "fields_ok fs" and "2 * length fs \<le> i"
  shows "js0n None i (object_text fs) = (None, 0)"
proof -
  let ?json = "object_text fs"
  have close: "js0n_loop [] ?json [125] cur (at_field 0 m (Some 0)) = (None, 0)" for cur m
    by (simp add: struct_byte at_field_def close_byte_def)
  show ?thesis
  proof (cases fs rule: rev_cases)
    case Nil
    then show ?thesis using js0n_index_open [of ?json "[125]" i] close by (simp add: object_text_def)
  next
    case (snoc gs f)
    obtain k v where f: "f = (k, v)" by fastforce
    have ok: "key_ok k \<and> json_value v \<and> list_all (\<lambda>f. key_ok (fst f) \<and> json_value (snd f)) gs"
      using fields_ok_split [of gs k v "[]"] assms(1) by (simp add: snoc f)
    let ?es = "elements gs @ [(quoted k, 58)]"
    have json: "?json = 123 # sep_text ?es @ v @ [125]"
      by (simp add: snoc f object_text_split text_before_def text_after_def sep_text_def
          sep_text_elements [unfolded sep_text_def] key_text_def quoted_def)
    have es: "\<forall>e \<in> set ?es. json_value (fst e) \<and> sep_byte (snd e)"
      using elements_ok [of gs] ok by (auto simp: sep_byte_def quoted_def key_ok_def intro: value_str)
    obtain m where m: "i = length ?es + Suc m" using assms(2) by (metis add_Suc_right snoc length_elements length_append_singleton
        less_eq_Suc_le le_Suc_ex add_Suc mult_Suc_right add_2_eq_Suc)
    have "js0n_loop [] ?json (v @ [125]) cur (at_field 0 (Suc m) (Some 0)) = (None, 0)" for cur
      using skip_element [of v "Suc m" 0 "Some 0" 125 "[]" ?json "[]" cur] ok close by (simp add: close_byte_def)
    then show ?thesis
      using js0n_index_open [OF json, of i] skip_elements [OF es, of "[]" ?json "v @ [125]" 1 "Suc m" "Some 0"] m by simp
  qed
qed

text \<open>The content of a value: a string without its quotes.\<close>

definition content :: "bytes \<Rightarrow> bytes" where
  "content v = (if hd v = 34 then butlast (tl v) else v)"

lemma content_quoted [simp]: "content (quoted k) = k"
  by (simp add: content_def quoted_def)

lemma take_span:
  assumes "json_value w" and "text = a @ w @ b"
  shows "\<exists>v. value_span (length a) w = (Some v, length (content w)) \<and> take (length (content w)) (drop v text) = content w"
proof (cases "hd w = 34")
  case True
  then obtain t where "w = 34 # t @ [34]" using json_value_text [OF assms(1)] by blast
  then show ?thesis using assms(2) by (simp add: value_span_def content_def)
next
  case False
  then show ?thesis using assms(2) by (simp add: value_span_def content_def)
qed

definition text_read :: "bytes \<Rightarrow> bytes option" where
  "text_read t = (if t = [] then None else Some (unescape t))"

lemma json_is_index:
  assumes "json_is p fs" and "i < length fs"
  shows "lob_get_index p (2 * i) = text_read (fst (fs ! i))"
    and "lob_get_index p (2 * i + 1) = text_read (content (snd (fs ! i)))"
proof -
  obtain k v where kv: "fs ! i = (k, v)" by fastforce
  obtain xs ys where fs: "fs = xs @ (k, v) # ys" and len: "length xs = i"
    using id_take_nth_drop [OF assms(2)] kv assms(2) by (metis length_take min.absorb4)
  have hd: "head p = object_text fs" "fields_ok fs" using json_is_head [OF assms(1)] assms(2) by (cases fs; simp)+
  note ok = fields_ok_split [OF hd(2) [unfolded fs]]
  have kt: "object_text fs = (123 # sep_text (elements xs)) @ quoted k @ [58] @ v @ text_after ys"
    by (simp add: fs object_text_split text_before_def sep_text_elements key_text_def quoted_def)
  have v: "object_text fs = text_before xs k @ v @ text_after ys" by (simp add: fs object_text_split)
  have "json_value (quoted k)" using ok by (auto simp: quoted_def key_ok_def intro: value_str)
  from take_span [OF this kt] js0n_index_key [OF hd(2) [unfolded fs]] kv len fs
  show "lob_get_index p (2 * i) = text_read (fst (fs ! i))"
    by (auto simp: lob_get_index_def hd(1) text_read_def)
  from take_span [OF _ v] ok js0n_index_value [OF hd(2) [unfolded fs]] kv len fs
  show "lob_get_index p (2 * i + 1) = text_read (content (snd (fs ! i)))"
    by (auto simp: lob_get_index_def hd(1) text_read_def)
qed

lemma json_is_index_end:
  assumes "json_is p fs" and "2 * length fs \<le> i"
  shows "fst (js0n None i (head p)) = None" and "lob_get_index p i = None"
proof -
  show n: "fst (js0n None i (head p)) = None"
  proof (cases "head p = object_text fs")
    case True
    then show ?thesis using js0n_index_None [OF _ assms(2)] assms(1) by (simp add: json_is_def)
  next
    case False
    then have "fs = []" "head_len p < 2" "lob_ok p" using assms(1) by (auto simp: json_is_def)
    then have "length (head p) < 2" using lob_raw_parts(2) [of p] by simp
    then have "head p = [] \<or> (\<exists>c. head p = [c])" by (cases "head p") auto
    then show ?thesis
    proof
      assume "\<exists>c. head p = [c]"
      then obtain c where c: "head p = [c]" ..
      let ?s = "\<lparr>js_go = GoStruct, js_depth = 0, js_index = i, js_klen = 0, js_val = None, js_start = Some 0, js_utf8 = 0\<rparr>"
      have "index_inv i 0 ?s" by (simp add: index_inv_def)
      from index_byte [OF this, of "[]" "[c]" 0 c] c show ?thesis by (auto simp: js0n_def split: js_step.split)
    qed (simp add: js0n_def)
  qed
  then show "lob_get_index p i = None" by (auto simp: lob_get_index_def split: option.splits prod.splits)
qed

section \<open>Sorting the fields\<close>

lemma json_is_keys:
  assumes "json_is p fs"
  shows "lob_keys p = length fs"
proof -
  have found: "fst (js0n None i (head p)) \<noteq> None" if "i < 2 * length fs" for i
  proof -
    have "i div 2 < length fs" "i = 2 * (i div 2) \<or> i = 2 * (i div 2) + 1" using that by presburger+
    then obtain j where j: "j < length fs" "i = 2 * j \<or> i = 2 * j + 1" by blast
    obtain k v where kv: "fs ! j = (k, v)" by fastforce
    obtain xs ys where fs: "fs = xs @ (k, v) # ys" "length xs = j"
      using id_take_nth_drop [OF j(1)] kv j(1) by (metis length_take min.absorb4)
    have hd: "head p = object_text fs" "fields_ok fs" using json_is_head [OF assms] j(1) by (cases fs; simp)+
    have span: "fst (value_span n w) \<noteq> None" for n w by (simp add: value_span_def)
    show ?thesis
      using j(2) js0n_index_key [OF hd(2) [unfolded fs]] js0n_index_value [OF hd(2) [unfolded fs]] span
      by (auto simp: hd(1) fs)
  qed
  have "count_elements p i = 2 * length fs" if "i \<le> 2 * length fs" for i
    using that
  proof (induction "2 * length fs - i" arbitrary: i)
    case 0
    then have "i = 2 * length fs" by simp
    then show ?case using json_is_index_end(1) [OF assms] by (subst count_elements.simps) simp
  next
    case (Suc n)
    then have "i < 2 * length fs" "count_elements p (i + 1) = 2 * length fs" by auto
    then show ?case using found by (subst count_elements.simps) simp
  qed
  then show ?thesis by (simp add: lob_keys_def Let_def)
qed

lemma copy_field_json:
  assumes "json_is p fs" and "map_of fs k = Some v" and "json_is to gs" and "k \<notin> set (map fst gs)"
  shows "\<exists>q. copy_field p (Some k) to = Inr q \<and> json_is q (gs @ [(k, v)]) \<and> body_len q = body_len to \<and> body q = body to"
proof -
  note v = json_some [OF assms(1,2)]
  obtain at where "lob_get_raw p k = Some at" "take (lob_get_len p k) (drop at (head p)) = v"
    using v(1) by (auto simp: lob_value_def)
  moreover obtain q where "lob_set_raw to k 0 v (lob_get_len p k) = Inr q" "json_is q (AList.update k v gs)"
    "body_len q = body_len to" "body q = body to"
    using set_raw_new [OF assms(3,4) v(3,4), of 0 "lob_get_len p k"] v(6) by auto
  ultimately show ?thesis using assms(4) by (auto simp: copy_field_def update_new)
qed

lemma copy_fields_json:
  assumes "json_is p fs" and "set ks \<subseteq> set (map fst fs)"
  shows "json_is to gs \<Longrightarrow> distinct (map fst gs @ ks) \<Longrightarrow>
    \<exists>q. copy_fields p (map Some ks) to = Inr q \<and> json_is q (gs @ map (\<lambda>k. (k, the (map_of fs k))) ks) \<and>
      body_len q = body_len to \<and> body q = body to"
  using assms(2)
proof (induction ks arbitrary: to gs)
  case (Cons k ks)
  obtain v where v: "map_of fs k = Some v"
    using Cons.prems(3) by (metis list.set_intros(1) map_of_eq_None_iff option.exhaust set_map subsetD)
  then obtain q where q: "copy_field p (Some k) to = Inr q" "json_is q (gs @ [(k, v)])"
    "body_len q = body_len to" "body q = body to"
    using copy_field_json [OF assms(1) v Cons.prems(1)] Cons.prems(2) by auto
  then show ?case using Cons.IH [OF q(2)] Cons.prems(2,3) v by auto
qed simp

lemma length_object_text_mset:
  assumes "mset fs = mset gs"
  shows "length (object_text fs) = length (object_text gs)"
proof -
  have len: "length (object_text fs) = (if fs = [] then 2 else 1 + sum_list (map (\<lambda>f. length (field_text f) + 1) fs))"
    for fs by (cases fs) (simp_all add: object_text_def length_concat comp_def)
  have "sum_list (map (\<lambda>f. length (field_text f) + 1) fs) = sum_list (map (\<lambda>f. length (field_text f) + 1) gs)"
    unfolding sum_mset_sum_list [symmetric] mset_map assms ..
  moreover have "fs = [] \<longleftrightarrow> gs = []" using assms by auto
  ultimately show ?thesis by (simp only: len [of fs] len [of gs])
qed

definition plain_keys :: "(bytes \<times> bytes) list \<Rightarrow> bool" where
  "plain_keys fs \<longleftrightarrow> (\<forall>f \<in> set fs. 92 \<notin> set (fst f))"

lemma plain_index:
  assumes "json_is p fs" and "plain_keys fs" and "i < length fs"
  shows "lob_get_index p (2 * i) = Some (fst (fs ! i))"
proof -
  have "key_ok (fst (fs ! i))" using assms(1,3) by (auto simp: json_is_def fields_ok_def list_all_length)
  then show ?thesis
    using json_is_index(1) [OF assms(1,3)] assms(2,3) by (simp add: text_read_def key_ok_def plain_keys_def unescape_plain)
qed

lemma lob_sort_json:
  assumes "json_is p fs" and "plain_keys fs"
  shows "\<exists>q gs. lob_sort p = Inr q \<and> json_is q gs \<and> mset gs = mset fs \<and>
    sorted_wrt (\<lambda>f g. strcmp (fst f) (fst g) < 0) gs \<and> body_len q = body_len p \<and> body q = body p"
proof (cases "fs = []")
  case True
  then have "lob_sort p = Inr p" using json_is_keys [OF assms(1)] by (simp add: lob_sort_def)
  with True assms(1) show ?thesis by auto
next
  case False
  let ?keys = "map (\<lambda>i. lob_get_index p (i * 2)) [0..<lob_keys p]"
  have distinct: "distinct (map fst fs)" using assms(1) by (simp add: json_is_def fields_ok_def)
  have "lob_get_index p (i * 2) = Some (fst (fs ! i))" if "i \<in> set [0..<length fs]" for i
    using plain_index [OF assms, of i] that by (simp only: mult.commute [of i 2]) simp
  then have "?keys = map (\<lambda>i. Some (fst (fs ! i))) [0..<length fs]"
    unfolding json_is_keys [OF assms(1)] by (rule map_cong [OF refl])
  also have "\<dots> = map Some (map fst fs)" by (rule nth_equalityI) simp_all
  finally have keys: "?keys = map Some (map fst fs)" .
  define sorted where "sorted = util_sort util_sort_alpha ?keys"
  have s: "sorted_by util_sort_alpha sorted" "mset sorted = mset (map Some (map fst fs))"
    using util_sort_perm [OF util_sort_alpha_ok, of ?keys] unfolding sorted_def keys by auto
  define ks where "ks = map the sorted"
  have "set sorted = Some ` set (map fst fs)" using s(2) by (metis set_map set_mset_mset)
  then have sks: "sorted = map Some ks" unfolding ks_def map_map by (intro map_idI [symmetric]) auto
  have ks: "mset ks = mset (map fst fs)"
    using s(2) by (simp add: ks_def) (metis image_mset.comp image_mset_cong multiset.map_comp multiset.map_ident_strong option.sel comp_apply mset_map)
  have sub: "set ks \<subseteq> set (map fst fs)" "distinct ks"
    using ks distinct by (metis set_mset_mset subset_refl, metis mset_eq_imp_distinct_iff)
  let ?gs = "map (\<lambda>k. (k, the (map_of fs k))) ks"
  obtain tmp where tmp: "copy_fields p sorted lob_new = Inr tmp" "json_is tmp ?gs"
    using copy_fields_json [OF assms(1) sub(1) json_is_new] sub(2) sks by auto
  have all: "map (\<lambda>k. (k, the (map_of fs k))) (map fst fs) = fs"
    unfolding map_map using distinct by (intro map_idI) auto
  have "mset ?gs = mset (map (\<lambda>k. (k, the (map_of fs k))) (map fst fs))" by (simp only: mset_map ks)
  then have gs: "mset ?gs = mset fs" unfolding all .
  have ne: "?gs \<noteq> []" using gs False by auto
  have head: "head tmp = object_text ?gs" "head p = object_text fs"
    using json_is_head(1) [OF tmp(2) ne] json_is_head(1) [OF assms(1) False] .
  have ok: "lob_ok tmp" "lob_ok p" "fields_ok ?gs" using tmp(2) assms(1) by (simp_all add: json_is_def)
  have len: "head_len tmp = head_len p" "lob_ok p" "fields_ok ?gs"
    using length_object_text_mset [OF gs] lob_raw_parts(2) [OF ok(1)] lob_raw_parts(2) [OF ok(2)] ok(2,3)
    unfolding head by simp_all
  obtain q where q: "lob_head p (Some (head tmp)) (head_len tmp) = Inr q" "lob_ok q" "head q = head tmp"
    "body_len q = body_len p" "body q = body p"
    using lob_head_result [OF len(2), of "head_len tmp" "Some (head tmp)"] len(1) lob_raw_parts(2) [OF ok(1)]
    by auto
  have "lob_keys p \<noteq> 0" using json_is_keys [OF assms(1)] False by simp
  then have "lob_sort p = Inr q" using tmp(1) q(1) by (simp add: lob_sort_def Let_def sorted_def)
  moreover have "sorted_wrt (\<lambda>a b. strcmp a b < 0) ks"
  proof -
    have "sorted_wrt (\<lambda>a b. strcmp a b \<le> 0) ks" using s(1) by (simp add: sks sorted_wrt_map util_sort_alpha_def)
    then have "sorted_wrt (\<lambda>a b. strcmp a b \<le> 0 \<and> a \<noteq> b) ks"
      using sub(2) by (simp add: sorted_wrt_iff_nth_less distinct_conv_nth)
    then show ?thesis by (rule sorted_wrt_mono_rel [rotated]) (use strcmp_0 in \<open>force simp: order.strict_iff_order\<close>)
  qed
  ultimately show ?thesis
    using q len(3) gs head(1) by (intro exI [of _ q] exI [of _ ?gs]) (simp add: json_is_def sorted_wrt_map)
qed


text \<open>A packet with the fields b and a, in this order.\<close>

definition demo_unsorted :: lob where
  "demo_unsorted = lob_put (lob_put lob_new ([98], [49])) ([97], [50])"

lemma demo_unsorted: "json_is demo_unsorted [([98], [49]), ([97], [50])]" "body_len demo_unsorted = 0"
proof -
  have v: "json_value [49]" "json_value [50]" by (rule value_bare, simp add: bare_word_def bare_start_def)+
  have k: "key_ok [98]" "key_ok [97]" by (simp_all add: key_ok_def str_char_def)
  have new: "body_len lob_new = 0" by (simp add: lob_new_def)
  obtain p where p: "lob_set_raw lob_new [98] 0 [49] 0 = Inr p" "json_is p [([98], [49])]" "body_len p = 0"
    using set_raw_no_body [OF json_is_new new k(1) v(1), of 0 0] by auto
  obtain q where q: "lob_set_raw p [97] 0 [50] 0 = Inr q" "json_is q [([98], [49]), ([97], [50])]" "body_len q = 0"
    using set_raw_no_body [OF p(2,3) k(2) v(2), of 0 0] by auto
  from p(1) q show "json_is demo_unsorted [([98], [49]), ([97], [50])]" "body_len demo_unsorted = 0"
    by (simp_all add: demo_unsorted_def lob_put_def)
qed


end
