(* ===== verification/HashKeys.thy ===== *)
theory HashKeys
  imports LobKeys Hashname
begin

text \<open>
  Hashnames from keys, the rest of \<open>src/lib/hashname.c\<close>. Keys are a packet whose fields are the ids of
  cipher sets in hexadecimal with the keys in base32; the intermediate form of it has the hashes of
  the keys instead, but for one of them the key itself in the body. \<open>H\<close> is \<open>e3x_hash\<close>.
\<close>

section \<open>The functions\<close>

definition true_text :: bytes where "true_text = map of_char ''true''"

text \<open>
  One round of the loop of \<open>hashname_vkey\<close>, on the 64 bytes of \<open>hash\<close>: the id is hashed behind the
  hash so far, the hash of the key behind the result. Only at the index 0 there is no hash yet.
\<close>

definition vkey_round ::
  "(bytes \<Rightarrow> bytes) \<Rightarrow> lob \<Rightarrow> bytes \<Rightarrow> nat \<Rightarrow> bytes \<Rightarrow> bytes \<Rightarrow> bytes \<Rightarrow> bytes option" where
  "vkey_round H key hexid i idc val hash =
     (let hash = c_store hash 32 (util_unhex idc 2);
          start = (if i = 0 then 32 else 0);
          hash = c_store hash 0 (H (take ((32 - start) + 1) (drop start hash)))
      in map_option (\<lambda>hash. c_store hash 0 (H (take 64 hash)))
           (if util_cmp (Some idc) (Some hexid) = 0 then
              (if body_len key = 0 then None else Some (c_store hash 32 (H (body key))))
            else if length val \<noteq> 52 then None
            else (case base32_decode val 32 of (n, out) \<Rightarrow> if n \<noteq> 32 then None else Some (c_store hash 32 out))))"

function vkey_loop ::
  "(bytes \<Rightarrow> bytes) \<Rightarrow> lob \<Rightarrow> bytes \<Rightarrow> nat \<Rightarrow> u8 \<Rightarrow> bytes \<Rightarrow> (nat \<times> u8 \<times> bytes) option" where
  "vkey_loop H key hexid i keys hash =
     (case lob_get_index key i of
        None \<Rightarrow> Some (i, keys, hash)
      | Some idc \<Rightarrow>
          (case lob_get_index key (i + 1) of
             None \<Rightarrow> vkey_loop H key hexid (i + 2) keys hash
           | Some val \<Rightarrow>
               if length idc \<noteq> 2 \<or> \<not> util_ishex idc 2 then vkey_loop H key hexid (i + 2) keys hash
               else
                 (case vkey_round H key hexid i idc val hash of
                    None \<Rightarrow> None
                  | Some hash \<Rightarrow> vkey_loop H key hexid (i + 2) (keys + 1) hash)))"
  by pat_completeness auto
termination
  using lob_get_index_bound
  by (relation "measure (\<lambda>(H, key, hexid, i, keys, hash). length (head key) - i)") (force intro: diff_less_mono2)+

declare vkey_loop.simps [simp del]

text \<open>The packet is sorted on the way and stays so.\<close>

definition hashname_vkey :: "(bytes \<Rightarrow> bytes) \<Rightarrow> lob \<Rightarrow> u8 \<Rightarrow> c_fault + lob \<times> hashname option" where
  "hashname_vkey H key csid =
     (case lob_sort key of
        Inl f \<Rightarrow> Inl f
      | Inr key \<Rightarrow>
          Inr (key,
            case vkey_loop H key (util_hex [csid]) 0 0 (replicate 64 0) of
              None \<Rightarrow> None
            | Some (i, keys, hash) \<Rightarrow>
                if keys = 0 then None
                else if i = 0 \<or> i mod 2 \<noteq> 0 then None
                else hashname_vbin (Some hash)))"

function id_loop :: "lob \<Rightarrow> lob \<Rightarrow> nat \<Rightarrow> u8 \<Rightarrow> u8" where
  "id_loop a b i best =
     (case lob_get_index a i of
        None \<Rightarrow> best
      | Some key \<Rightarrow>
          if length key \<noteq> 2 then id_loop a b (i + 2) best
          else if lob_get b key = None then id_loop a b (i + 2) best
          else
            let k = (case util_unhex key 2 of c # _ \<Rightarrow> c | [] \<Rightarrow> 0)
            in id_loop a b (i + 2) (if k > best then k else best))"
  by pat_completeness auto
termination
  using lob_get_index_bound
  by (relation "measure (\<lambda>(a, b, i, best). length (head a) - i)") (force intro: diff_less_mono2)+

declare id_loop.simps [simp del]

definition hashname_id :: "lob option \<Rightarrow> lob option \<Rightarrow> u8" where
  "hashname_id a b = (case (a, b) of (Some a, Some b) \<Rightarrow> id_loop a b 0 0 | _ \<Rightarrow> 0)"

text \<open>
  One round of \<open>hashname_im\<close>. The block for a decoded key is one that is reallocated; a length of 0
  frees it, and the function gives up.
\<close>

definition im_round ::
  "(bytes \<Rightarrow> bytes) \<Rightarrow> u8 \<Rightarrow> bytes \<Rightarrow> bytes \<Rightarrow> lob \<Rightarrow> c_fault + lob option" where
  "im_round H idc key val im =
     (let len = base32_decode_floor (length val); (n, out) = base32_decode val len in
      if idc \<noteq> 0 \<and> util_cmp (Some (util_hex [idc])) (Some key) = 0 then
        let im = lob_body im None len;
            im = im\<lparr>raw := c_store (raw im) (2 + head_len im) out\<rparr>
        in if n \<noteq> len then Inr (Some im)
           else (case lob_set_raw im key 0 true_text 4 of Inl f \<Rightarrow> Inl f | Inr im \<Rightarrow> Inr (Some im))
      else if len = 0 then Inr None
      else if n \<noteq> len then Inr (Some im)
      else (case lob_set_base32 im key (H out) of Inl f \<Rightarrow> Inl f | Inr im \<Rightarrow> Inr (Some im)))"

function im_loop :: "(bytes \<Rightarrow> bytes) \<Rightarrow> lob \<Rightarrow> u8 \<Rightarrow> nat \<Rightarrow> lob \<Rightarrow> c_fault + lob option" where
  "im_loop H keys idc i im =
     (case lob_get_index keys i of
        None \<Rightarrow> Inr (Some im)
      | Some key \<Rightarrow>
          (case lob_get_index keys (i + 1) of
             None \<Rightarrow> im_loop H keys idc (i + 2) im
           | Some val \<Rightarrow>
               if length key \<noteq> 2 then im_loop H keys idc (i + 2) im
               else
                 (case im_round H idc key val im of
                    Inl f \<Rightarrow> Inl f
                  | Inr None \<Rightarrow> Inr None
                  | Inr (Some im) \<Rightarrow> im_loop H keys idc (i + 2) im)))"
  by pat_completeness auto
termination
  using lob_get_index_bound
  by (relation "measure (\<lambda>(H, keys, idc, i, im). length (head keys) - i)") (force intro: diff_less_mono2)+

declare im_loop.simps [simp del]

definition hashname_im :: "(bytes \<Rightarrow> bytes) \<Rightarrow> lob \<Rightarrow> u8 \<Rightarrow> c_fault + lob option" where
  "hashname_im H keys idc = im_loop H keys idc 0 lob_new"

definition hashname_vkeys :: "(bytes \<Rightarrow> bytes) \<Rightarrow> lob \<Rightarrow> c_fault + hashname option" where
  "hashname_vkeys H keys =
     (case hashname_im H keys 0 of
        Inl f \<Rightarrow> Inl f
      | Inr None \<Rightarrow> Inr None
      | Inr (Some im) \<Rightarrow> (case hashname_vkey H im 0 of Inl f \<Rightarrow> Inl f | Inr (_, hn) \<Rightarrow> Inr hn))"

section \<open>One hashname for all forms\<close>

text \<open>Keys as pairs of an id and a key, and their text forms: in full, and intermediate.\<close>

type_synonym cs_keys = "(u8 \<times> bytes) list"

definition keys_ok :: "cs_keys \<Rightarrow> bool" where
  "keys_ok ks \<longleftrightarrow> distinct (map fst ks) \<and> (\<forall>k \<in> set ks. fst k \<noteq> 0 \<and> snd k \<noteq> [])"

definition full_field :: "u8 \<times> bytes \<Rightarrow> bytes \<times> bytes" where
  "full_field k = (util_hex [fst k], quoted (b32_text (snd k)))"

definition im_field :: "(bytes \<Rightarrow> bytes) \<Rightarrow> u8 \<Rightarrow> u8 \<times> bytes \<Rightarrow> bytes \<times> bytes" where
  "im_field H c k = (util_hex [fst k], if fst k = c then true_text else quoted (b32_text (H (snd k))))"

text \<open>What the loop of \<open>hashname_vkey\<close> computes.\<close>

fun rollup :: "(bytes \<Rightarrow> bytes) \<Rightarrow> bytes \<Rightarrow> cs_keys \<Rightarrow> bytes" where
  "rollup H h [] = h"
| "rollup H h (k # ks) = rollup H (H (H (h @ [fst k]) @ H (snd k))) ks"

lemma util_hex_inj: "util_hex [a] = util_hex [b] \<longleftrightarrow> a = b"
  by (metis list.inject util_unhex_hex)

lemma hex_digit_chars: "list_all str_char hex_digits" "length hex_digits = 16"
  by code_simp+

lemma util_hex_id:
  "length (util_hex [c]) = 2" "util_ishex (util_hex [c]) 2" "util_unhex (util_hex [c]) 2 = [c]"
  "list_all str_char (util_hex [c])" "util_hex [c] \<noteq> []"
proof -
  show len: "length (util_hex [c]) = 2" by (simp add: util_hex_def)
  then show "util_hex [c] \<noteq> []" by auto
  show "util_unhex (util_hex [c]) 2 = [c]" using util_unhex_hex [of "[c]"] len by (simp add: util_unhex_def)
  show "util_ishex (util_hex [c]) 2" using hex_byte(2) [of c] by (simp add: util_ishex_def util_hex_def)
  show "list_all str_char (util_hex [c])"
    using hex_digit_chars(1) [unfolded list_all_length hex_digit_chars(2), rule_format] nibbles(1,2) [of c]
    by (simp add: util_hex_def)
qed

lemma str_chars: "list_all str_char s \<Longrightarrow> 92 \<notin> set s" "list_all str_char s \<Longrightarrow> json_value (quoted s)"
  "list_all str_char s \<Longrightarrow> s \<noteq> [] \<Longrightarrow> text_read s = Some s \<and> key_ok s"
  by (auto simp: list_all_iff str_char_def text_read_def quoted_def key_ok_def
      intro!: unescape_plain value_str str_body_chars)

lemma true_text: "json_value true_text" "content true_text = true_text" "text_read true_text = Some true_text"
  "length true_text = 4"
proof -
  have b: "bare_word true_text" "hd true_text \<noteq> 34" "92 \<notin> set true_text" "length true_text = 4"
    by code_simp+
  then show "json_value true_text" "content true_text = true_text" "text_read true_text = Some true_text"
    "length true_text = 4"
    by (auto simp: content_def text_read_def unescape_plain intro: value_bare)
qed

lemma b32_text_ne: "bs \<noteq> [] \<Longrightarrow> b32_text bs \<noteq> []"
  using length_b32_text [of bs] by (cases bs) (auto simp: base32_encode_length_def)

lemma b32_text_floor: "base32_decode_floor (length (b32_text bs)) = length bs"
  by (simp add: length_b32_text base32_floor_encode)

lemmas field_facts = util_hex_id str_char_b32 b32_text_ne true_text

text \<open>The fields of both forms are those of a head.\<close>

lemma keys_distinct: "keys_ok ks \<Longrightarrow> distinct (map (\<lambda>k. util_hex [fst k]) ks)"
  by (auto simp: keys_ok_def distinct_map inj_on_def util_hex_inj)

lemma im_value: "json_value (snd (im_field H c k))"
  by (simp add: im_field_def true_text str_chars str_char_b32)

lemma im_read:
  assumes "length (H (snd k)) = 32"
  shows "text_read (content (snd (im_field H c k))) = Some (if fst k = c then true_text else b32_text (H (snd k)))"
proof -
  have "H (snd k) \<noteq> []" using assms by auto
  then show ?thesis by (simp add: im_field_def true_text str_chars str_char_b32 b32_text_ne)
qed

definition im_body :: "u8 \<Rightarrow> cs_keys \<Rightarrow> bytes" where
  "im_body c ks = (case map_of ks c of None \<Rightarrow> [] | Some b \<Rightarrow> b)"

lemma c_store_same: "length a = length b \<Longrightarrow> i \<le> length blk \<Longrightarrow> c_store (c_store blk i a) i b = c_store blk i b"
  by (simp add: c_store_def)

lemma body_filled:
  assumes "lob_ok im"
  shows "(let im = lob_body im None (length bs) in im\<lparr>raw := c_store (raw im) (2 + head_len im) bs\<rparr>) =
    lob_body im (Some bs) (length bs)"
  using assms by (simp add: lob_body_def Let_def c_store_same c_realloc_def lob_ok_def)

lemma im_round_result:
  assumes im: "json_is im (map (im_field H c) xs)" and "body im = im_body c xs"
    and k: "snd k \<noteq> []" "fst k \<noteq> 0" "fst k \<notin> fst ` set xs" and H: "length (H (snd k)) = 32"
  shows "\<exists>im'. im_round H c (util_hex [fst k]) (b32_text (snd k)) im = Inr (Some im') \<and>
    json_is im' (map (im_field H c) (xs @ [k])) \<and> body im' = im_body c (xs @ [k])"
proof -
  have new: "util_hex [fst k] \<notin> set (map fst (map (im_field H c) xs))"
  proof
    assume "util_hex [fst k] \<in> set (map fst (map (im_field H c) xs))"
    then obtain x where "x \<in> set xs" "util_hex [fst x] = util_hex [fst k]" by (auto simp: im_field_def)
    then show False using k(3) by (metis imageI util_hex_inj)
  qed
  have key: "key_ok (util_hex [fst k])" using str_chars(3) util_hex_id(4,5) by blast
  have dec: "base32_decode (b32_text (snd k)) (length (snd k)) = (length (snd k), snd k)"
    by (simp add: base32_decode_text)
  have none: "map_of xs (fst k) = None" using k(3) by (metis map_of_eq_None_iff)
  show ?thesis
  proof (cases "fst k = c")
    case True
    let ?im = "lob_body im (Some (snd k)) (length (snd k))"
    have "lob_ok im" using im by (simp add: json_is_def)
    note b = lob_body_result [OF this, of "Some (snd k)" "length (snd k)"]
    have im2: "json_is ?im (map (im_field H c) xs)"
      using im b by (auto simp: json_is_def) (simp add: lob_body_def)
    obtain q where q: "lob_set_raw ?im (util_hex [fst k]) 0 true_text 4 = Inr q"
      "json_is q (AList.update (util_hex [fst k]) true_text (map (im_field H c) xs))" "body q = body ?im"
      using set_raw_new [OF im2 new key true_text(1), of 0 4] true_text(4) by auto
    have "im_round H c (util_hex [fst k]) (b32_text (snd k)) im = Inr (Some q)"
      using q(1) True k(2) body_filled [OF \<open>lob_ok im\<close>, of "snd k"] dec
      by (simp add: im_round_def b32_text_floor util_cmp_0 Let_def)
    then show ?thesis
      using q(2,3) b True none new by (auto simp: update_new im_field_def im_body_def map_add_def)
  next
    case False
    let ?v = "quoted (b32_text (H (snd k)))"
    have v: "json_value ?v" by (simp add: str_chars str_char_b32)
    have "H (snd k) \<noteq> []" using H by auto
    have len: "length (b32_text (H (snd k))) = base32_encode_length 32 - 1" using length_b32_text H by metis
    obtain q where q: "lob_set_raw im (util_hex [fst k]) 0 ?v (length ?v) = Inr q"
      "json_is q (AList.update (util_hex [fst k]) ?v (map (im_field H c) xs))" "body q = body im"
      using set_raw_new [OF im new key v, of 0 "length ?v"] by auto
    have "lob_set_base32 im (util_hex [fst k]) (H (snd k)) = Inr q"
      using q(1) \<open>H (snd k) \<noteq> []\<close> len H
      by (simp add: lob_set_base32_def base32_encode_text quoted_def Let_def)
    then have "im_round H c (util_hex [fst k]) (b32_text (snd k)) im = Inr (Some q)"
      using False k(1) dec by (auto simp: im_round_def b32_text_floor util_cmp_0 util_hex_inj Let_def)
    then show ?thesis
      using q(2,3) assms(2) False new
      by (auto simp: update_new im_field_def im_body_def map_add_def split: option.split)
  qed
qed

lemma full_index:
  assumes "json_is keys (map full_field ks)" and "keys_ok ks" and "i < length ks"
  shows "lob_get_index keys (2 * i) = Some (util_hex [fst (ks ! i)])"
    and "lob_get_index keys (2 * i + 1) = Some (b32_text (snd (ks ! i)))"
proof -
  have "snd (ks ! i) \<noteq> []" using assms(2,3) by (auto simp: keys_ok_def)
  then show "lob_get_index keys (2 * i) = Some (util_hex [fst (ks ! i)])"
    "lob_get_index keys (2 * i + 1) = Some (b32_text (snd (ks ! i)))"
    using json_is_index [OF assms(1), of i] assms(3) str_chars(3) str_char_b32 b32_text_ne util_hex_id(4,5)
    by (simp_all add: full_field_def)
qed

lemma im_loop_result:
  assumes "json_is keys (map full_field ks)" and "keys_ok ks" and "\<And>b. length (H b) = 32"
  shows "ks = xs @ ys \<Longrightarrow> json_is im (map (im_field H c) xs) \<Longrightarrow> body im = im_body c xs \<Longrightarrow>
    \<exists>im'. im_loop H keys c (2 * length xs) im = Inr (Some im') \<and> json_is im' (map (im_field H c) ks) \<and>
      body im' = im_body c ks"
proof (induction ys arbitrary: xs im)
  case Nil
  then have "lob_get_index keys (2 * length xs) = None" using json_is_index_end(2) [OF assms(1)] by simp
  then show ?case using Nil by (subst im_loop.simps) simp
next
  case (Cons k ys)
  have ix: "lob_get_index keys (2 * length xs) = Some (util_hex [fst k])"
    "lob_get_index keys (Suc (2 * length xs)) = Some (b32_text (snd k))"
    using full_index [OF assms(1,2), of "length xs"] Cons.prems(1) by simp_all
  have k: "snd k \<noteq> []" "fst k \<noteq> 0" "fst k \<notin> fst ` set xs"
    using assms(2) Cons.prems(1) by (auto simp: keys_ok_def)
  obtain im' where im': "im_round H c (util_hex [fst k]) (b32_text (snd k)) im = Inr (Some im')"
    "json_is im' (map (im_field H c) (xs @ [k]))" "body im' = im_body c (xs @ [k])"
    using im_round_result [OF Cons.prems(2,3) k assms(3)] by blast
  then have "im_loop H keys c (2 * length xs) im = im_loop H keys c (2 * length (xs @ [k])) im'"
    using ix util_hex_id(1) by (subst im_loop.simps) simp
  then show ?case using Cons.IH [of "xs @ [k]" im'] Cons.prems(1) im' by simp
qed

lemma hashname_im_result:
  assumes "json_is keys (map full_field ks)" and "keys_ok ks" and "\<And>b. length (H b) = 32"
  shows "\<exists>im. hashname_im H keys c = Inr (Some im) \<and> json_is im (map (im_field H c) ks) \<and> body im = im_body c ks"
proof -
  have "body lob_new = im_body c []" by (simp add: im_body_def body_def lob_new_def)
  then show ?thesis
    using im_loop_result [OF assms, where xs = "[]" and ys = ks and im = lob_new and c = c] json_is_new by (simp add: hashname_im_def)
qed

text \<open>The loop of \<open>hashname_vkey\<close> over an intermediate form.\<close>

lemma vkey_round_result:
  assumes "length hash = 64" and "\<And>b. length (H b) = 32" and "lob_ok q"
    and "fst k = c \<Longrightarrow> body q = snd k \<and> snd k \<noteq> []"
  shows "\<exists>hash'. vkey_round H q (util_hex [c]) i (util_hex [fst k])
      (if fst k = c then true_text else b32_text (H (snd k))) hash = Some hash' \<and>
    length hash' = 64 \<and>
    take 32 hash' = H (H ((if i = 0 then [] else take 32 hash) @ [fst k]) @ H (snd k))"
proof -
  define h1 where "h1 = c_store hash 32 [fst k]"
  have h1: "take ((32 - (if i = 0 then 32 else 0)) + 1) (drop (if i = 0 then 32 else 0) h1) =
      (if i = 0 then [] else take 32 hash) @ [fst k]" "length h1 = 64"
    using assms(1) by (auto simp: h1_def c_store_def)
  define h2 where "h2 = c_store h1 0 (H ((if i = 0 then [] else take 32 hash) @ [fst k]))"
  have h2: "take 32 h2 = H ((if i = 0 then [] else take 32 hash) @ [fst k])" "length h2 = 64"
    using h1(2) assms(2) by (simp_all add: h2_def c_store_def)
  define h3 where "h3 = c_store h2 32 (H (snd k))"
  have h3: "take 64 h3 = H ((if i = 0 then [] else take 32 hash) @ [fst k]) @ H (snd k)" "length h3 = 64"
    using h2 assms(2) by (simp_all add: h3_def c_store_def)
  have len: "length (b32_text (H (snd k))) = 52"
    using assms(2) by (simp add: length_b32_text base32_encode_length_def)
  have dec: "base32_decode (b32_text (H (snd k))) 32 = (32, H (snd k))"
    using assms(2) by (simp add: base32_decode_text)
  have bl: "fst k = c \<Longrightarrow> body_len q \<noteq> 0" using assms(4) lob_raw_parts(3) [OF assms(3)] by (metis length_0_conv)
  have "vkey_round H q (util_hex [c]) i (util_hex [fst k]) (if fst k = c then true_text else b32_text (H (snd k))) hash =
      map_option (\<lambda>h. c_store h 0 (H (take 64 h))) (Some h3)"
    unfolding vkey_round_def Let_def util_hex_id(3) h1_def [symmetric] h1(1) h2_def [symmetric]
    using assms(4) bl len dec by (auto simp: h3_def util_cmp_0 util_hex_inj)
  then show ?thesis using h3 assms(2) by (simp add: c_store_def)
qed

lemma vkey_loop_result:
  assumes q: "json_is q (map (im_field H c) ks)" "\<And>k. k \<in> set ks \<Longrightarrow> fst k = c \<Longrightarrow> body q = snd k"
    and ks: "keys_ok ks" "ks \<noteq> []"
    and H: "\<And>b. length (H b) = 32"
  shows "ks = xs @ ys \<Longrightarrow> length hash = 64 \<Longrightarrow>
    \<exists>hash'. vkey_loop H q (util_hex [c]) (2 * length xs) n hash = Some (2 * length ks, n + of_nat (length ys), hash') \<and>
      take 32 hash' = rollup H (if xs = [] then [] else take 32 hash) ys"
proof (induction ys arbitrary: xs hash n)
  case Nil
  then have "lob_get_index q (2 * length xs) = None" using json_is_index_end(2) [OF q(1)] by simp
  then show ?case using Nil ks(2) by (subst vkey_loop.simps) simp
next
  case (Cons k ys)
  have i: "length xs < length ks" "ks ! length xs = k" using Cons.prems(1) by simp_all
  have ix: "lob_get_index q (2 * length xs) = Some (util_hex [fst k])"
    "lob_get_index q (Suc (2 * length xs)) = Some (if fst k = c then true_text else b32_text (H (snd k)))"
  proof -
    show "lob_get_index q (2 * length xs) = Some (util_hex [fst k])"
      using json_is_index(1) [OF q(1), of "length xs"] i str_chars(3) util_hex_id(4,5)
      by (simp add: im_field_def)
    show "lob_get_index q (Suc (2 * length xs)) = Some (if fst k = c then true_text else b32_text (H (snd k)))"
      using json_is_index(2) [OF q(1), of "length xs"] i im_read [of H k c, OF H] by simp
  qed
  have "body q = snd k \<and> snd k \<noteq> []" if "fst k = c"
  proof -
    have "k \<in> set ks" using Cons.prems(1) by simp
    then show ?thesis using q(2) [OF _ that] ks(1) by (simp add: keys_ok_def)
  qed
  moreover have "lob_ok q" using q(1) by (simp add: json_is_def)
  ultimately obtain hash1 where h: "vkey_round H q (util_hex [c]) (2 * length xs) (util_hex [fst k])
      (if fst k = c then true_text else b32_text (H (snd k))) hash = Some hash1" "length hash1 = 64"
    "take 32 hash1 = H (H ((if xs = [] then [] else take 32 hash) @ [fst k]) @ H (snd k))"
    using vkey_round_result [where H = H and hash = hash and q = q and k = k and c = c and i = "2 * length xs", OF Cons.prems(2) H] by auto
  have "vkey_loop H q (util_hex [c]) (2 * length xs) n hash =
      vkey_loop H q (util_hex [c]) (2 * length (xs @ [k])) (n + 1) hash1"
    using ix h(1) util_hex_id(1,2) [of "fst k"] by (subst vkey_loop.simps) simp
  then show ?case using Cons.IH [of "xs @ [k]" hash1 "n + 1"] Cons.prems(1) h(2,3) by (auto simp: add.assoc)
qed

text \<open>Sorting an intermediate form sorts the keys, in the same order for all forms.\<close>

definition key_order :: "u8 \<times> bytes \<Rightarrow> u8 \<times> bytes \<Rightarrow> bool" where
  "key_order j k \<longleftrightarrow> strcmp (util_hex [fst j]) (util_hex [fst k]) < 0"

lemma mset_map_split: "mset gs = mset (map f xs) \<Longrightarrow> \<exists>ys. gs = map f ys \<and> mset ys = mset xs"
proof (induction gs arbitrary: xs)
  case (Cons g gs)
  have "g \<in> set (map f xs)" using Cons.prems by (metis list.set_intros(1) set_mset_mset)
  then obtain x where "x \<in> set xs" and x: "g = f x" by auto
  then obtain a b where xs: "xs = a @ x # b" by (meson split_list)
  have "mset gs = mset (map f (a @ b))" using Cons.prems by (simp add: xs x)
  then obtain ys where "gs = map f ys" "mset ys = mset (a @ b)" using Cons.IH by blast
  then show ?case by (intro exI [of _ "x # ys"]) (simp add: xs x)
qed simp

lemma vkey_of_im:
  assumes "json_is im (map (im_field H c) ks)" and "\<And>k. k \<in> set ks \<Longrightarrow> fst k = c \<Longrightarrow> body im = snd k"
    and "keys_ok ks" and "ks \<noteq> []"
    and H: "\<And>b. length (H b) = 32"
  shows "\<exists>q sorted. hashname_vkey H im c = Inr (q, Some (rollup H [] sorted)) \<and> mset sorted = mset ks \<and>
    sorted_wrt key_order sorted \<and> body q = body im \<and> json_is q (map (im_field H c) sorted)"
proof -
  have "plain_keys (map (im_field H c) ks)"
    using str_chars(1) util_hex_id(4) by (auto simp: plain_keys_def im_field_def)
  then obtain q gs where q: "lob_sort im = Inr q" "json_is q gs" "mset gs = mset (map (im_field H c) ks)"
    "sorted_wrt (\<lambda>f g. strcmp (fst f) (fst g) < 0) gs" "body q = body im"
    using lob_sort_json [OF assms(1)] by blast
  obtain sorted where s: "gs = map (im_field H c) sorted" "mset sorted = mset ks"
    using mset_map_split [OF q(3)] by blast
  have set: "set sorted = set ks" using s(2) by (metis set_mset_mset)
  have "mset (map fst sorted) = mset (map fst ks)" using s(2) by simp
  then have dist: "distinct (map fst sorted)" using assms(3) by (metis keys_ok_def mset_eq_imp_distinct_iff)
  then have ok: "keys_ok sorted" "sorted \<noteq> []" using assms(3,4) set s(2) by (auto simp: keys_ok_def)
  have body: "body q = snd k" if "k \<in> set sorted" "fst k = c" for k
    using q(5) assms(2) that by (simp add: set)
  obtain hash where "vkey_loop H q (util_hex [c]) (2 * length []) 0 (replicate 64 0) =
      Some (2 * length sorted, 0 + of_nat (length sorted), hash)" "take 32 hash = rollup H [] sorted"
    using vkey_loop_result [OF q(2) [unfolded s(1)] body ok H, where xs = "[]" and ys = sorted and n = 0 and
        hash = "replicate 64 0"] by auto
  moreover have "(of_nat (length sorted) :: u8) \<noteq> 0"
  proof -
    have "set (map fst sorted) \<subseteq> UNIV - {0}" using ok(1) by (auto simp: keys_ok_def)
    then have "card (set (map fst sorted)) \<le> card (UNIV - {0 :: u8})" by (intro card_mono) auto
    then have "length sorted < 256" using distinct_card [OF dist] by (simp add: card_word card_Diff_singleton)
    moreover have "0 < length sorted" using ok(2) by simp
    ultimately show ?thesis by (simp add: of_nat_eq_0_iff word_of_nat_eq_0_iff nat_dvd_not_less)
  qed
  ultimately have "hashname_vkey H im c = Inr (q, Some (rollup H [] sorted))"
    using q(1) ok(2) by (simp add: hashname_vkey_def hashname_vbin_def)
  moreover have "sorted_wrt key_order sorted" using q(4) unfolding s(1) sorted_wrt_map im_field_def key_order_def [abs_def] by simp
  ultimately show ?thesis using s(2) q(2,5) s(1) by blast
qed

lemma im_body_of:
  assumes "body im = im_body c ks" and "keys_ok ks" and "k \<in> set ks" and "fst k = c"
  shows "body im = snd k"
proof -
  have "map_of ks c = Some (snd k)" using assms(2-4) by (metis keys_ok_def map_of_eq_Some_iff prod.collapse)
  then show ?thesis using assms(1) by (simp add: im_body_def)
qed

lemma sorted_keys_unique:
  assumes "sorted_wrt key_order xs" and "sorted_wrt key_order ys" and "mset xs = mset ys"
  shows "xs = ys"
proof -
  have "set xs = set ys" using assms(3) by (metis set_mset_mset)
  then show ?thesis
    using strict_sorted_unique [of key_order xs ys] assms(1,2) strcmp_asym by (auto simp: key_order_def)
qed

lemma any_form:
  assumes "json_is keys (map full_field ks)" and "keys_ok ks" and "ks \<noteq> []" and "\<And>b. length (H b) = 32"
  shows "\<exists>hn. hashname_vkeys H keys = Inr (Some hn) \<and>
    (\<exists>sorted. mset sorted = mset ks \<and> sorted_wrt key_order sorted \<and> hn = rollup H [] sorted) \<and>
    (\<forall>c \<in> fst ` set ks. \<exists>im q. hashname_im H keys c = Inr (Some im) \<and> body im = the (map_of ks c) \<and>
      hashname_vkey H im c = Inr (q, Some hn) \<and> json_is im (map (im_field H c) ks) \<and> lob_ok q \<and> body q = body im)"
proof -
  have form: "\<exists>im q sorted. hashname_im H keys c = Inr (Some im) \<and> body im = im_body c ks \<and>
      json_is im (map (im_field H c) ks) \<and> lob_ok q \<and> body q = body im \<and>
      hashname_vkey H im c = Inr (q, Some (rollup H [] sorted)) \<and> mset sorted = mset ks \<and> sorted_wrt key_order sorted"
    for c
  proof -
    obtain im where im: "hashname_im H keys c = Inr (Some im)" "json_is im (map (im_field H c) ks)" "body im = im_body c ks"
      using hashname_im_result [where H = H and c = c, OF assms(1,2,4)] by blast
    then show ?thesis
      using vkey_of_im [where H = H and c = c, OF im(2) im_body_of [OF im(3) assms(2)] assms(2-4)]
      unfolding json_is_def by blast
  qed
  obtain im q sorted where zero: "hashname_im H keys 0 = Inr (Some im)"
    "hashname_vkey H im 0 = Inr (q, Some (rollup H [] sorted))" "mset sorted = mset ks" "sorted_wrt key_order sorted"
    using form [of 0] by blast
  have unique: "rollup H [] other = rollup H [] sorted" if "mset other = mset ks" "sorted_wrt key_order other" for other
    using sorted_keys_unique [OF that(2) zero(4)] that(1) zero(3) by simp
  have "\<exists>im q. hashname_im H keys c = Inr (Some im) \<and> body im = the (map_of ks c) \<and>
      hashname_vkey H im c = Inr (q, Some (rollup H [] sorted)) \<and> json_is im (map (im_field H c) ks) \<and>
      lob_ok q \<and> body q = body im" if c: "c \<in> fst ` set ks" for c
  proof -
    have "map_of ks c \<noteq> None" using c by (metis map_of_eq_None_iff)
    then have "im_body c ks = the (map_of ks c)" by (auto simp: im_body_def)
    with form [of c] unique show ?thesis by metis
  qed
  moreover have "hashname_vkeys H keys = Inr (Some (rollup H [] sorted))" using zero(1,2) by (simp add: hashname_vkeys_def)
  ultimately show ?thesis using zero(3,4) by blast
qed

text \<open>
  Any packet with the ids and the hashes of the keys has this hashname; its body counts only if its
  cipher set is among them.
\<close>

lemma length_rollup:
  assumes "\<And>b. length (H b) = 32"
  shows "ks \<noteq> [] \<or> length h = 32 \<Longrightarrow> length (rollup H h ks) = 32"
  using assms by (induction ks arbitrary: h) auto

lemma vkey_form:
  assumes keys: "json_is keys (map full_field ks)" "keys_ok ks" "ks \<noteq> []" and H: "\<And>b. length (H b) = 32"
    and hn: "hashname_vkeys H keys = Inr (Some hn)"
    and im: "json_is im (map (im_field H c) ks)" "\<And>k. k \<in> set ks \<Longrightarrow> fst k = c \<Longrightarrow> body im = snd k"
  shows "\<exists>q. hashname_vkey H im c = Inr (q, Some hn) \<and> lob_ok q \<and> body q = body im" and "length hn = 32"
proof -
  obtain hn' where hn': "hashname_vkeys H keys = Inr (Some hn')"
    "\<exists>sorted. mset sorted = mset ks \<and> sorted_wrt key_order sorted \<and> hn' = rollup H [] sorted"
    using any_form [where H = H, OF keys H] by (elim exE) (rule that, (elim conjE, assumption)+)
  then obtain xs where xs: "mset xs = mset ks" "sorted_wrt key_order xs" "hn = rollup H [] xs"
    using hn by auto
  obtain q ys where q: "hashname_vkey H im c = Inr (q, Some (rollup H [] ys))" "mset ys = mset ks"
    "sorted_wrt key_order ys" "body q = body im" "json_is q (map (im_field H c) ys)"
    using vkey_of_im [where H = H and c = c, OF im keys(2,3) H] by blast
  have "xs = ys" using sorted_keys_unique [OF xs(2) q(3)] xs(1) q(2) by simp
  then show "\<exists>q. hashname_vkey H im c = Inr (q, Some hn) \<and> lob_ok q \<and> body q = body im"
    using q xs(3) by (auto simp: json_is_def)
  have "xs \<noteq> []" using xs(1) keys(3) by (metis mset_zero_iff_right)
  then show "length hn = 32" using length_rollup [where H = H and ks = xs and h = "[]", OF H] xs(3) by simp
qed

text \<open>
  C18. All forms of the same keys have one hashname. Whichever of the keys is attached to the
  intermediate form, and in whatever order the fields are, the receiver computes the hashname that
  the owner computes from the full keys: the roll up of the ids and the hashes of the keys, in the
  order of the ids.
\<close>

theorem hashname_any_form:
  assumes "json_is keys (map full_field ks)" and "keys_ok ks" and "ks \<noteq> []" and "\<And>b. length (H b) = 32"
  shows "\<exists>hn. hashname_vkeys H keys = Inr (Some hn) \<and>
    (\<exists>sorted. mset sorted = mset ks \<and> sorted_wrt key_order sorted \<and> hn = rollup H [] sorted) \<and>
    (\<forall>c \<in> fst ` set ks. \<exists>im q. hashname_im H keys c = Inr (Some im) \<and> body im = the (map_of ks c) \<and>
      hashname_vkey H im c = Inr (q, Some hn))"
proof -
  obtain hn where vkeys: "hashname_vkeys H keys = Inr (Some hn)"
    and rolled: "\<exists>sorted. mset sorted = mset ks \<and> sorted_wrt key_order sorted \<and> hn = rollup H [] sorted"
    and forms: "\<forall>c \<in> fst ` set ks. \<exists>im q. hashname_im H keys c = Inr (Some im) \<and> body im = the (map_of ks c) \<and>
      hashname_vkey H im c = Inr (q, Some hn) \<and> json_is im (map (im_field H c) ks) \<and> lob_ok q \<and> body q = body im"
    using any_form [where H = H, OF assms] by (elim exE) (rule that, (elim conjE, assumption)+)
  have "\<exists>im q. hashname_im H keys c = Inr (Some im) \<and> body im = the (map_of ks c) \<and>
      hashname_vkey H im c = Inr (q, Some hn)" if "c \<in> fst ` set ks" for c
    using bspec [OF forms that] by (elim exE conjE) (intro exI conjI, assumption+)
  then show ?thesis by (intro exI [of _ hn] conjI ballI vkeys rolled)
qed

text \<open>One key, the byte 1 of the cipher set 1a.\<close>

definition demo_keys :: lob where
  "demo_keys = lob_put lob_new (full_field (26, [1]))"

lemma demo_keys: "json_is demo_keys (map full_field [(26, [1])])" "keys_ok [(26, [1])]"
proof -
  let ?v = "quoted (b32_text [1])"
  have v: "json_value ?v" by (simp add: str_chars str_char_b32)
  have k: "key_ok (util_hex [26])" using str_chars(3) util_hex_id(4,5) by blast
  have new: "body_len lob_new = 0" by (simp add: lob_new_def)
  obtain p where "lob_set_raw lob_new (util_hex [26]) 0 ?v 0 = Inr p" "json_is p [(util_hex [26], ?v)]"
    using set_raw_no_body [OF json_is_new new k v, of 0 0] by auto
  then show "json_is demo_keys (map full_field [(26, [1])])"
    by (simp add: demo_keys_def lob_put_def full_field_def)
  show "keys_ok [(26, [1])]" by (simp add: keys_ok_def)
qed

theorem hashname_any_form_witness:
  "hashname_vkeys (\<lambda>b. replicate 32 0) demo_keys = Inr (Some (replicate 32 0)) \<and>
   (\<exists>im q. hashname_im (\<lambda>b. replicate 32 0) demo_keys 26 = Inr (Some im) \<and> body im = [1] \<and>
     hashname_vkey (\<lambda>b. replicate 32 0) im 26 = Inr (q, Some (replicate 32 0)))"
proof -
  obtain hn sorted where hn: "hashname_vkeys (\<lambda>b. replicate 32 0) demo_keys = Inr (Some hn)"
    "mset sorted = mset [(26, [1])]" "hn = rollup (\<lambda>b. replicate 32 0) [] sorted"
    "\<forall>c \<in> fst ` set [(26 :: u8, [1 :: u8])]. \<exists>im q. hashname_im (\<lambda>b. replicate 32 0) demo_keys c = Inr (Some im) \<and>
      body im = the (map_of [(26, [1])] c) \<and> hashname_vkey (\<lambda>b. replicate 32 0) im c = Inr (q, Some hn)"
    using hashname_any_form [where H = "\<lambda>b. replicate 32 0", OF demo_keys] by (metis length_replicate list.distinct(1))
  have "sorted = [(26, [1])]" using hn(2) by simp
  then show ?thesis using hn(1,3,4) by simp
qed

end
