(* ===== verification/MeshIn.thy ===== *)
theory MeshIn
  imports HashKeys LinkChans MeshOn
begin

text \<open>
  What a mesh does with packets and with the descriptions of peers: \<open>mesh_receive\<close>,
  \<open>mesh_receive_handshake\<close> and \<open>mesh_add\<close> of \<open>src/mesh.c\<close> with \<open>link_get_keys\<close> and \<open>link_get_key\<close> of
  \<open>src/link.c\<close>. The state is the mesh with its links, and the static hashname \<open>hn_vtmp\<close>, to which the
  functions on temporary hashnames return a pointer. The events are collected, with the address of
  their link. Decrypting and the handlers of the application are parameters.
\<close>

section \<open>The mesh\<close>

record 'e c_mesh =
  me_keys :: lob
  me_links :: "'e links"
  me_chans :: "nat \<Rightarrow> chan_heap \<times> nat option" \<comment> \<open>the channels of the link at an address\<close>
  me_ons :: "on_struct list"
  me_vtmp :: hashname
  me_next :: nat \<comment> \<open>where the next link is allocated\<close>
  me_out :: "(nat \<times> link_event) list"

definition link_at :: "'e c_mesh \<Rightarrow> nat \<Rightarrow> 'e clink" where
  "link_at m a = the (map_of (me_links m) a)"

definition set_link :: "nat \<Rightarrow> 'e clink \<Rightarrow> 'e c_mesh \<Rightarrow> 'e c_mesh" where
  "set_link a l m = m\<lparr>me_links := map (\<lambda>e. if fst e = a then (a, l) else e) (me_links m)\<rparr>"

definition put_out :: "nat \<Rightarrow> link_event list \<Rightarrow> 'e c_mesh \<Rightarrow> 'e c_mesh" where
  "put_out a es m = m\<lparr>me_out := me_out m @ map (Pair a) es\<rparr>"

text \<open>A temporary hashname stays in \<open>hn_vtmp\<close>; decoding a bad text leaves what it wrote there.\<close>

definition keep_hn :: "hashname option \<Rightarrow> 'e c_mesh \<Rightarrow> 'e c_mesh" where
  "keep_hn hn m = (case hn of None \<Rightarrow> m | Some h \<Rightarrow> m\<lparr>me_vtmp := h\<rparr>)"

definition keep_text :: "bytes option \<Rightarrow> 'e c_mesh \<Rightarrow> 'e c_mesh" where
  "keep_text str m =
     (case str of
        None \<Rightarrow> m
      | Some s \<Rightarrow> m\<lparr>me_vtmp := c_store (me_vtmp m) 0 (snd (base32_decode (take 52 (s @ [0])) 32))\<rparr>)"

definition mesh_link_get :: "hashname option \<Rightarrow> 'e c_mesh \<Rightarrow> 'e c_mesh \<times> nat option" where
  "mesh_link_get hn m =
     (case link_get (me_next m) (me_links m) hn of
        (ls, a) \<Rightarrow> (m\<lparr>me_links := ls, me_next := (if a = Some (me_next m) then me_next m + 1 else me_next m)\<rparr>, a))"

section \<open>Links by keys\<close>

definition load_at :: "'e link_env \<Rightarrow> nat \<Rightarrow> u8 \<Rightarrow> lob \<Rightarrow> 'e c_mesh \<Rightarrow> 'e c_mesh \<times> bool" where
  "load_at env a csid key m = (case link_load env (link_at m a) csid key of (l, ok) \<Rightarrow> (set_link a l m, ok))"

definition link_get_key :: "'e link_env \<Rightarrow> 'e c_mesh \<Rightarrow> lob \<Rightarrow> u8 \<Rightarrow> c_fault + 'e c_mesh \<times> nat option" where
  "link_get_key env m key csid =
     (if hashname_id (Some (me_keys m)) (Some key) > csid then Inr (m, None)
      else
        and_then (hashname_vkey (le_hash env) key csid) (\<lambda>(key, hn).
          case mesh_link_get hn (keep_hn hn m) of
            (m, None) \<Rightarrow> Inr (m, None)
          | (m, Some a) \<Rightarrow>
              if cl_key (link_at m a) \<noteq> None then Inr (m, Some a)
              else (case load_at env a csid key m of (m, ok) \<Rightarrow> Inr (m, if ok then Some a else None))))"

definition link_get_keys :: "'e link_env \<Rightarrow> 'e c_mesh \<Rightarrow> lob option \<Rightarrow> c_fault + 'e c_mesh \<times> nat option" where
  "link_get_keys env m keys =
     (case keys of
        None \<Rightarrow> Inr (m, None)
      | Some keys \<Rightarrow>
          let csid = hashname_id (Some (me_keys m)) (Some keys) in
          if csid = 0 then Inr (m, None)
          else
            and_then (hashname_im (le_hash env) keys csid) (\<lambda>key.
              case key of None \<Rightarrow> Inr (m, None) | Some key \<Rightarrow> link_get_key env m key csid))"

section \<open>Adding a peer\<close>

text \<open>
  \<open>lob_get_array\<close>: the elements of an array as packets. An empty value has no first byte to look at.
\<close>

lemma js0n_index_some: "(Some v, len) = js0n None i json \<Longrightarrow> i < length json"
  using js0n_index_bound [of i json] by (metis fst_conv option.distinct(1))

function array_elements :: "bytes \<Rightarrow> nat \<Rightarrow> c_fault + lob list" where
  "array_elements json i =
     (case js0n None i json of
        (None, _) \<Rightarrow> Inr []
      | (Some v, len) \<Rightarrow>
          let n = unat (of_nat len :: u16) in
          and_then (lob_head lob_new (Some (take n (drop v json))) n) (\<lambda>p.
          and_then (array_elements json (i + 1)) (\<lambda>ps. Inr (p # ps))))"
  by pat_completeness auto
termination
  using js0n_index_some
  by (relation "measure (\<lambda>(json, i). length json - i)") (force intro: diff_less_mono2)+

declare array_elements.simps [simp del]

definition lob_get_array :: "lob \<Rightarrow> bytes \<Rightarrow> c_fault + lob list" where
  "lob_get_array p key =
     (case lob_get_json p key of
        None \<Rightarrow> Inr []
      | Some r \<Rightarrow>
          and_then r (\<lambda>parr.
            if head parr = [] then Inl OverRead
            else if hd (head parr) \<noteq> 91 then Inr []
            else array_elements (head parr) 0))"

text \<open>\<open>mesh_path\<close>: the handlers of paths, up to the first that makes a pipe.\<close>

fun path_cbs ::
  "(nat \<Rightarrow> 'm \<Rightarrow> c_fault + 'm \<times> bool) \<Rightarrow> on_struct list \<Rightarrow> 'm \<Rightarrow> c_fault + 'm" where
  "path_cbs app [] m = Inr m"
| "path_cbs app (on # ons) m =
     (case on_path on of
        None \<Rightarrow> path_cbs app ons m
      | Some cb \<Rightarrow> and_then (app cb m) (\<lambda>(m, ok). if ok then Inr m else path_cbs app ons m))"

type_synonym 'e path_app = "nat \<Rightarrow> nat \<Rightarrow> lob \<Rightarrow> 'e c_mesh \<Rightarrow> c_fault + 'e c_mesh \<times> bool"

fun add_paths :: "'e path_app \<Rightarrow> nat option \<Rightarrow> lob list \<Rightarrow> 'e c_mesh \<Rightarrow> c_fault + 'e c_mesh" where
  "add_paths app a [] m = Inr m"
| "add_paths app None (p # ps) m = add_paths app None ps m"
| "add_paths app (Some a) (p # ps) m =
     and_then (path_cbs (\<lambda>cb. app cb a p) (me_ons m) m) (add_paths app (Some a) ps)"

definition hashname_key :: bytes where "hashname_key = map of_char ''hashname''"
definition keys_key :: bytes where "keys_key = map of_char ''keys''"
definition paths_key :: bytes where "paths_key = map of_char ''paths''"

definition read_json :: "lob \<Rightarrow> bytes \<Rightarrow> c_fault + lob option" where
  "read_json p key = (case lob_get_json p key of None \<Rightarrow> Inr None | Some r \<Rightarrow> and_then r (\<lambda>q. Inr (Some q)))"

definition mesh_add ::
  "'e link_env \<Rightarrow> 'e path_app \<Rightarrow> 'e c_mesh \<Rightarrow> lob \<Rightarrow> c_fault + 'e c_mesh \<times> nat option" where
  "mesh_add env app m json =
     (let str = lob_get json hashname_key;
          (m, a) = mesh_link_get (hashname_vchar str) (keep_text str m) in
      and_then (read_json json keys_key) (\<lambda>keys.
      and_then (lob_get_array json paths_key) (\<lambda>paths.
      and_then (if a = None then link_get_keys env m keys else Inr (m, a)) (\<lambda>(m, a).
        let m = (case (keys, a) of
                   (Some keys, Some a) \<Rightarrow> fst (load_at env a (hashname_id (Some (me_keys m)) (Some keys)) keys m)
                 | _ \<Rightarrow> m) in
        and_then (add_paths app a paths m) (\<lambda>m. Inr (m, a))))))"

section \<open>Handshakes\<close>

text \<open>\<open>mesh_discover\<close>\<close>

fun discover_cbs :: "(nat \<Rightarrow> lob \<Rightarrow> 'm \<Rightarrow> c_fault + 'm) \<Rightarrow> nat list \<Rightarrow> lob \<Rightarrow> 'm \<Rightarrow> c_fault + 'm" where
  "discover_cbs app [] p m = Inr m"
| "discover_cbs app (cb # cbs) p m = and_then (app cb p m) (discover_cbs app cbs p)"

definition mesh_discover ::
  "(nat \<Rightarrow> lob \<Rightarrow> 'e c_mesh \<Rightarrow> c_fault + 'e c_mesh) \<Rightarrow> lob \<Rightarrow> 'e c_mesh \<Rightarrow> c_fault + 'e c_mesh" where
  "mesh_discover app p m = discover_cbs app (mesh_discover_calls (me_ons m)) p m"

definition id_key :: bytes where "id_key = map of_char ''id''"
definition link_word :: bytes where "link_word = map of_char ''link''"

definition normalize_handshake :: "u32 \<Rightarrow> lob \<Rightarrow> c_fault + lob" where
  "normalize_handshake now p =
     and_then (if lob_get p type_key = None then lob_set p type_key link_word else Inr p) (\<lambda>p.
       if lob_get_uint p at_key = 0 then lob_set_uint p at_key now else Inr p)"

text \<open>The first byte of the outer packet's head, or the field of the inner one.\<close>

definition handshake_csid :: "lob \<Rightarrow> lob option \<Rightarrow> c_fault + u8" where
  "handshake_csid p outer =
     (case outer of
        None \<Rightarrow> Inr (inner_csid p)
      | Some q \<Rightarrow> if length (raw q) < 3 then Inl OverRead else Inr (raw q ! 2))"

text \<open>The body, a packet of keys, gives the hashname and is replaced by the key.\<close>

definition attach_hashname :: "(bytes \<Rightarrow> bytes) \<Rightarrow> u8 \<Rightarrow> lob \<Rightarrow> c_fault + (lob \<times> hashname) option" where
  "attach_hashname H csid p =
     (case lob_parse (Some (body p)) of
        None \<Rightarrow> Inr None
      | Some tmp \<Rightarrow>
          and_then (hashname_vkey H tmp csid) (\<lambda>(tmp, from).
          case from of
            None \<Rightarrow> Inr None
          | Some from \<Rightarrow>
              and_then (lob_set p csid_key (util_hex [csid])) (\<lambda>p.
              and_then (lob_set p hashname_key (the (hashname_char (Some from)))) (\<lambda>p.
              and_then (lob_set_raw p (util_hex [csid]) 2 true_text 4) (\<lambda>p.
                Inr (Some (lob_body p (Some (body tmp)) (body_len tmp), from)))))))"

text \<open>
  The key in the field \<open>keys\<close>. Without a key the new packet has no head, \<open>NULL\<close>, and no field is set.
\<close>

definition extend_keys :: "u8 \<Rightarrow> lob \<Rightarrow> c_fault + lob" where
  "extend_keys csid p =
     and_then (lob_set_base32 lob_new (util_hex [csid]) (body p)) (\<lambda>tmp.
       if head_len tmp = 0 then Inr p
       else lob_set_raw p keys_key 0 (head tmp) (head_len tmp))"

text \<open>A handshake for a link, and any handshake.\<close>

definition receive_link_handshake ::
  "'e link_env \<Rightarrow> (nat \<Rightarrow> lob \<Rightarrow> 'e c_mesh \<Rightarrow> c_fault + 'e c_mesh) \<Rightarrow> 'e c_mesh \<Rightarrow> u8 \<Rightarrow> lob \<Rightarrow> lob option \<Rightarrow>
    c_fault + 'e c_mesh \<times> nat option" where
  "receive_link_handshake env disc m csid p outer =
     and_then (attach_hashname (le_hash env) csid p) (\<lambda>r.
       case r of
         None \<Rightarrow> Inr (m, None)
       | Some (p, hn) \<Rightarrow>
           let m = keep_hn (Some hn) m in
           case mesh_linkid (me_links m) (Some hn) of
             Some a \<Rightarrow>
               and_then (link_receive_handshake env (link_at m a) p outer) (\<lambda>(l, es, ok).
                 Inr (put_out a es (set_link a l m), if ok then Some a else None))
           | None \<Rightarrow>
               and_then (extend_keys csid p) (\<lambda>p.
               and_then (mesh_discover disc p m) (\<lambda>m.
                 Inr (m, mesh_linkid (me_links m) (Some (me_vtmp m))))))"

definition mesh_receive_handshake ::
  "'e link_env \<Rightarrow> (nat \<Rightarrow> lob \<Rightarrow> 'e c_mesh \<Rightarrow> c_fault + 'e c_mesh) \<Rightarrow> 'e c_mesh \<Rightarrow> lob \<Rightarrow> lob option \<Rightarrow>
    c_fault + 'e c_mesh \<times> nat option" where
  "mesh_receive_handshake env disc m p outer =
     (if lob_get p id_key = None then Inr (m, None)
      else
        and_then (normalize_handshake (le_now env) p) (\<lambda>p.
        if util_cmp (lob_get p type_key) (Some link_word) \<noteq> 0
        then and_then (mesh_discover disc p m) (\<lambda>m. Inr (m, None))
        else
          and_then (handshake_csid p outer) (\<lambda>csid.
          if csid = 0 then Inr (m, None) else receive_link_handshake env disc m csid p outer)))"

section \<open>Packets\<close>

text \<open>The two parts of a link as one, for \<open>link_receive\<close>.\<close>

definition chan_link_at :: "'e c_mesh \<Rightarrow> nat \<Rightarrow> 'e chan_link" where
  "chan_link_at m a = \<lparr>lc_link = link_at m a, lc_heap = fst (me_chans m a), lc_first = snd (me_chans m a)\<rparr>"

definition set_chan_link :: "nat \<Rightarrow> 'e chan_link \<Rightarrow> 'e c_mesh \<Rightarrow> 'e c_mesh" where
  "set_chan_link a l m =
     set_link a (lc_link l) (m\<lparr>me_chans := (me_chans m)(a := (lc_heap l, lc_first l))\<rparr>)"

definition link_by_token :: "'e links \<Rightarrow> bytes \<Rightarrow> nat option" where
  "link_by_token ls token =
     map_option fst
       (find (\<lambda>l. case cl_x (snd l) of None \<Rightarrow> False | Some x \<Rightarrow> memcmp (xtoken x) token 8 = 0) ls)"

record 'e receivers =
  rc_decrypt :: "lob \<Rightarrow> lob option" \<comment> \<open>\<open>e3x_self_decrypt\<close>\<close>
  rc_discover :: "nat \<Rightarrow> lob \<Rightarrow> 'e c_mesh \<Rightarrow> c_fault + 'e c_mesh"
  rc_chan :: "nat \<Rightarrow> chan \<Rightarrow> chan" \<comment> \<open>the handlers of channels\<close>
  rc_open :: "'e chan_link \<Rightarrow> lob \<Rightarrow> 'e chan_link \<times> bool" \<comment> \<open>\<open>mesh_open\<close>\<close>

definition receive_routed :: "'e c_mesh \<Rightarrow> lob \<Rightarrow> c_fault + 'e c_mesh \<times> nat option" where
  "receive_routed m outer =
     (let i = hashname_sbin (Some (head outer)); m = keep_hn i m in
      case mesh_linkid (me_links m) i of
        None \<Rightarrow> Inr (m, None)
      | Some a \<Rightarrow> Inr (put_out a (link_send (link_at m a) (lob_parse (Some (body outer)))) m, None))"

definition receive_sealed ::
  "'e link_env \<Rightarrow> 'e receivers \<Rightarrow> 'e c_mesh \<Rightarrow> lob \<Rightarrow> c_fault + 'e c_mesh \<times> nat option" where
  "receive_sealed env rc m outer =
     (case rc_decrypt rc outer of
        None \<Rightarrow> Inr (m, None)
      | Some inner \<Rightarrow>
          if body_len outer < 10 then Inl OverRead
          else
            and_then (lob_set inner id_key (base32_encode (take 10 (body outer)) 17)) (\<lambda>inner.
              mesh_receive_handshake env (rc_discover rc) m inner (Some outer)))"

definition receive_channel ::
  "'e link_env \<Rightarrow> 'e receivers \<Rightarrow> 'e c_mesh \<Rightarrow> lob \<Rightarrow> (c_fault + 'e c_mesh \<times> nat option) option" where
  "receive_channel env rc m outer =
     (if body_len outer < 16 then Some (Inr (m, None))
      else
        case link_by_token (me_links m) (body outer) of
          None \<Rightarrow> Some (Inr (m, None))
        | Some a \<Rightarrow>
            (case cl_x (link_at m a) of
               None \<Rightarrow> Some (Inr (m, None))
             | Some x \<Rightarrow>
                 (case e3x_exchange_receive (le_cs env (xcsid x)) x outer of
                    None \<Rightarrow> Some (Inr (m, None))
                  | Some inner \<Rightarrow>
                      map_option (\<lambda>r. and_then r (\<lambda>(l, ok). Inr (set_chan_link a l m, if ok then Some a else None)))
                        (link_receive (rc_chan rc) (rc_open rc) (chan_link_at m a) inner))))"

text \<open>Everything else goes to discovery; a description of a link gets the fields of a handshake.\<close>

definition receive_bare ::
  "'e link_env \<Rightarrow> 'e receivers \<Rightarrow> 'e c_mesh \<Rightarrow> lob \<Rightarrow> c_fault + 'e c_mesh \<times> nat option" where
  "receive_bare env rc m outer =
     and_then (read_json outer keys_key) (\<lambda>keys.
     and_then (case keys of None \<Rightarrow> Inr None | Some keys \<Rightarrow> hashname_vkeys (le_hash env) keys) (\<lambda>hn.
     and_then (case hn of
         None \<Rightarrow> Inr outer
       | Some hn \<Rightarrow>
           and_then (lob_set outer hashname_key (the (hashname_char (Some hn)))) (\<lambda>p.
           and_then (lob_set_int p at_key 0) (\<lambda>p. lob_set p type_key link_word))) (\<lambda>p.
     and_then (mesh_discover (rc_discover rc) p (keep_hn hn m)) (\<lambda>m.
       Inr (m, mesh_linked (me_links m) (lob_get p hashname_key) 0)))))"

definition mesh_receive ::
  "'e link_env \<Rightarrow> 'e receivers \<Rightarrow> 'e c_mesh \<Rightarrow> lob \<Rightarrow> (c_fault + 'e c_mesh \<times> nat option) option" where
  "mesh_receive env rc m outer =
     (if head_len outer = 5 then Some (receive_routed m outer)
      else if head_len outer = 1 then Some (receive_sealed env rc m outer)
      else if head_len outer = 0 then receive_channel env rc m outer
      else Some (receive_bare env rc m outer))"

section \<open>Only discovery adds links\<close>

definition link_ids :: "'e c_mesh \<Rightarrow> (nat \<times> hashname) list" where
  "link_ids m = map (\<lambda>l. (fst l, cl_id (snd l))) (me_links m)"

text \<open>The links are those of before, and what was returned is one of them.\<close>

definition same_links :: "'e c_mesh \<Rightarrow> 'e c_mesh \<times> nat option \<Rightarrow> bool" where
  "same_links m r \<longleftrightarrow>
     link_ids (fst r) = link_ids m \<and> (\<forall>a. snd r = Some a \<longrightarrow> a \<in> fst ` set (me_links m))"

lemma same_links_fields [simp]:
  "link_ids (keep_hn hn m) = link_ids m" "me_links (keep_hn hn m) = me_links m"
  "link_ids (put_out a es m) = link_ids m" "me_links (put_out a es m) = me_links m"
  by (simp_all add: link_ids_def keep_hn_def put_out_def split: option.split)

lemma link_ids_addrs: "link_ids m' = link_ids m \<Longrightarrow> fst ` set (me_links m') = fst ` set (me_links m)"
proof -
  assume "link_ids m' = link_ids m"
  then have "map fst (link_ids m') = map fst (link_ids m)" by simp
  then have "map fst (me_links m') = map fst (me_links m)" by (simp add: link_ids_def comp_def)
  then show ?thesis by (metis list.set_map)
qed

lemma set_link_ids:
  assumes "distinct (map fst (me_links m))" and "cl_id l = cl_id (link_at m a)"
  shows "link_ids (set_link a l m) = link_ids m"
proof -
  have "cl_id k = cl_id l" if "(a, k) \<in> set (me_links m)" for k
    using that assms by (simp add: link_at_def)
  then show ?thesis by (auto simp: link_ids_def set_link_def)
qed

lemma and_then_Inr: "and_then r f = Inr y \<longleftrightarrow> (\<exists>x. r = Inr x \<and> f x = Inr y)"
  by (auto simp: and_then_def split: sum.splits)

lemma link_load_id: "cl_id (fst (link_load env l csid key)) = cl_id l"
  by (simp add: link_load_def Let_def split: option.split)

lemma take_handshake_id: "take_handshake env l x inner outer = Inr (l', r) \<Longrightarrow> cl_id l' = cl_id l"
  by (auto simp: take_handshake_def Let_def split: if_splits sum.splits prod.splits)

lemma link_receive_handshake_id:
  assumes "link_receive_handshake env l inner outer = Inr (l', r)"
  shows "cl_id l' = cl_id l"
proof (cases outer)
  case (Some q)
  obtain k ok where k: "(if cl_key l = None then link_load env l (inner_csid inner) inner else (l, True)) = (k, ok)"
    by force
  then have "cl_id k = cl_id l" using link_load_id [of env l "inner_csid inner" inner] by (auto split: if_splits)
  then show ?thesis
    using assms unfolding Some link_receive_handshake_def option.case k Let_def case_prod_conv
    by (auto dest: take_handshake_id split: if_splits option.splits)
qed (use assms in \<open>simp add: link_receive_handshake_def\<close>)

lemma link_receive_id:
  assumes "link_receive app opener l inner = Some (Inr (l', ok))"
    and opener: "\<And>l p. cl_id (lc_link (fst (opener l p))) = cl_id (lc_link l)"
  shows "cl_id (lc_link l') = cl_id (lc_link l)"
proof -
  obtain r where r: "link_chan_get l (lob_get_int inner chan_key) = Some r"
    using assms(1) by (auto simp: link_receive_def bind_eq_Some_conv)
  show ?thesis
  proof (cases r)
    case (Inl f)
    then show ?thesis using assms(1) r by (simp add: link_receive_def)
  next
    case (Inr a)
    show ?thesis
    proof (cases a)
      case None
      have "(if lob_get inner type_key = None then (l, False)
          else case cl_x (lc_link l) of
                 None \<Rightarrow> (l, False)
               | Some x \<Rightarrow>
                   let (x, cid) = e3x_exchange_cid x (Some inner);
                       l = l\<lparr>lc_link := (lc_link l)\<lparr>cl_x := Some x\<rparr>\<rparr>
                   in if cid = 0 then (l, False) else opener l inner) = (l', ok)"
        using assms(1) r Inr None by (simp add: link_receive_def)
      then show ?thesis
        using opener [of "l\<lparr>lc_link := (lc_link l)\<lparr>cl_x := Some (fst (e3x_exchange_cid (the (cl_x (lc_link l))) (Some inner)))\<rparr>\<rparr>" inner]
        by (auto simp: Let_def split: if_splits option.splits prod.splits)
    next
      case (Some b)
      then have "\<exists>h first. l' = l\<lparr>lc_heap := h, lc_first := first\<rparr>"
        using assms(1) r Inr by (auto simp: link_receive_def Let_def bind_eq_Some_conv and_then_Inr)
      then show ?thesis by auto
    qed
  qed
qed

lemma find_addr: "find P ls = Some (a, l) \<Longrightarrow> a \<in> fst ` set ls"
  by (induction ls) (auto split: if_splits)

lemma linkid_addr: "mesh_linkid ls hn = Some a \<Longrightarrow> a \<in> fst ` set ls"
  by (auto simp: mesh_linkid_def dest: find_addr split: option.splits)

lemma linked_addr: "mesh_linked ls hn n = Some a \<Longrightarrow> a \<in> fst ` set ls"
  by (auto simp: mesh_linked_def Let_def dest: find_addr split: option.splits)

lemma token_addr: "link_by_token ls t = Some a \<Longrightarrow> a \<in> fst ` set ls"
  by (auto simp: link_by_token_def dest: find_addr)

text \<open>Discovery with handlers that add nothing, and each way a packet can take.\<close>

definition adds_nothing :: "(nat \<Rightarrow> lob \<Rightarrow> 'e c_mesh \<Rightarrow> c_fault + 'e c_mesh) \<Rightarrow> bool" where
  "adds_nothing disc \<longleftrightarrow> (\<forall>cb p m m'. disc cb p m = Inr m' \<longrightarrow> link_ids m' = link_ids m)"

lemma discover_ids:
  assumes "adds_nothing disc"
  shows "mesh_discover disc p m = Inr m' \<Longrightarrow> link_ids m' = link_ids m"
proof -
  have "discover_cbs disc cbs p m = Inr m' \<Longrightarrow> link_ids m' = link_ids m" for cbs
    using assms by (induction cbs arbitrary: m) (auto simp: and_then_Inr adds_nothing_def)
  then show "mesh_discover disc p m = Inr m' \<Longrightarrow> link_ids m' = link_ids m" by (simp add: mesh_discover_def)
qed

lemma link_handshake_same:
  assumes r: "receive_link_handshake env disc m csid p outer = Inr r" and "distinct (map fst (me_links m))"
    and disc: "adds_nothing disc"
  shows "same_links m r"
proof -
  obtain x where x: "attach_hashname (le_hash env) csid p = Inr x"
    using r by (auto simp: receive_link_handshake_def and_then_Inr)
  show ?thesis
  proof (cases x)
    case None
    then show ?thesis using r x by (auto simp: receive_link_handshake_def and_then_def same_links_def)
  next
    case (Some qh)
    obtain q hn where qh: "qh = (q, hn)" by force
    let ?m = "keep_hn (Some hn) m"
    show ?thesis
    proof (cases "mesh_linkid (me_links m) (Some hn)")
      case None
      then obtain q' m' where "mesh_discover disc q' ?m = Inr m'"
        "r = (m', mesh_linkid (me_links m') (Some (me_vtmp m')))"
        using r x Some qh by (auto simp: receive_link_handshake_def and_then_Inr Let_def)
      then show ?thesis
        using discover_ids [OF disc] linkid_addr link_ids_addrs by (fastforce simp: same_links_def)
    next
      case a: (Some a)
      then obtain l es ok where l: "link_receive_handshake env (link_at ?m a) q outer = Inr (l, es, ok)"
        and r': "r = (put_out a es (set_link a l ?m), if ok then Some a else None)"
        using r x Some qh by (auto simp: receive_link_handshake_def and_then_Inr Let_def)
      show ?thesis
        using set_link_ids [of ?m l a] link_receive_handshake_id [OF l] assms(2) linkid_addr [OF a]
        by (simp add: r' same_links_def)
    qed
  qed
qed

lemma handshake_same:
  assumes "mesh_receive_handshake env disc m p outer = Inr r" and "distinct (map fst (me_links m))"
    and "adds_nothing disc"
  shows "same_links m r"
proof -
  consider "r = (m, None)" | q m' where "mesh_discover disc q m = Inr m'" "r = (m', None)"
    | csid q where "receive_link_handshake env disc m csid q outer = Inr r"
  proof (cases "lob_get p id_key = None")
    case True
    then show ?thesis using that(1) assms(1) by (simp add: mesh_receive_handshake_def)
  next
    case False
    then obtain q where "normalize_handshake (le_now env) p = Inr q"
      and q: "(if util_cmp (lob_get q type_key) (Some link_word) \<noteq> 0
         then and_then (mesh_discover disc q m) (\<lambda>m. Inr (m, None))
         else and_then (handshake_csid q outer) (\<lambda>csid.
           if csid = 0 then Inr (m, None) else receive_link_handshake env disc m csid q outer)) = Inr r"
      using assms(1) unfolding mesh_receive_handshake_def if_not_P [OF False] and_then_Inr by blast
    show ?thesis
    proof (cases "util_cmp (lob_get q type_key) (Some link_word) = 0")
      case False
      then show ?thesis using that(2) q by (auto simp: and_then_Inr)
    next
      case True
      then have "and_then (handshake_csid q outer) (\<lambda>csid.
          if csid = 0 then Inr (m, None) else receive_link_handshake env disc m csid q outer) = Inr r"
        using q by simp
      then obtain csid where c: "(if csid = 0 then Inr (m, None) else receive_link_handshake env disc m csid q outer) = Inr r"
        unfolding and_then_Inr by (elim exE conjE) (rule that)
      show ?thesis
      proof (cases "csid = 0")
        case True
        then show ?thesis using that(1) c by simp
      next
        case False
        then show ?thesis using that(3) [of csid q] c by simp
      qed
    qed
  qed
  then show ?thesis
  proof cases
    case 2
    then show ?thesis using discover_ids [OF assms(3)] by (simp add: same_links_def)
  next
    case 3
    then show ?thesis using link_handshake_same assms(2,3) by blast
  qed (simp add: same_links_def)
qed

lemma channel_same:
  assumes "receive_channel env rc m outer = Some (Inr r)" and "distinct (map fst (me_links m))"
    and opener: "\<And>l p. cl_id (lc_link (fst (rc_open rc l p))) = cl_id (lc_link l)"
  shows "same_links m r"
proof (cases "link_by_token (me_links m) (body outer)")
  case None
  then show ?thesis using assms(1) by (auto simp: receive_channel_def same_links_def split: if_splits)
next
  case (Some a)
  consider "r = (m, None)"
    | inner l ok where "link_receive (rc_chan rc) (rc_open rc) (chan_link_at m a) inner = Some (Inr (l, ok))"
      "r = (set_chan_link a l m, if ok then Some a else None)"
  proof (cases "body_len outer < 16 \<or> cl_x (link_at m a) = None")
    case True
    then show ?thesis using that(1) assms(1) Some by (auto simp: receive_channel_def split: if_splits)
  next
    case False
    then obtain x where x: "cl_x (link_at m a) = Some x" "\<not> body_len outer < 16" by blast
    show ?thesis
    proof (cases "e3x_exchange_receive (le_cs env (xcsid x)) x outer")
      case None
      then show ?thesis using that(1) assms(1) Some x by (simp add: receive_channel_def)
    next
      case inner: (Some inner)
      then show ?thesis
        using that(2) [of inner] assms(1) Some x by (auto simp: receive_channel_def and_then_Inr)
    qed
  qed
  then show ?thesis
  proof cases
    case l: 2
    have "cl_id (lc_link l) = cl_id (link_at m a)"
      using link_receive_id [OF l(1) opener] by (simp add: chan_link_at_def)
    then have "link_ids (set_chan_link a l m) = link_ids m"
      using set_link_ids [of "m\<lparr>me_chans := (me_chans m)(a := (lc_heap l, lc_first l))\<rparr>" "lc_link l" a] assms(2)
      by (simp add: set_chan_link_def link_at_def link_ids_def)
    then show ?thesis using token_addr [OF Some] by (simp add: l(2) same_links_def)
  qed (simp add: same_links_def)
qed

text \<open>
  C7. Only discovery adds links. Whatever packet a mesh receives, a handshake or a channel packet, a
  request to forward, a description of a link or anything else, its links and their hashnames are the
  same afterwards unless a handler of discovery changes them, and a link that is returned is one of
  them.
\<close>

theorem receive_adds_no_link:
  assumes "mesh_receive env rc m outer = Some (Inr (m', found))" and "distinct (map fst (me_links m))"
    and "adds_nothing (rc_discover rc)"
    and "\<And>l p. cl_id (lc_link (fst (rc_open rc l p))) = cl_id (lc_link l)"
  shows "link_ids m' = link_ids m \<and> (\<forall>a. found = Some a \<longrightarrow> a \<in> fst ` set (me_links m'))"
proof -
  have "same_links m (m', found)"
  proof -
    consider "head_len outer = 5" "receive_routed m outer = Inr (m', found)"
      | "head_len outer = 1" "receive_sealed env rc m outer = Inr (m', found)"
      | "head_len outer = 0" "receive_channel env rc m outer = Some (Inr (m', found))"
      | "receive_bare env rc m outer = Inr (m', found)"
      using assms(1) by (auto simp: mesh_receive_def split: if_splits)
    then show ?thesis
    proof cases
      case 1
      then show ?thesis by (auto simp: receive_routed_def Let_def same_links_def split: option.splits)
    next
      case 2
      then have "(m', found) = (m, None) \<or>
          (\<exists>p. mesh_receive_handshake env (rc_discover rc) m p (Some outer) = Inr (m', found))"
        unfolding receive_sealed_def and_then_Inr by (simp split: option.splits if_splits) (auto simp: and_then_Inr)
      then consider "(m', found) = (m, None)"
        | p where "mesh_receive_handshake env (rc_discover rc) m p (Some outer) = Inr (m', found)"
        by blast
      then show ?thesis
      proof cases
        case 2
        then show ?thesis by (rule handshake_same [OF _ assms(2,3)])
      qed (simp add: same_links_def)
    next
      case 3
      then show ?thesis using channel_same [OF _ assms(2,4)] by blast
    next
      case 4
      then obtain p hn where "mesh_discover (rc_discover rc) p (keep_hn hn m) = Inr m'"
        "found = mesh_linked (me_links m') (lob_get p hashname_key) 0"
        unfolding receive_bare_def and_then_Inr by blast
      then show ?thesis
        using discover_ids [OF assms(3)] linked_addr [of "me_links m'"] link_ids_addrs [of m' m]
        by (auto simp: same_links_def)
    qed
  qed
  then show ?thesis using link_ids_addrs by (fastforce simp: same_links_def)
qed

text \<open>A packet that is forwarded.\<close>

definition demo_router :: "unit c_mesh" where
  "demo_router = \<lparr>me_keys = lob_new,
     me_links = [(3, \<lparr>cl_id = replicate 32 7, cl_x = None, cl_key = None, cl_handshake = None, cl_send = Some 9, cl_csid = 1\<rparr>)],
     me_chans = (\<lambda>a. (Heap (\<lambda>b. None), None)), me_ons = [], me_vtmp = replicate 32 0, me_next = 4, me_out = []\<rparr>"

definition demo_receivers :: "unit receivers" where
  "demo_receivers = \<lparr>rc_decrypt = (\<lambda>p. None), rc_discover = (\<lambda>cb p m. Inr m), rc_chan = (\<lambda>a c. c),
     rc_open = (\<lambda>l p. (l, True))\<rparr>"

definition demo_routed :: lob where
  "demo_routed = \<lparr>raw = [0, 5, 7, 7, 7, 7, 7, 0, 0], head_len = 5, body_len = 2\<rparr>"

theorem receive_adds_no_link_witness:
  "\<exists>m'. mesh_receive (demo_env 1 1) demo_receivers demo_router demo_routed = Some (Inr (m', None)) \<and>
    me_out m' = [(3, SendPacket 9 lob_new)] \<and> link_ids m' = [(3, replicate 32 7)]"
proof -
  let ?m = "put_out 3 [SendPacket 9 lob_new] (keep_hn (Some (replicate 5 7 @ replicate 27 0)) demo_router)"
  have sbin: "hashname_sbin (Some (head demo_routed)) = Some (replicate 5 7 @ replicate 27 0)"
    by (simp add: demo_routed_def head_def hashname_sbin_def eval_nat_numeral)
  have link: "mesh_linkid (me_links demo_router) (Some (replicate 5 7 @ replicate 27 0)) = Some 3"
    by (simp add: demo_router_def mesh_linkid_def hashname_scmp_def memcmp_eq_0_iff)
  have "lob_parse (Some (body demo_routed)) = Some lob_new"
    by code_simp
  then have r: "mesh_receive (demo_env 1 1) demo_receivers demo_router demo_routed = Some (Inr (?m, None))"
    using sbin link
    by (simp add: mesh_receive_def receive_routed_def Let_def)
      (simp add: demo_routed_def demo_router_def link_send_def link_at_def keep_hn_def)
  have ids: "link_ids demo_router = [(3, replicate 32 7)]" by (simp add: demo_router_def link_ids_def)
  have "link_ids ?m = link_ids demo_router"
    using receive_adds_no_link [OF r] by (simp add: adds_nothing_def demo_receivers_def demo_router_def)
  then show ?thesis using r ids by (intro exI [of _ ?m]) (simp add: put_out_def keep_hn_def demo_router_def)
qed

section \<open>The best common cipher set\<close>

lemma lob_get_content: "json_is p fs \<Longrightarrow> map_of fs k = Some w \<Longrightarrow> lob_get p k = text_read (content w)"
  using json_some(2) [of p fs k w] by (simp add: text_read_def content_def Let_def)

lemma full_get:
  assumes "json_is b (map full_field js)" and "keys_ok js"
  shows "lob_get b (util_hex [c]) = map_option b32_text (map_of js c)"
proof (cases "map_of js c")
  case None
  then have "util_hex [c] \<notin> set (map fst (map full_field js))"
    by (force simp: full_field_def util_hex_inj map_of_eq_None_iff)
  then show ?thesis using json_none(2) [OF assms(1)] None util_hex_id(5) by simp
next
  case (Some k)
  have "distinct (map fst (map full_field js))" using keys_distinct [OF assms(2)] by (simp add: full_field_def comp_def)
  then have "map_of (map full_field js) (util_hex [c]) = Some (quoted (b32_text k))"
    using map_of_SomeD [OF Some] by (force simp: full_field_def)
  moreover have "k \<noteq> []" using map_of_SomeD [OF Some] assms(2) by (auto simp: keys_ok_def)
  ultimately show ?thesis
    using lob_get_content [OF assms(1)] str_chars(3) str_char_b32 b32_text_ne Some by simp
qed

lemma Max_insert_max: "finite S \<Longrightarrow> Max (insert (max a b) S) = Max (insert a (insert b S))" for a :: "'b :: linorder"
  by (cases "S = {}") (simp_all add: max.assoc)

lemma id_loop_result:
  assumes "json_is a (map full_field ks)" and "keys_ok ks" and "json_is b (map full_field js)" and "keys_ok js"
  shows "ks = xs @ ys \<Longrightarrow>
    id_loop a b (2 * length xs) best = Max (insert best (fst ` set ys \<inter> fst ` set js))"
proof (induction ys arbitrary: xs best)
  case Nil
  then have "lob_get_index a (2 * length xs) = None" using json_is_index_end(2) [OF assms(1)] by simp
  then show ?case by (subst id_loop.simps) simp
next
  case (Cons k ys)
  have ix: "lob_get_index a (2 * length xs) = Some (util_hex [fst k])"
    using full_index(1) [OF assms(1,2), of "length xs"] Cons.prems by simp
  let ?best = "if fst k \<in> fst ` set js then max best (fst k) else best"
  have "lob_get b (util_hex [fst k]) = None \<longleftrightarrow> fst k \<notin> fst ` set js"
    using full_get [OF assms(3,4), of "fst k"] by (simp add: map_of_eq_None_iff)
  then have "id_loop a b (2 * length xs) best = id_loop a b (2 * length (xs @ [k])) ?best"
    using ix util_hex_id(1,3) [of "fst k"] by (subst id_loop.simps) (auto simp: Let_def max_def)
  also have "\<dots> = Max (insert ?best (fst ` set ys \<inter> fst ` set js))"
    using Cons.IH [of "xs @ [k]" ?best] Cons.prems by simp
  also have "\<dots> = Max (insert best (fst ` set (k # ys) \<inter> fst ` set js))"
    by (simp add: Int_insert_left Max_insert_max)
  finally show ?case .
qed

text \<open>
  Two ends choose the same cipher set: for any two sets of keys, in whatever order the packets
  have them, both ends take the highest id that both have, and 0 when there is none.
\<close>

theorem hashname_id_agree:
  assumes "json_is a (map full_field ks)" and "keys_ok ks" and "json_is b (map full_field js)" and "keys_ok js"
  shows "hashname_id (Some a) (Some b) = Max (insert 0 (fst ` set ks \<inter> fst ` set js)) \<and>
    hashname_id (Some b) (Some a) = hashname_id (Some a) (Some b)"
  using id_loop_result [OF assms, of "[]" ks 0] id_loop_result [OF assms(3,4,1,2), of "[]" js 0]
  by (simp add: hashname_id_def Int_commute)

theorem hashname_id_agree_witness: "hashname_id (Some demo_keys) (Some demo_keys) = 26"
  using hashname_id_agree [OF demo_keys demo_keys] by simp

section \<open>A new peer\<close>

text \<open>Writing a string that needs no escapes under a new key.\<close>

lemma escape_plain: "list_all str_char t \<Longrightarrow> lob_escape t = t"
  by (induction t) (auto simp: lob_escape_def str_char_def)

lemma set_plain:
  assumes "json_is p fs" and "k \<notin> set (map fst fs)" and "key_ok k" and "list_all str_char t"
  obtains q where "lob_set p k t = Inr q" and "json_is q (fs @ [(k, quoted t)])" and "body q = body p"
proof -
  obtain q where "lob_set_raw p k 0 (quoted t) (length (quoted t)) = Inr q"
    "json_is q (AList.update k (quoted t) fs)" "body q = body p"
    using set_raw_new [OF assms(1-3) str_chars(2) [OF assms(4)], of 0 "length (quoted t)"] by auto
  then show thesis
    using that assms(2) escape_plain [OF assms(4)]
    by (simp add: lob_set_def lob_set_len_def Let_def quoted_def update_new)
qed

lemma json_body:
  assumes "json_is p fs" and "length b = n"
  shows "json_is (lob_body p (Some b) n) fs" and "body (lob_body p (Some b) n) = b"
proof -
  have ok: "lob_ok p" using assms(1) by (simp add: json_is_def)
  note r = lob_body_result [OF ok, of "Some b" n]
  have "head_len (lob_body p (Some b) n) = head_len p" by (simp add: lob_body_def Let_def)
  then show "json_is (lob_body p (Some b) n) fs" "body (lob_body p (Some b) n) = b"
    using r assms by (auto simp: json_is_def)
qed

lemma mesh_keys_ok:
  "key_ok id_key" "key_ok hashname_key" "key_ok keys_key" "key_ok csid_key" "key_ok type_key"
  "distinct [id_key, hashname_key, keys_key, csid_key, type_key, at_key]"
  by (simp_all add: id_key_def hashname_key_def keys_key_def csid_key_def type_key_def at_key_def key_ok_def str_char_def)

lemma long_key: "util_hex [c] \<noteq> hashname_key" "util_hex [c] \<noteq> keys_key" "util_hex [c] \<noteq> csid_key"
proof -
  have "length hashname_key = 8" "length keys_key = 4" "length csid_key = 4"
    by (simp_all add: hashname_key_def keys_key_def csid_key_def)
  then show "util_hex [c] \<noteq> hashname_key" "util_hex [c] \<noteq> keys_key" "util_hex [c] \<noteq> csid_key"
    using util_hex_id(1) [of c] by auto
qed

lemma link_word_plain: "list_all str_char link_word" "link_word \<noteq> []"
  by (simp_all add: link_word_def str_char_def)

text \<open>A peer's handshake gets its hashname.\<close>

lemma attach_result:
  assumes p: "json_is p fs" "body p = raw im"
    and new: "\<forall>k \<in> {csid_key, hashname_key, util_hex [c]}. k \<notin> set (map fst fs)"
    and im: "json_is im gs" "head_len im < 65536"
    and hn: "hashname_vkey H im c = Inr (q, Some hn)" "lob_ok q" "hashname_ok hn"
  shows "\<exists>p'. attach_hashname H c p = Inr (Some (p', hn)) \<and> body p' = body q \<and>
    json_is p' (fs @ [(csid_key, quoted (util_hex [c])), (hashname_key, quoted (b32_text hn)), (util_hex [c], true_text)])"
proof -
  have parse: "lob_parse (Some (body p)) = Some im"
    using lob_direct_raw [OF json_packet_encodable [OF im]] by (simp add: p(2) lob_parse_direct)
  have hex: "key_ok (util_hex [c])" using str_chars(3) util_hex_id(4,5) by blast
  let ?f1 = "fs @ [(csid_key, quoted (util_hex [c]))]"
  let ?f2 = "?f1 @ [(hashname_key, quoted (b32_text hn))]"
  obtain p1 where p1: "lob_set p csid_key (util_hex [c]) = Inr p1" "json_is p1 ?f1"
    using set_plain [OF p(1) _ mesh_keys_ok(4) util_hex_id(4)] new by blast
  have "hashname_key \<notin> set (map fst ?f1)" using new mesh_keys_ok(6) by auto
  then obtain p2 where p2: "lob_set p1 hashname_key (b32_text hn) = Inr p2" "json_is p2 ?f2"
    using set_plain [OF p1(2) _ mesh_keys_ok(2) str_char_b32] by blast
  have u: "util_hex [c] \<notin> set (map fst ?f2)" using new long_key by auto
  obtain p3 where p3: "lob_set_raw p2 (util_hex [c]) 2 true_text 4 = Inr p3"
    "json_is p3 (AList.update (util_hex [c]) true_text ?f2)"
    using set_raw_new [OF p2(2) u hex true_text(1), of 2 4] util_hex_id(1) true_text(4) by metis
  have len: "length (body q) = body_len q" using lob_raw_parts(3) [OF hn(2)] .
  have "attach_hashname H c p = Inr (Some (lob_body p3 (Some (body q)) (body_len q), hn))"
    using hn(1) p1(1) p2(1) p3(1) hashname_text(1) [OF hn(3)] by (simp add: attach_hashname_def parse and_then_def)
  then show ?thesis
    using json_body [OF p3(2) len] unfolding update_new [OF u] by simp
qed

text \<open>The description that is made for discovery, and what comes back from its field \<open>keys\<close>.\<close>

definition one_key :: "u8 \<Rightarrow> bytes \<Rightarrow> bytes" where
  "one_key c key = object_text [full_field (c, key)]"

lemma one_key_value: "json_value (one_key c key)"
proof -
  let ?items = "34 # util_hex [c] @ 34 # 58 # 34 # b32_text key @ 34 # []"
  have "json_items ?items"
    by (intro items_str items_sep items_Nil str_body_chars util_hex_id(4) str_char_b32) (simp add: sep_byte_def)
  then have "json_value (123 # ?items @ [] @ [125])"
    by (rule value_nest [rotated]) (simp_all add: open_byte_def close_byte_def)
  then show ?thesis by (simp add: one_key_def object_text_def full_field_def field_text_def key_text_def quoted_def)
qed

lemma set_one_key:
  assumes "key \<noteq> []"
  obtains q where "lob_set_base32 lob_new (util_hex [c]) key = Inr q" and "head q = one_key c key" and "lob_ok q"
    and "fields_ok [full_field (c, key)]"
proof -
  have hex: "key_ok (util_hex [c])" using str_chars(3) util_hex_id(4,5) by blast
  let ?v = "quoted (b32_text key)"
  have v: "json_value ?v" by (simp add: str_chars str_char_b32)
  have new: "body_len lob_new = 0" by (simp add: lob_new_def)
  obtain q where q: "lob_set_raw lob_new (util_hex [c]) 0 ?v (length ?v) = Inr q" "json_is q [(util_hex [c], ?v)]"
    using set_raw_no_body [OF json_is_new new hex v, of 0 "length ?v"] by auto
  have "lob_set_base32 lob_new (util_hex [c]) key = Inr q"
    using q(1) assms by (simp add: lob_set_base32_def base32_encode_text quoted_def length_b32_text Let_def)
  moreover have "head q = one_key c key" using json_is_head(1) [OF q(2)] by (simp add: one_key_def full_field_def)
  moreover have "lob_ok q" "fields_ok [full_field (c, key)]" using q(2) by (simp_all add: json_is_def full_field_def)
  ultimately show thesis by (rule that)
qed

lemma extend_result:
  assumes "json_is p fs" and "keys_key \<notin> set (map fst fs)" and "body p = key" and "key \<noteq> []"
  shows "\<exists>p'. extend_keys c p = Inr p' \<and> json_is p' (fs @ [(keys_key, one_key c key)]) \<and> body p' = key"
proof -
  obtain t where t: "lob_set_base32 lob_new (util_hex [c]) key = Inr t" "head t = one_key c key" "lob_ok t"
    using set_one_key [OF assms(4), of c] .
  have len: "length (one_key c key) = head_len t" using lob_raw_parts(2) [OF t(3)] t(2) by simp
  moreover have "one_key c key \<noteq> []" by (simp add: one_key_def object_text_def)
  ultimately have "head_len t \<noteq> 0" by (metis length_0_conv)
  obtain q where "lob_set_raw p keys_key 0 (one_key c key) (head_len t) = Inr q"
    "json_is q (AList.update keys_key (one_key c key) fs)" "body q = body p"
    using set_raw_new [OF assms(1,2) mesh_keys_ok(3) one_key_value [of c key], of 0 "head_len t"] len by auto
  then show ?thesis
    using t assms(2,3) \<open>head_len t \<noteq> 0\<close> by (simp add: extend_keys_def and_then_def update_new)
qed

lemma length_one_key: "length key \<le> 40000 \<Longrightarrow> length (one_key c key) < 65536"
  using length_b32_text [of key] util_hex_id(1) [of c] div_le_mono [of "length key * 8" 320000 5]
  by (simp add: one_key_def object_text_def full_field_def field_text_def key_text_def quoted_def base32_encode_length_def)

lemma read_one_key:
  assumes "json_is p fs" and "map_of fs keys_key = Some (one_key c key)" and "key \<noteq> []" and "length key \<le> 40000"
  shows "\<exists>k. read_json p keys_key = Inr (Some k) \<and> json_is k [full_field (c, key)] \<and> body_len k = 0"
proof -
  let ?t = "one_key c key"
  have "hd ?t \<noteq> 34" by (simp add: one_key_def object_text_def)
  then obtain v where v: "js0n (Some keys_key) 0 (head p) = (Some v, length ?t)"
    "take (length ?t) (drop v (head p)) = ?t"
    using json_some(5) [OF assms(1,2)] by auto
  have n: "unat (of_nat (length ?t) :: u16) = length ?t"
    using length_one_key [OF assms(4)] by (simp add: unsigned_of_nat take_bit_nat_eq_self)
  obtain k where k: "lob_head lob_new (Some ?t) (length ?t) = Inr k" "lob_ok k" "head k = ?t" "body_len k = 0"
    using lob_head_result [OF lob_new_ok, of "length ?t" "Some ?t"] by (auto simp: lob_new_def)
  have "fields_ok [full_field (c, key)]" using set_one_key [OF assms(3)] .
  then have "json_is k [full_field (c, key)]" using k by (simp add: json_is_def one_key_def)
  then show ?thesis using v n k by (simp add: read_json_def lob_get_json_def and_then_def Let_def)
qed

lemma get_base32:
  assumes "json_is p fs" and "map_of fs k = Some (quoted (b32_text bin))"
  shows "lob_get_base32 p k = Some (lob_body lob_new (Some bin) (length bin))"
proof -
  obtain v where "js0n (Some k) 0 (head p) = (Some v, length (b32_text bin))"
    "take (length (b32_text bin)) (drop v (head p)) = b32_text bin"
    using json_some(5) [OF assms] by (auto simp: quoted_def)
  then show ?thesis by (simp add: lob_get_base32_def b32_text_floor base32_decode_text Let_def)
qed

lemma vchar_text:
  assumes "hashname_ok hn"
  shows "base32_decode (take 52 (b32_text hn @ [0])) 32 = (32, hn)" and "hashname_vchar (Some (b32_text hn)) = Some hn"
proof -
  have "length (b32_text hn) = 52" "length hn = 32" using hashname_text(2) [OF assms] assms by (simp_all add: hashname_ok_def)
  then show "base32_decode (take 52 (b32_text hn @ [0])) 32 = (32, hn)"
    using base32_decode_text [of hn 32] by simp
  then show "hashname_vchar (Some (b32_text hn)) = Some hn" by (simp add: hashname_vchar_def)
qed

lemma no_array: "json_is p fs \<Longrightarrow> fs \<noteq> [] \<Longrightarrow> key \<noteq> [] \<Longrightarrow> key \<notin> set (map fst fs) \<Longrightarrow> lob_get_array p key = Inr []"
  using js0n_object_None [of fs key 0] json_is_head [of p fs]
  by (cases "js0n (Some key) 0 (head p)") (simp add: lob_get_array_def lob_get_json_def)

lemma load_new:
  assumes "cl_x l = None" and "c \<noteq> 0" and "body_len k = 0" and "json_is k [full_field (c, key)]"
    and "\<And>q. body q = key \<Longrightarrow> le_remote env c q \<noteq> None"
  shows "\<exists>l'. link_load env l c k = (l', True) \<and> cl_id l' = cl_id l \<and> cl_csid l' = c \<and>
    (\<exists>q. cl_key l' = Some q \<and> body q = key) \<and> cl_x l' \<noteq> None"
proof -
  let ?q = "lob_body lob_new (Some key) (length key)"
  have "lob_get_base32 k (util_hex [c]) = Some ?q"
    by (rule get_base32 [OF assms(4)]) (simp add: full_field_def)
  moreover have b: "body ?q = key" using lob_body_result(3) [OF lob_new_ok, of "Some key" "length key"] by simp
  moreover obtain token where "le_remote env c ?q = Some token" using assms(5) [OF b] by blast
  ultimately show ?thesis using assms(1-3) by (simp add: link_load_def Let_def)
qed

lemma add_result:
  assumes p: "json_is p fs" "map_of fs hashname_key = Some (quoted (b32_text hn))"
      "map_of fs keys_key = Some (one_key c key)" "paths_key \<notin> set (map fst fs)"
    and hn: "hashname_ok hn" and key: "key \<noteq> []" "length key \<le> 40000" "c \<noteq> 0"
    and ours: "json_is (me_keys m) (map full_field ms)" "keys_ok ms" "c \<in> fst ` set ms"
    and m: "link_find (me_links m) hn = None" "me_next m \<notin> fst ` set (me_links m)"
    and remote: "\<And>q. body q = key \<Longrightarrow> le_remote env c q \<noteq> None"
  shows "\<exists>m' l. mesh_add env app m p = Inr (m', Some (me_next m)) \<and> me_links m' = (me_next m, l) # me_links m \<and>
    cl_id l = hn \<and> cl_csid l = c \<and> (\<exists>q. cl_key l = Some q \<and> body q = key) \<and>
    me_vtmp m' = c_store (me_vtmp m) 0 hn"
proof -
  have "b32_text hn \<noteq> []" using hashname_text(2) [OF hn] by auto
  then have str: "lob_get p hashname_key = Some (b32_text hn)"
    using lob_get_content [OF p(1,2)] str_chars(3) str_char_b32 by simp
  obtain k where k: "read_json p keys_key = Inr (Some k)" "json_is k [full_field (c, key)]" "body_len k = 0"
    using read_one_key [OF p(1,3) key(1,2)] by blast
  have "fs \<noteq> []" "paths_key \<noteq> []" using p(2) by (auto simp: paths_key_def)
  then have paths: "lob_get_array p paths_key = Inr []" using no_array [OF p(1) _ _ p(4)] by blast
  have "keys_ok [(c, key)]" using key by (simp add: keys_ok_def)
  then have "id_loop (me_keys m) k 0 0 = Max (insert 0 (fst ` set ms \<inter> {c}))"
    using id_loop_result [OF ours(1,2), of k "[(c, key)]" "[]" ms 0] k(2) by simp
  also have "\<dots> = c" using ours(3) by (simp add: Int_insert_right)
  finally have csid: "hashname_id (Some (me_keys m)) (Some k) = c" by (simp add: hashname_id_def)
  define a where "a = me_next m"
  define l0 :: "'a clink" where "l0 = \<lparr>cl_id = hn, cl_x = None, cl_key = None, cl_handshake = None, cl_send = None, cl_csid = 1\<rparr>"
  have dup: "hashname_dup (Some hn) = hn" using hn by (simp add: hashname_dup_def hashname_ok_def)
  define m1 where "m1 = m\<lparr>me_vtmp := c_store (me_vtmp m) 0 hn, me_links := (a, l0) # me_links m, me_next := a + 1\<rparr>"
  have "keep_text (Some (b32_text hn)) m = m\<lparr>me_vtmp := c_store (me_vtmp m) 0 hn\<rparr>"
    by (simp only: keep_text_def option.case vchar_text(1) [OF hn] snd_conv)
  then have get: "mesh_link_get (hashname_vchar (Some (b32_text hn))) (keep_text (Some (b32_text hn)) m) = (m1, Some a)"
    using m(1) by (simp add: mesh_link_get_def vchar_text(2) [OF hn] link_get_def link_new_def dup m1_def a_def l0_def)
  obtain l where l: "link_load env l0 c k = (l, True)" "cl_id l = hn" "cl_csid l = c"
    "\<exists>q. cl_key l = Some q \<and> body q = key"
    using load_new [of l0 c k key env] k(2,3) key(3) remote by (auto simp: l0_def)
  have other: "map (\<lambda>e. if fst e = a then (a, l) else e) (me_links m) = me_links m"
    using m(2) by (intro map_idI) (force simp: a_def)
  have "load_at env a c k m1 = (m1\<lparr>me_links := (a, l) # me_links m\<rparr>, True)"
    using l(1) other by (simp add: load_at_def link_at_def set_link_def m1_def)
  moreover have "me_keys m1 = me_keys m" by (simp add: m1_def)
  ultimately have "mesh_add env app m p = Inr (m1\<lparr>me_links := (a, l) # me_links m\<rparr>, Some a)"
    by (simp add: mesh_add_def str get k(1) paths csid and_then_def)
  then show ?thesis using l(2-4) by (simp add: m1_def a_def)
qed

lemma short_unknown:
  assumes "CLink.links_ok ls" and "hashname_ok hn" and "mesh_linkid ls (Some hn) = None"
  shows "link_find ls hn = None"
proof -
  have "hashname_cmp (Some hn) (Some (cl_id (snd l))) \<noteq> 0" if "l \<in> set ls" for l
  proof -
    have len: "length (cl_id (snd l)) = 32" "length hn = 32"
      using assms(1,2) that by (auto simp: CLink.links_ok_def list_all_iff hashname_ok_def)
    have "hashname_scmp (Some (cl_id (snd l))) (Some hn) \<noteq> 0"
      using assms(3) that by (cases l) (auto simp: mesh_linkid_def find_None_iff)
    then show ?thesis using len by (auto simp: hashname_scmp_def hashname_cmp_def memcmp_eq_0_iff)
  qed
  then show ?thesis by (auto simp: link_find_def find_None_iff)
qed

lemma normalize_link:
  assumes "json_is p fs" and "type_key \<notin> set (map fst fs)" and "lob_get_uint p at_key \<noteq> 0"
  obtains q where "normalize_handshake now p = Inr q" and "json_is q (fs @ [(type_key, quoted link_word)])"
    and "body q = body p" and "lob_get q type_key = Some link_word"
proof -
  obtain q where q: "lob_set p type_key link_word = Inr q" "json_is q (fs @ [(type_key, quoted link_word)])" "body q = body p"
    using set_plain [OF assms(1,2) mesh_keys_ok(5) link_word_plain(1)] .
  have upd: "json_is q (AList.update type_key (quoted link_word) fs)" using q(2) by (simp add: update_new [OF assms(2)])
  have "lob_get q at_key = lob_get p at_key"
    using json_is_update_other [OF assms(1) upd, of at_key] mesh_keys_ok(6) by (auto simp: at_key_def)
  then have at: "lob_get_uint q at_key \<noteq> 0" using assms(3) by (simp add: lob_get_uint_def)
  have "lob_get p type_key = None" using json_none(2) [OF assms(1) _ assms(2)] by (simp add: type_key_def)
  then have "normalize_handshake now p = Inr q" using q(1) at by (simp add: normalize_handshake_def and_then_def)
  moreover have "map_of (fs @ [(type_key, quoted link_word)]) type_key = Some (quoted link_word)"
    using assms(2) by (simp add: map_add_def map_of_eq_None_iff [THEN iffD2])
  then have "lob_get q type_key = Some link_word"
    using lob_get_content [OF q(2)] str_chars(3) [OF link_word_plain] by simp
  ultimately show thesis using q(2,3) by (intro that)
qed

text \<open>
  A handshake of a peer over the keys \<open>im\<close>, as \<open>mesh_receive\<close> opens it: its body is that packet, it has
  a routing id and a counter and none of the fields that are set on the way.
\<close>

definition peer_handshake :: "lob \<Rightarrow> u8 \<Rightarrow> lob \<Rightarrow> lob \<Rightarrow> bool" where
  "peer_handshake im c p outer \<longleftrightarrow>
     head_len im < 65536 \<and> body p = raw im \<and> lob_get p id_key \<noteq> None \<and> lob_get_uint p at_key \<noteq> 0 \<and>
     (\<exists>fs. json_is p fs \<and>
       {type_key, csid_key, hashname_key, keys_key, paths_key, util_hex [c]} \<inter> fst ` set fs = {}) \<and>
     lob_ok outer \<and> head outer = [c]"

text \<open>
  A mesh that has the cipher set and no link that is taken for the hashname, on an environment that
  loads the key; and a handler of discovery that adds what is discovered.
\<close>

definition can_add :: "'e link_env \<Rightarrow> 'e c_mesh \<Rightarrow> u8 \<Rightarrow> bytes \<Rightarrow> hashname \<Rightarrow> bool" where
  "can_add env m c key hn \<longleftrightarrow>
     (\<exists>ms. json_is (me_keys m) (map full_field ms) \<and> keys_ok ms \<and> c \<in> fst ` set ms) \<and>
     CLink.links_ok (me_links m) \<and> mesh_linkid (me_links m) (Some hn) = None \<and>
     me_next m \<notin> fst ` set (me_links m) \<and>
     length key \<le> 40000 \<and> (\<forall>q. body q = key \<longrightarrow> le_remote env c q \<noteq> None)"

definition adds_discovered ::
  "'e link_env \<Rightarrow> (nat \<Rightarrow> lob \<Rightarrow> 'e c_mesh \<Rightarrow> c_fault + 'e c_mesh) \<Rightarrow> 'e c_mesh \<Rightarrow> bool" where
  "adds_discovered env disc m \<longleftrightarrow>
     (\<exists>cb app. mesh_discover_calls (me_ons m) = [cb] \<and> (\<forall>p m. disc cb p m = map_sum id fst (mesh_add env app m p)))"

definition peer_link :: "'e c_mesh \<Rightarrow> 'e c_mesh \<Rightarrow> hashname \<Rightarrow> u8 \<Rightarrow> bytes \<Rightarrow> bool" where
  "peer_link m m' hn c key \<longleftrightarrow>
     (\<exists>l. me_links m' = (me_next m, l) # me_links m \<and> cl_id l = hn \<and> cl_csid l = c \<and>
       (\<exists>q. cl_key l = Some q \<and> body q = key))"

text \<open>
  What a handshake from an unknown peer needs, and what it leads to: its body is a packet with the ids
  and the hashes of some keys and a body of its own.
\<close>

lemma handshake_adds:
  assumes keys: "json_is keys (map full_field ks)" "keys_ok ks" "ks \<noteq> []"
    and hash: "\<And>b. length (le_hash env b) = 32"
    and im: "json_is im (map (im_field (le_hash env) c) ks)" "body im = key"
      "\<And>k. k \<in> set ks \<Longrightarrow> fst k = c \<Longrightarrow> key = snd k"
    and key: "key \<noteq> []" "c \<noteq> 0"
    and hn: "hashname_vkeys (le_hash env) keys = Inr (Some hn)"
    and hs: "peer_handshake im c p outer" and mesh: "can_add env m c key hn" and disc: "adds_discovered env disc m"
  shows "\<exists>m'. mesh_receive_handshake env disc m p (Some outer) = Inr (m', Some (me_next m)) \<and> peer_link m m' hn c key"
proof -
  obtain fs where p: "json_is p fs" "body p = raw im" "lob_get p id_key \<noteq> None" "lob_get_uint p at_key \<noteq> 0"
      "\<forall>k \<in> {type_key, csid_key, hashname_key, keys_key, paths_key, util_hex [c]}. k \<notin> set (map fst fs)"
    and outer: "lob_ok outer" "head outer = [c]" and len: "head_len im < 65536"
    using hs by (auto simp: peer_handshake_def)
  obtain ms where ours: "json_is (me_keys m) (map full_field ms)" "keys_ok ms" "c \<in> fst ` set ms"
    and m: "CLink.links_ok (me_links m)" "mesh_linkid (me_links m) (Some hn) = None" "me_next m \<notin> fst ` set (me_links m)"
    and long: "length key \<le> 40000" and remote: "\<And>q. body q = key \<Longrightarrow> le_remote env c q \<noteq> None"
    using mesh by (auto simp: can_add_def)
  obtain cb app where handler: "mesh_discover_calls (me_ons m) = [cb]"
      "\<And>p m. disc cb p m = map_sum id fst (mesh_add env app m p)"
    using disc unfolding adds_discovered_def by blast
  note form = vkey_form [where H = "le_hash env" and c = c, OF keys hash hn im(1) im(3) [folded im(2)]]
  have hn_ok: "hashname_ok hn" using form(2) by (simp add: hashname_ok_def)
  obtain q where q: "hashname_vkey (le_hash env) im c = Inr (q, Some hn)" "lob_ok q" "body q = key"
    using form(1) im(2) by blast
  have new: "\<forall>k \<in> {type_key, csid_key, hashname_key, keys_key, paths_key, util_hex [c]}. k \<notin> set (map fst fs)" by (fact p(5))
  obtain p1 where p1: "normalize_handshake (le_now env) p = Inr p1" "json_is p1 (fs @ [(type_key, quoted link_word)])"
    "body p1 = body p" "lob_get p1 type_key = Some link_word"
    using normalize_link [OF p(1) _ p(4)] new by blast
  have "length (util_hex [c]) \<noteq> length type_key" using util_hex_id(1) by (simp add: type_key_def)
  then have "type_key \<noteq> util_hex [c]" by auto
  then have "\<forall>k \<in> {csid_key, hashname_key, util_hex [c]}. k \<notin> set (map fst (fs @ [(type_key, quoted link_word)]))"
    using new mesh_keys_ok(6) by auto
  from attach_result [OF p1(2) _ this im(1) len q(1,2) hn_ok] p1(3) p(2)
  obtain p2 where p2: "attach_hashname (le_hash env) c p1 = Inr (Some (p2, hn))" "body p2 = key"
    "json_is p2 ((fs @ [(type_key, quoted link_word)]) @
      [(csid_key, quoted (util_hex [c])), (hashname_key, quoted (b32_text hn)), (util_hex [c], true_text)])" (is "json_is p2 ?f2")
    using q(3) by auto
  have "keys_key \<notin> set (map fst ?f2)" using new mesh_keys_ok(6) long_key [of c] by auto
  then obtain p3 where p3: "extend_keys c p2 = Inr p3" "json_is p3 (?f2 @ [(keys_key, one_key c key)])"
    using extend_result [OF p2(3) _ p2(2) key(1)] by blast
  have "map_of fs hashname_key = None" "map_of fs keys_key = None" using new by (auto simp: map_of_eq_None_iff)
  then have maps: "map_of (?f2 @ [(keys_key, one_key c key)]) hashname_key = Some (quoted (b32_text hn))"
    "map_of (?f2 @ [(keys_key, one_key c key)]) keys_key = Some (one_key c key)"
    using mesh_keys_ok(6) long_key [of c] by (auto simp: map_add_def)
  have paths: "paths_key \<notin> set (map fst (?f2 @ [(keys_key, one_key c key)]))"
  proof -
    have "length paths_key = 5" "length type_key = 4" "length csid_key = 4" "length hashname_key = 8" "length keys_key = 4"
      by (simp_all add: paths_key_def type_key_def csid_key_def hashname_key_def keys_key_def)
    then have "paths_key \<notin> {type_key, csid_key, hashname_key, keys_key, util_hex [c]}" using util_hex_id(1) [of c] by auto
    then show ?thesis using new by auto
  qed
  let ?m = "keep_hn (Some hn) m"
  have fields: "me_keys ?m = me_keys m" "me_links ?m = me_links m" "me_next ?m = me_next m" "me_ons ?m = me_ons m" "me_vtmp ?m = hn"
    by (simp_all add: keep_hn_def)
  have self: "c_store hn 0 hn = hn" by (simp add: c_store_def)
  obtain m' l where add: "mesh_add env app ?m p3 = Inr (m', Some (me_next m))" "me_links m' = (me_next m, l) # me_links m"
    "cl_id l = hn" "cl_csid l = c" "\<exists>q. cl_key l = Some q \<and> body q = key" "me_vtmp m' = hn"
    using add_result [OF p3(2) maps paths hn_ok key(1) long key(2), of ?m ms env app] ours m(3) remote
      short_unknown [OF m(1) hn_ok m(2)] unfolding fields self by blast
  have found: "mesh_linkid (me_links m') (Some hn) = Some (me_next m)"
    using hn_ok by (simp add: mesh_linkid_def add(2,3) hashname_scmp_def hashname_ok_def memcmp_eq_0_iff)
  have "discover_cbs disc [cb] p3 ?m = Inr m'" using add(1) by (simp add: handler(2) and_then_def)
  then have "receive_link_handshake env disc m c p1 (Some outer) = Inr (m', Some (me_next m))"
    using p2(1) p3(1) m(2) found add(6)
    by (simp add: receive_link_handshake_def and_then_def Let_def mesh_discover_def fields handler(1))
  moreover have "handshake_csid p1 (Some outer) = Inr c"
  proof -
    have "raw outer = be16 (of_nat (head_len outer)) @ [c] @ body outer" using lob_raw_parts(1) [OF outer(1)] outer(2) by simp
    then show ?thesis by (simp add: handshake_csid_def nth_append)
  qed
  ultimately have "mesh_receive_handshake env disc m p (Some outer) = Inr (m', Some (me_next m))"
    using p(3) p1(1,4) key(2) by (simp add: mesh_receive_handshake_def and_then_def util_cmp_0)
  then show ?thesis using add unfolding peer_link_def by blast
qed

text \<open>
  C5. A new peer is added by its handshake. The handshake carries the peer's keys in the form that has
  one of them in full and only the hashes of the others. A mesh whose handler of discovery adds what is
  discovered, as \<open>js/core.js\<close> does, has a link afterwards under the hashname that the peer computes
  from its own keys, loaded with the full key, and returns it; the other links stay.
\<close>

theorem handshake_adds_peer:
  assumes "json_is keys (map full_field ks)" and "keys_ok ks" and "(c, key) \<in> set ks"
    and "\<And>b. length (le_hash env b) = 32"
    and "hashname_im (le_hash env) keys c = Inr (Some im)" and "hashname_vkeys (le_hash env) keys = Inr (Some hn)"
    and "peer_handshake im c p outer" and "can_add env m c key hn" and "adds_discovered env disc m"
  shows "\<exists>m'. mesh_receive_handshake env disc m p (Some outer) = Inr (m', Some (me_next m)) \<and> peer_link m m' hn c key"
proof -
  have ne: "ks \<noteq> []" "key \<noteq> []" "c \<noteq> 0" using assms(2,3) by (auto simp: keys_ok_def)
  obtain im' where "hashname_im (le_hash env) keys c = Inr (Some im')"
    "json_is im' (map (im_field (le_hash env) c) ks)" "body im' = im_body c ks"
    using hashname_im_result [where H = "le_hash env" and c = c, OF assms(1,2,4)] by blast
  then have form: "json_is im (map (im_field (le_hash env) c) ks)" "body im = im_body c ks" using assms(5) by simp_all
  have body: "body im = key" using im_body_of [OF form(2) assms(2,3)] by simp
  have same: "key = snd k" if "k \<in> set ks" "fst k = c" for k
    using im_body_of [OF form(2) assms(2) that] body by simp
  show ?thesis
    by (rule handshake_adds [where env = env, OF assms(1,2) ne(1) assms(4) form(1) body same ne(2,3) assms(6-9)])
qed

text \<open>A mesh without links, its handler of discovery, and a peer with one key.\<close>

definition demo_H :: "bytes \<Rightarrow> bytes" where "demo_H b = replicate 32 0"

definition demo_in_env :: "unit link_env" where
  "demo_in_env = (demo_env 1 1)\<lparr>le_hash := demo_H, le_remote := (\<lambda>c k. Some (replicate 16 1))\<rparr>"

definition demo_mesh :: "lob \<Rightarrow> unit c_mesh" where
  "demo_mesh keys = \<lparr>me_keys = keys, me_links = [], me_chans = (\<lambda>a. (Heap (\<lambda>b. None), None)),
     me_ons = [(new_on [97])\<lparr>on_discover_cb := Some 7\<rparr>], me_vtmp = replicate 32 0, me_next = 0, me_out = []\<rparr>"

definition demo_path :: "unit path_app" where "demo_path cb a p m = Inr (m, False)"

definition demo_discover :: "nat \<Rightarrow> lob \<Rightarrow> unit c_mesh \<Rightarrow> c_fault + unit c_mesh" where
  "demo_discover cb p m = map_sum id fst (mesh_add demo_in_env demo_path m p)"

definition demo_im :: lob where
  "demo_im = (case hashname_im demo_H demo_keys 26 of Inr (Some im) \<Rightarrow> im | _ \<Rightarrow> lob_new)"

definition demo_template :: lob where
  "demo_template = lob_put (lob_put lob_new (id_key, quoted [120])) (at_key, [53])"

definition demo_inner :: "lob \<Rightarrow> lob" where
  "demo_inner im = lob_body demo_template (Some (raw im)) (length (raw im))"

definition demo_outer :: "u8 \<Rightarrow> lob" where "demo_outer c = \<lparr>raw = [0, 1, c], head_len = 1, body_len = 0\<rparr>"

lemma demo_H: "length (demo_H b) = 32"
  by (simp add: demo_H_def)

lemma demo_im: "hashname_im demo_H demo_keys 26 = Inr (Some demo_im)" "head_len demo_im < 65536"
proof -
  obtain im where im: "hashname_im demo_H demo_keys 26 = Inr (Some im)" "json_is im (map (im_field demo_H 26) [(26, [1])])"
    using hashname_im_result [where H = demo_H and c = 26, OF demo_keys demo_H] by blast
  then have eq: "demo_im = im" by (simp add: demo_im_def)
  then show "hashname_im demo_H demo_keys 26 = Inr (Some demo_im)" using im by simp
  have "head im = object_text [(util_hex [26], true_text)]" "lob_ok im"
    using json_is_head(1) [OF im(2)] im(2) by (simp_all add: im_field_def json_is_def)
  then have "head_len im = length (object_text [(util_hex [26], true_text)])" using lob_raw_parts(2) by metis
  then show "head_len demo_im < 65536"
    using eq util_hex_id(1) [of 26] true_text(4) by (simp add: object_text_def field_text_def key_text_def)
qed

lemma demo_inner: "json_is (demo_inner im) [(id_key, quoted [120]), (at_key, [53])]" "body (demo_inner im) = raw im"
  "lob_get (demo_inner im) id_key \<noteq> None" "lob_get_uint (demo_inner im) at_key \<noteq> 0"
proof -
  have v: "json_value (quoted [120])" "json_value [53]"
    by (simp add: str_chars str_char_def, rule value_bare, simp add: bare_word_def bare_start_def)
  have new: "body_len lob_new = 0" by (simp add: lob_new_def)
  obtain p where p: "lob_set_raw lob_new id_key 0 (quoted [120]) 0 = Inr p" "json_is p [(id_key, quoted [120])]" "body_len p = 0"
    using set_raw_no_body [OF json_is_new new mesh_keys_ok(1) v(1), of 0 0] by auto
  obtain q where q: "lob_set_raw p at_key 0 [53] 0 = Inr q" "json_is q [(id_key, quoted [120]), (at_key, [53])]"
    using set_raw_no_body [OF p(2,3) at_key_ok v(2), of 0 0] mesh_keys_ok(6) by auto
  have "demo_template = q" using p(1) q(1) by (simp add: demo_template_def lob_put_def)
  then show json: "json_is (demo_inner im) [(id_key, quoted [120]), (at_key, [53])]" and "body (demo_inner im) = raw im"
    using json_body [OF q(2) refl, of "raw im"] by (simp_all add: demo_inner_def)
  show "lob_get (demo_inner im) id_key \<noteq> None"
    using lob_get_content [OF json, of id_key "quoted [120]"] by (simp add: text_read_def)
  have "lob_get (demo_inner im) at_key = Some [53]"
    using lob_get_content [OF json, of at_key "[53]"]
    by (simp add: text_read_def content_def id_key_def at_key_def)
  moreover have "strtoul10 [53] = 5" by (simp add: strtoul10_def strto_parts_def c_space_def)
  ultimately show "lob_get_uint (demo_inner im) at_key \<noteq> 0" by (simp add: lob_get_uint_def)
qed

lemma demo_handshake:
  assumes "head_len im < 65536" and "util_hex [c] \<noteq> id_key" and "util_hex [c] \<noteq> at_key"
  shows "peer_handshake im c (demo_inner im) (demo_outer c)"
proof -
  have outer: "lob_ok (demo_outer c)" "head (demo_outer c) = [c]"
    by (simp_all add: demo_outer_def lob_ok_def head_def be16_def)
  have "{type_key, csid_key, hashname_key, keys_key, paths_key, t} \<inter> fst ` set [(id_key, quoted [120]), (at_key, [53])] = {}"
    if "t = util_hex [c]" for t
    using that assms(2,3) by (auto simp: type_key_def csid_key_def hashname_key_def keys_key_def paths_key_def id_key_def at_key_def)
  then show ?thesis using assms(1) demo_inner [of im] outer unfolding peer_handshake_def by blast
qed

lemma demo_can_add:
  assumes "json_is keys (map full_field [(c, [k])])" and "c \<noteq> 0"
  shows "can_add demo_in_env (demo_mesh keys) c [b] hn"
  using assms by (auto simp: can_add_def demo_mesh_def CLink.links_ok_def mesh_linkid_def demo_in_env_def keys_ok_def
      split: option.split intro!: exI [of _ "[(c, [k])]"])

lemma demo_adds: "adds_discovered demo_in_env demo_discover (demo_mesh keys)" "me_next (demo_mesh keys) = 0"
  by (auto simp: adds_discovered_def demo_mesh_def mesh_discover_calls_def new_on_def List.map_filter_simps demo_discover_def)

lemma demo_hash: "le_hash demo_in_env = demo_H" "length (le_hash demo_in_env b) = 32"
  by (simp_all add: demo_in_env_def demo_H)

lemma demo_hex: "util_hex [26] \<noteq> id_key" "util_hex [26] \<noteq> at_key" "util_hex [58] \<noteq> id_key" "util_hex [58] \<noteq> at_key"
  by code_simp+

lemma demo_hn: "hashname_vkeys demo_H demo_keys = Inr (Some (replicate 32 0))"
proof -
  obtain hn where "hashname_vkeys demo_H demo_keys = Inr (Some hn)"
    "\<exists>sorted. mset sorted = mset [(26 :: u8, [1 :: u8])] \<and> sorted_wrt key_order sorted \<and> hn = rollup demo_H [] sorted"
    using any_form [where H = demo_H, OF demo_keys _ demo_H] by blast
  then show ?thesis by (auto simp: demo_H_def)
qed

theorem handshake_adds_peer_witness:
  "\<exists>m'. mesh_receive_handshake demo_in_env demo_discover (demo_mesh demo_keys) (demo_inner demo_im) (Some (demo_outer 26)) =
      Inr (m', Some 0) \<and>
    peer_link (demo_mesh demo_keys) m' (replicate 32 0) 26 [1]"
proof -
  note hs = demo_handshake [OF demo_im(2) demo_hex(1,2)]
  note can = demo_can_add [OF demo_keys(1), of 1 "replicate 32 0"]
  show ?thesis
    using handshake_adds_peer [where env = demo_in_env, OF demo_keys _ demo_hash(2) _ _ hs can demo_adds(1)] demo_im(1) demo_hn
    by (simp add: demo_hash(1) demo_adds(2))
qed

text \<open>
  C6. The hashname of a link need not be that of its key. Whoever knows the keys of a peer can put their
  hashes into a handshake for a cipher set that the peer does not have, with a key of his own as the
  body: the body is not hashed then, and the mesh adds a link under the peer's hashname that is loaded
  with the other key.
\<close>

theorem handshake_spoofs_hashname:
  assumes "json_is keys (map full_field ks)" and "keys_ok ks" and "ks \<noteq> []" and "c \<notin> fst ` set ks"
    and "\<And>b. length (le_hash env b) = 32"
    and "json_is im (map (im_field (le_hash env) 0) ks)" and "body im = key" and "key \<noteq> []" and "c \<noteq> 0"
    and "hashname_vkeys (le_hash env) keys = Inr (Some hn)"
    and "peer_handshake im c p outer" and "can_add env m c key hn" and "adds_discovered env disc m"
  shows "\<exists>m'. mesh_receive_handshake env disc m p (Some outer) = Inr (m', Some (me_next m)) \<and> peer_link m m' hn c key"
proof -
  have "map (im_field (le_hash env) 0) ks = map (im_field (le_hash env) c) ks"
    using assms(2,4) by (intro map_cong) (auto simp: im_field_def keys_ok_def intro: rev_image_eqI)
  with assms(6) have form: "json_is im (map (im_field (le_hash env) c) ks)" by (rule subst [rotated])
  have none: "key = snd k" if "k \<in> set ks" "fst k = c" for k using that assms(4) by auto
  show ?thesis
    by (rule handshake_adds [where env = env, OF assms(1-3,5) form assms(7) none assms(8-13)])
qed

text \<open>The hashes of the peer of before under a key of the cipher set 3a.\<close>

definition demo_other :: lob where "demo_other = lob_put lob_new (full_field (58, [9]))"

lemma demo_other: "json_is demo_other (map full_field [(58, [9])])"
proof -
  obtain q where "lob_set_base32 lob_new (util_hex [58]) [9] = Inr q" "fields_ok [full_field (58, [9])]"
    using set_one_key [of "[9]" 58] by blast
  then have f: "key_ok (util_hex [58])" "json_value (quoted (b32_text [9]))"
    using str_chars(2) str_char_b32 by (auto simp: full_field_def fields_ok_def)
  have new: "body_len lob_new = 0" by (simp add: lob_new_def)
  obtain p where "lob_set_raw lob_new (util_hex [58]) 0 (quoted (b32_text [9])) 0 = Inr p"
    "json_is p [(util_hex [58], quoted (b32_text [9]))]"
    using set_raw_no_body [OF json_is_new new f, of 0 0] by auto
  then show ?thesis by (simp add: demo_other_def lob_put_def full_field_def)
qed

definition demo_forged :: lob where
  "demo_forged = (case hashname_im demo_H demo_keys 0 of Inr (Some im) \<Rightarrow> lob_body im (Some [2]) 1 | _ \<Rightarrow> lob_new)"

lemma demo_forged: "json_is demo_forged (map (im_field demo_H 0) [(26, [1])])" "body demo_forged = [2]" "head_len demo_forged < 65536"
proof -
  obtain im where im: "hashname_im demo_H demo_keys 0 = Inr (Some im)" "json_is im (map (im_field demo_H 0) [(26, [1])])"
    using hashname_im_result [where H = demo_H and c = 0, OF demo_keys demo_H] by blast
  then have f: "demo_forged = lob_body im (Some [2]) 1" by (simp add: demo_forged_def)
  have one: "length [2 :: u8] = 1" by simp
  show json: "json_is demo_forged (map (im_field demo_H 0) [(26, [1])])" and "body demo_forged = [2]"
    using json_body [OF im(2) one] unfolding f by simp_all
  have "head demo_forged = object_text [(util_hex [26], quoted (b32_text (demo_H [1])))]" "lob_ok demo_forged"
    using json_is_head(1) [OF json] json by (simp_all add: im_field_def json_is_def)
  then have "head_len demo_forged = length (object_text [(util_hex [26], quoted (b32_text (demo_H [1])))])"
    using lob_raw_parts(2) by metis
  then show "head_len demo_forged < 65536"
    using util_hex_id(1) [of 26] length_b32_text [of "demo_H [1]"] demo_H [of "[1]"]
    by (simp add: object_text_def field_text_def key_text_def quoted_def base32_encode_length_def)
qed

theorem handshake_spoofs_hashname_witness:
  "\<exists>m'. mesh_receive_handshake demo_in_env demo_discover (demo_mesh demo_other) (demo_inner demo_forged) (Some (demo_outer 58)) =
      Inr (m', Some 0) \<and>
    peer_link (demo_mesh demo_other) m' (replicate 32 0) 58 [2]"
proof -
  note hs = demo_handshake [OF demo_forged(3) demo_hex(3,4)]
  note can = demo_can_add [OF demo_other, of 2 "replicate 32 0"]
  show ?thesis
    using handshake_spoofs_hashname [where env = demo_in_env, OF demo_keys _ _ demo_hash(2) _ demo_forged(2) _ _ _ hs can demo_adds(1)]
      demo_forged(1) demo_hn
    by (simp add: demo_hash(1) demo_adds(2))
qed

end
